(* ===== verification/Prelude.thy ===== *)
theory Prelude
  imports Complex_Main "HOL-Library.AList"
begin

text \<open>
  What every component of the library shares: the values of JavaScript that the modelled code
  handles (numbers with the non-finite ones, values of unknown type), the insertion-ordered
  \<open>Map\<close> and \<open>Set\<close> of JavaScript, searches in arrays, and the lemma collections the component
  theories extend.

  A JavaScript \<open>Map\<close> whose iteration order matters is an association list with distinct keys:
  \<open>get\<close> is \<open>map_of\<close>, \<open>set\<close> is \<open>AList.update\<close> (which keeps the position of a key that is
  present and appends a new one) and \<open>delete\<close> is \<open>AList.delete\<close>. A \<open>Map\<close> that is only ever
  looked up is a HOL map.
\<close>

named_theorems order_simps "how the canvas-order operations act on the ordering state"
named_theorems ladder_simps "how the unlock-ladder operations act on the ladder state"
named_theorems webgl_simps "how the WebGL coordinator operations act on its state"
named_theorems board_simps "how the kanban transforms act on the board"

section \<open>Numbers\<close>

text \<open>
  A JavaScript number. The finite values the code computes with are rationals; rounding of
  doubles is not modelled (the code only compares, adds and takes floors of small values).
\<close>

datatype jsnum = Fin rat | PosInf | NegInf | NaN

fun is_finite :: "jsnum \<Rightarrow> bool" where
  "is_finite (Fin _) = True"
| "is_finite _ = False"

text \<open>\<open><\<close> on numbers: every comparison with NaN is false.\<close>

fun js_less :: "jsnum \<Rightarrow> jsnum \<Rightarrow> bool" where
  "js_less (Fin a) (Fin b) = (a < b)"
| "js_less (Fin _) PosInf = True"
| "js_less NegInf (Fin _) = True"
| "js_less NegInf PosInf = True"
| "js_less _ _ = False"

abbreviation jsint :: "int \<Rightarrow> jsnum" where
  "jsint i \<equiv> Fin (of_int i)"

abbreviation jsnat :: "nat \<Rightarrow> jsnum" where
  "jsnat n \<equiv> Fin (of_nat n)"

text \<open>\<open>Number.isInteger\<close>\<close>

fun is_integer :: "jsnum \<Rightarrow> bool" where
  "is_integer (Fin a) = (a = of_int \<lfloor>a\<rfloor>)"
| "is_integer _ = False"

lemma is_integer_jsint [simp]: "is_integer (jsint i)"
  by simp

lemma is_integer_jsnat [simp]: "is_integer (jsnat n)"
  by (simp add: of_int_floor_cancel Ints_of_nat)

section \<open>Values of unknown type\<close>

text \<open>
  What \<open>unknown\<close> may hold once it has crossed a file or a wire: the validators of the source take
  such values. \<open>JUndef\<close> is \<open>undefined\<close>; objects keep the order of their own keys.
\<close>

datatype jsval =
    JUndef
  | JNull
  | JBool bool
  | JNum jsnum
  | JStr string
  | JArr "jsval list"
  | JObj "(string \<times> jsval) list"

text \<open>Reading a property: \<open>undefined\<close> when it is absent or the value is not an object.\<close>

fun js_prop :: "jsval \<Rightarrow> string \<Rightarrow> jsval" where
  "js_prop (JObj ps) k = (case map_of ps k of None \<Rightarrow> JUndef | Some v \<Rightarrow> v)"
| "js_prop _ _ = JUndef"

text \<open>\<open>typeof value === 'object' && value !== null && !Array.isArray(value)\<close>\<close>

fun is_record :: "jsval \<Rightarrow> bool" where
  "is_record (JObj _) = True"
| "is_record _ = False"

fun js_keys :: "jsval \<Rightarrow> string list" where
  "js_keys (JObj ps) = map fst ps"
| "js_keys _ = []"

section \<open>Arrays\<close>

text \<open>\<open>findIndex\<close>, with \<open>None\<close> for -1.\<close>

fun find_index :: "('a \<Rightarrow> bool) \<Rightarrow> 'a list \<Rightarrow> nat option" where
  "find_index P [] = None"
| "find_index P (x # xs) = (if P x then Some 0 else map_option Suc (find_index P xs))"

lemma find_index_None: "find_index P xs = None \<longleftrightarrow> (\<forall>x \<in> set xs. \<not> P x)"
  by (induction xs) auto

lemma find_index_Some:
  "find_index P xs = Some i \<Longrightarrow> i < length xs \<and> P (xs ! i) \<and> (\<forall>j < i. \<not> P (xs ! j))"
proof (induction xs arbitrary: i)
  case Nil
  then show ?case by simp
next
  case (Cons x xs)
  show ?case
  proof (cases "P x")
    case True
    with Cons.prems show ?thesis by simp
  next
    case False
    with Cons.prems obtain k where k: "find_index P xs = Some k" "i = Suc k" by auto
    from Cons.IH [OF k(1)] False k(2) show ?thesis by (auto simp: nth_Cons split: nat.splits)
  qed
qed

text \<open>\<open>find\<close> by identifier: the record of a list whose id field is \<open>k\<close>.\<close>

definition lookup_by :: "('a \<Rightarrow> 'k) \<Rightarrow> 'a list \<Rightarrow> 'k \<Rightarrow> 'a option" where
  "lookup_by f xs k = List.find (\<lambda>x. f x = k) xs"

text \<open>The array idiom replace-in-place-or-append, keyed by an identifier.\<close>

definition upsert_by :: "('a \<Rightarrow> 'k) \<Rightarrow> 'a \<Rightarrow> 'a list \<Rightarrow> 'a list" where
  "upsert_by f y xs =
     (case find_index (\<lambda>x. f x = f y) xs of None \<Rightarrow> xs @ [y] | Some i \<Rightarrow> xs[i := y])"

lemma lookup_by_Nil [simp]: "lookup_by f [] k = None"
  by (simp add: lookup_by_def)

lemma lookup_by_Cons [simp]:
  "lookup_by f (x # xs) k = (if f x = k then Some x else lookup_by f xs k)"
  by (simp add: lookup_by_def)

lemma lookup_by_append [simp]:
  "lookup_by f (xs @ ys) k = (case lookup_by f xs k of None \<Rightarrow> lookup_by f ys k | Some x \<Rightarrow> Some x)"
  by (induction xs) auto

lemma lookup_by_None: "lookup_by f xs k = None \<longleftrightarrow> k \<notin> f ` set xs"
  by (induction xs) auto

lemma lookup_by_Some: "lookup_by f xs k = Some x \<Longrightarrow> x \<in> set xs \<and> f x = k"
  by (induction xs) (auto split: if_splits)

lemma lookup_by_filter_neq:
  "lookup_by f (filter (\<lambda>x. f x \<noteq> k) xs) j = (if j = k then None else lookup_by f xs j)"
  by (induction xs) auto

lemma lookup_by_map:
  "(\<And>x. f (h x) = f x) \<Longrightarrow> lookup_by f (map h xs) k = map_option h (lookup_by f xs k)"
  by (induction xs) auto

lemma lookup_by_find_index:
  "lookup_by f xs k = (case find_index (\<lambda>x. f x = k) xs of None \<Rightarrow> None | Some i \<Rightarrow> Some (xs ! i))"
  by (induction xs) (auto split: option.splits)

lemma lookup_by_update:
  "i < length xs \<Longrightarrow> find_index (\<lambda>x. f x = f y) xs = Some i \<Longrightarrow>
   lookup_by f (xs[i := y]) k = (if k = f y then Some y else lookup_by f xs k)"
proof (induction xs arbitrary: i)
  case Nil
  then show ?case by simp
next
  case (Cons x xs)
  then show ?case by (cases "f x = f y") (auto split: nat.splits)
qed

lemma lookup_by_upsert_by:
  "lookup_by f (upsert_by f y xs) k = (if k = f y then Some y else lookup_by f xs k)"
proof (cases "find_index (\<lambda>x. f x = f y) xs")
  case None
  then have "lookup_by f xs (f y) = None" by (simp add: lookup_by_find_index)
  with None show ?thesis
    by (auto simp: upsert_by_def split: option.splits)
next
  case (Some i)
  with lookup_by_update [of i xs f y k] find_index_Some [OF Some] show ?thesis
    by (simp add: upsert_by_def)
qed

lemma map_upsert_by:
  "map f (upsert_by f y xs) = (if f y \<in> f ` set xs then map f xs else map f xs @ [f y])"
proof (cases "find_index (\<lambda>x. f x = f y) xs")
  case None
  then have "f y \<notin> f ` set xs" by (auto simp: find_index_None)
  with None show ?thesis by (simp add: upsert_by_def)
next
  case (Some i)
  from find_index_Some [OF Some] have i: "i < length xs" "f (xs ! i) = f y" by auto
  then have mem: "f y \<in> f ` set xs" by (metis image_eqI nth_mem)
  have "map f (xs[i := y]) = (map f xs)[i := f y]" by (rule map_update)
  also have "\<dots> = map f xs" using i by (metis list_update_id nth_map)
  finally show ?thesis using Some mem by (simp add: upsert_by_def)
qed

lemma distinct_upsert_by:
  "distinct (map f xs) \<Longrightarrow> distinct (map f (upsert_by f y xs))"
  by (auto simp: map_upsert_by)

lemma set_upsert_by_subset: "set (upsert_by f y xs) \<subseteq> insert y (set xs)"
proof (cases "find_index (\<lambda>x. f x = f y) xs")
  case None
  then show ?thesis by (auto simp: upsert_by_def)
next
  case (Some i)
  then show ?thesis using set_update_subset_insert by (fastforce simp: upsert_by_def)
qed

lemma distinct_map_filter: "distinct (map f xs) \<Longrightarrow> distinct (map f (filter P xs))"
  by (induction xs) auto

section \<open>Sets kept in insertion order\<close>

definition js_add :: "'a \<Rightarrow> 'a list \<Rightarrow> 'a list" where
  "js_add x xs = (if x \<in> set xs then xs else xs @ [x])"

lemma set_js_add [simp]: "set (js_add x xs) = insert x (set xs)"
  by (auto simp: js_add_def)

lemma distinct_js_add [simp]: "distinct xs \<Longrightarrow> distinct (js_add x xs)"
  by (simp add: js_add_def)

lemma js_add_mem [simp]: "x \<in> set xs \<Longrightarrow> js_add x xs = xs"
  by (simp add: js_add_def)

section \<open>Strings\<close>

definition starts_with :: "string \<Rightarrow> string \<Rightarrow> bool" where
  "starts_with p s \<longleftrightarrow> take (length p) s = p"

lemma starts_with_append [simp]: "starts_with p (p @ s)"
  by (simp add: starts_with_def)

end
