(* ===== verification/Canvas_Types.thy ===== *)
theory Canvas_Types
  imports Prelude
begin

text \<open>
  The data of a shared canvas (src/shared/types.ts): nodes, the two edge lists, the typed links
  and the mutation vocabulary every client and the reflector speak.

  A node is a record with one field per property the modelled code reads or writes; the display
  properties it only ever copies stand together in \<open>n_rest\<close> (name and JSON text of each).
  Optional properties are of option type, and the properties whose content reaches the code as
  \<open>unknown\<close> (a hand-editable file, a peer) are \<open>jsval option\<close>.
\<close>

record ssh_conn =
  ssh_host :: string
  ssh_user :: string
  ssh_port :: "nat option"
  ssh_identityFile :: "string option"
  ssh_extraArgs :: "string option"
  ssh_execTrusted :: "bool option"
  ssh_rest :: "(string \<times> string) list"

record media_asset =
  ma_assetId :: string
  ma_sourcePath :: "string option"
  ma_rest :: "(string \<times> string) list"

record canvas_node =
  n_id :: string
  n_kind :: string
  n_creationEventId :: "string option"
  n_x :: jsnum
  n_y :: jsnum
  n_title :: string
  n_group :: "string option"
  n_universeCanvasId :: "string option"
  n_nonDeletable :: "bool option"
  n_cwd :: "string option"
  n_shell :: "string option"
  n_terminalProfileId :: "string option"
  n_namedTerminalProfileId :: "string option"
  n_pendingLaunch :: "jsval option"
  n_clearEnv :: "bool option"
  n_ssh :: "ssh_conn option"
  n_serviceConnection :: "jsval option"
  n_openWebUiLocalBinding :: "jsval option"
  n_nextcloudManagedBinding :: "jsval option"
  n_awsIdentityBinding :: "jsval option"
  n_nsisLocalPaths :: "jsval option"
  n_virtualMachineLocalPaths :: "jsval option"
  n_filePath :: "string option"
  n_mediaAssets :: "media_asset list option"
  n_rest :: "(string \<times> string) list"

datatype edge_kind = Bridge | Rope

record bridge_link =
  e_id :: string
  e_source :: string
  e_target :: string

datatype endpoint =
    NodeEnd string
  | XNodeEnd string string
  | BranchEnd string string

datatype link_kind = Context | Lineage | Dependency

record link =
  l_id :: string
  l_kind :: link_kind
  l_source :: endpoint
  l_target :: endpoint
  l_meta :: "jsval option"

text \<open>
  A mutation is its operation and the three stamps: the publisher's tag, the place in the total
  order and the sender's causal position.
\<close>

datatype mutation_op =
    Upsert canvas_node
  | Remove string
  | EdgeUpsert edge_kind bridge_link
  | EdgeRemove edge_kind string
  | LinkUpsert link
  | LinkRemove string

record canvas_mutation =
  m_op :: mutation_op
  m_src :: "string option"
  m_seq :: "nat option"
  m_seen :: "jsnum option"

text \<open>The scene a publisher diffs and a receiver patches.\<close>

record canvas_scene =
  sc_nodes :: "canvas_node list"
  sc_bridges :: "bridge_link list"
  sc_ropes :: "bridge_link list"
  sc_links :: "link list"

definition blank_node :: "string \<Rightarrow> string \<Rightarrow> canvas_node" where
  "blank_node i k =
     \<lparr>n_id = i, n_kind = k, n_creationEventId = None, n_x = Fin 0, n_y = Fin 0, n_title = [],
      n_group = None, n_universeCanvasId = None, n_nonDeletable = None, n_cwd = None,
      n_shell = None, n_terminalProfileId = None, n_namedTerminalProfileId = None,
      n_pendingLaunch = None, n_clearEnv = None, n_ssh = None, n_serviceConnection = None,
      n_openWebUiLocalBinding = None, n_nextcloudManagedBinding = None,
      n_awsIdentityBinding = None, n_nsisLocalPaths = None, n_virtualMachineLocalPaths = None,
      n_filePath = None, n_mediaAssets = None, n_rest = []\<rparr>"

end
