(* ===== verification/Js_Text.thy ===== *)
theory Js_Text
  imports Prelude
begin

text \<open>
  Strings as the validators of the source read them: character classes of its regular
  expressions, \<open>trim\<close>, \<open>toLowerCase\<close>, and the truth value of a value of unknown type. A string is
  a list of code units below 256; every class of the modelled expressions is ASCII, so a larger
  code unit would fall in the complement of each class, as the code units from 128 to 255 do.
\<close>

section \<open>Character classes\<close>

definition code_of :: "char \<Rightarrow> nat" where
  "code_of c = of_char c"

definition is_digit :: "char \<Rightarrow> bool" where
  "is_digit c \<longleftrightarrow> 48 \<le> code_of c \<and> code_of c \<le> 57"

definition is_upper :: "char \<Rightarrow> bool" where
  "is_upper c \<longleftrightarrow> 65 \<le> code_of c \<and> code_of c \<le> 90"

definition is_lower :: "char \<Rightarrow> bool" where
  "is_lower c \<longleftrightarrow> 97 \<le> code_of c \<and> code_of c \<le> 122"

definition is_alnum :: "char \<Rightarrow> bool" where
  "is_alnum c \<longleftrightarrow> is_digit c \<or> is_upper c \<or> is_lower c"

definition is_lower_hex :: "char \<Rightarrow> bool" where
  "is_lower_hex c \<longleftrightarrow> is_digit c \<or> (97 \<le> code_of c \<and> code_of c \<le> 102)"

definition is_hex :: "char \<Rightarrow> bool" where
  "is_hex c \<longleftrightarrow> is_lower_hex c \<or> (65 \<le> code_of c \<and> code_of c \<le> 70)"

text \<open>\<open>code < 0x20 || code === 0x7f\<close>\<close>

definition is_control :: "char \<Rightarrow> bool" where
  "is_control c \<longleftrightarrow> code_of c < 32 \<or> code_of c = 127"

text \<open>White space as \<open>\s\<close> and \<open>trim\<close> have it.\<close>

definition is_space :: "char \<Rightarrow> bool" where
  "is_space c \<longleftrightarrow> (9 \<le> code_of c \<and> code_of c \<le> 13) \<or> code_of c = 32 \<or> code_of c = 160"

definition oneof :: "string \<Rightarrow> char \<Rightarrow> bool" where
  "oneof cs c \<longleftrightarrow> c \<in> set cs"

definition alnum_or :: "string \<Rightarrow> char \<Rightarrow> bool" where
  "alnum_or cs c \<longleftrightarrow> is_alnum c \<or> oneof cs c"

lemmas char_class_defs =
  is_digit_def is_upper_def is_lower_def is_alnum_def is_lower_hex_def is_hex_def is_control_def
  is_space_def oneof_def alnum_or_def code_of_def

section \<open>Shapes\<close>

text \<open>\<open>^[first][rest]{0,n}$\<close>\<close>

fun ident :: "(char \<Rightarrow> bool) \<Rightarrow> (char \<Rightarrow> bool) \<Rightarrow> nat \<Rightarrow> string \<Rightarrow> bool" where
  "ident f r n [] = False"
| "ident f r n (c # cs) = (f c \<and> list_all r cs \<and> length cs \<le> n)"

text \<open>\<open>^[class]{lo,hi}$\<close>\<close>

definition run_of :: "(char \<Rightarrow> bool) \<Rightarrow> nat \<Rightarrow> nat \<Rightarrow> string \<Rightarrow> bool" where
  "run_of r lo hi s \<longleftrightarrow> list_all r s \<and> lo \<le> length s \<and> length s \<le> hi"

fun ltrim :: "string \<Rightarrow> string" where
  "ltrim [] = []"
| "ltrim (c # cs) = (if is_space c then ltrim cs else c # cs)"

definition trim :: "string \<Rightarrow> string" where
  "trim s = rev (ltrim (rev (ltrim s)))"

definition lower_char :: "char \<Rightarrow> char" where
  "lower_char c =
     (if is_upper c \<or> (192 \<le> code_of c \<and> code_of c \<le> 222 \<and> code_of c \<noteq> 215)
      then char_of (code_of c + 32) else c)"

definition to_lower :: "string \<Rightarrow> string" where
  "to_lower = map lower_char"

text \<open>\<open>split\<close> on a one-character separator: always at least one part.\<close>

fun split_on :: "char \<Rightarrow> string \<Rightarrow> string list" where
  "split_on d [] = [[]]"
| "split_on d (c # cs) =
     (if c = d then [] # split_on d cs
      else case split_on d cs of [] \<Rightarrow> [[c]] | p # ps \<Rightarrow> (c # p) # ps)"

lemma ltrim_idem [simp]: "ltrim (ltrim s) = ltrim s"
  by (induction s) auto

lemma ltrim_id: "(\<And>c. c \<in> set s \<Longrightarrow> \<not> is_space c) \<Longrightarrow> ltrim s = s"
  by (cases s) auto

lemma ltrim_suffix: "\<exists>p. s = p @ ltrim s \<and> list_all is_space p"
proof (induction s)
  case Nil
  then show ?case by simp
next
  case (Cons c s)
  then obtain p where "s = p @ ltrim s" "list_all is_space p" by blast
  then show ?case
    by (cases "is_space c") (auto intro: exI [of _ "c # p"] exI [of _ "[]"])
qed

lemma ltrim_fix: "ltrim s = s \<longleftrightarrow> s = [] \<or> \<not> is_space (hd s)"
proof (cases s)
  case (Cons c cs)
  have "length (ltrim cs) \<le> length cs"
    by (induction cs) auto
  then have "ltrim cs \<noteq> c # cs" by (metis impossible_Cons)
  with Cons show ?thesis by auto
qed simp

lemma hd_ltrim: "ltrim s = [] \<or> \<not> is_space (hd (ltrim s))"
  using ltrim_fix [of "ltrim s"] by simp

lemma trim_idem [simp]: "trim (trim s) = trim s"
proof -
  let ?a = "ltrim s"
  let ?b = "rev (ltrim (rev ?a))"
  obtain p where p: "rev ?a = p @ ltrim (rev ?a)" "list_all is_space p"
    using ltrim_suffix by blast
  then have a: "?a = ?b @ rev p" by (metis rev_append rev_rev_ident)
  have "ltrim ?b = ?b"
  proof (cases "?b = []")
    case False
    then have "hd ?b = hd ?a" by (subst a) simp
    moreover from False a have "?a \<noteq> []" by auto
    ultimately have "\<not> is_space (hd ?b)" using hd_ltrim [of s] by simp
    then show ?thesis by (simp add: ltrim_fix)
  qed (simp only: ltrim.simps)
  then show ?thesis by (simp add: trim_def)
qed

lemma ltrim_set: "set (ltrim s) \<subseteq> set s"
  by (induction s) auto

lemma trim_set: "set (trim s) \<subseteq> set s"
proof -
  have "set (trim s) \<subseteq> set (ltrim s)" using ltrim_set [of "rev (ltrim s)"] by (simp add: trim_def)
  with ltrim_set [of s] show ?thesis by blast
qed

lemma trim_id:
  assumes "\<And>c. c \<in> set s \<Longrightarrow> \<not> is_space c"
  shows "trim s = s"
proof -
  have "ltrim s = s" and "ltrim (rev s) = rev s" using assms by (auto intro!: ltrim_id)
  then show ?thesis by (simp add: trim_def)
qed

text \<open>A number written out: \<open>String(n)\<close> in base ten, \<open>toString(16)\<close>, and \<open>padStart\<close> with zeros.\<close>

definition digit_char :: "nat \<Rightarrow> char" where
  "digit_char d = char_of (if d < 10 then 48 + d else 87 + d)"

function digits :: "nat \<Rightarrow> nat \<Rightarrow> string" where
  "digits b n =
     (if n < b \<or> b < 2 then [digit_char n] else digits b (n div b) @ [digit_char (n mod b)])"
  by pat_completeness auto

termination
  by (relation "measure snd") (auto intro: div_less_dividend)

declare digits.simps [simp del]

definition dec :: "nat \<Rightarrow> string" where
  "dec n = digits 10 n"

definition pad_zeros :: "nat \<Rightarrow> string \<Rightarrow> string" where
  "pad_zeros k s = replicate (k - length s) (CHR ''0'') @ s"

lemma length_digits: "2 \<le> b \<Longrightarrow> 0 < k \<Longrightarrow> n < b ^ k \<Longrightarrow> length (digits b n) \<le> k"
proof (induction k arbitrary: n)
  case 0
  then show ?case by simp
next
  case (Suc k)
  show ?case
  proof (cases "n < b")
    case True
    then show ?thesis by (simp add: digits.simps [of b n])
  next
    case False
    have "0 < k" using False Suc.prems(3) by (cases k) auto
    moreover have "n div b < b ^ k"
      using Suc.prems by (simp add: less_mult_imp_div_less mult.commute)
    ultimately have "length (digits b (n div b)) \<le> k" using Suc by simp
    with False Suc.prems(1) show ?thesis by (simp add: digits.simps [of b n])
  qed
qed

lemma length_pad_zeros: "length s \<le> k \<Longrightarrow> length (pad_zeros k s) = k"
  by (simp add: pad_zeros_def)

section \<open>Unknown values\<close>

text \<open>\<open>Boolean(x)\<close>\<close>

fun js_truthy :: "jsval \<Rightarrow> bool" where
  "js_truthy JUndef = False"
| "js_truthy JNull = False"
| "js_truthy (JBool b) = b"
| "js_truthy (JNum n) = (n \<noteq> Fin 0 \<and> n \<noteq> NaN)"
| "js_truthy (JStr s) = (s \<noteq> [])"
| "js_truthy (JArr _) = True"
| "js_truthy (JObj _) = True"

text \<open>\<open>typeof x === 'string' && P(x)\<close>\<close>

fun str_that :: "(string \<Rightarrow> bool) \<Rightarrow> jsval \<Rightarrow> bool" where
  "str_that P (JStr s) = P s"
| "str_that P _ = False"

fun num_that :: "(jsnum \<Rightarrow> bool) \<Rightarrow> jsval \<Rightarrow> bool" where
  "num_that P (JNum x) = P x"
| "num_that P _ = False"

fun arr_that :: "(jsval list \<Rightarrow> bool) \<Rightarrow> jsval \<Rightarrow> bool" where
  "arr_that P (JArr xs) = P xs"
| "arr_that P _ = False"

fun arr_items :: "jsval \<Rightarrow> jsval list" where
  "arr_items (JArr xs) = xs"
| "arr_items _ = []"

fun js_str :: "jsval \<Rightarrow> string" where
  "js_str (JStr s) = s"
| "js_str _ = []"

text \<open>\<open>typeof x === 'object' && x !== null\<close>: an array is an object too.\<close>

fun is_object :: "jsval \<Rightarrow> bool" where
  "is_object (JObj _) = True"
| "is_object (JArr _) = True"
| "is_object _ = False"

text \<open>An optional property: absent is \<open>undefined\<close>.\<close>

definition opt_val :: "jsval option \<Rightarrow> jsval" where
  "opt_val v = (case v of None \<Rightarrow> JUndef | Some x \<Rightarrow> x)"

lemma opt_val_simps [simp]: "opt_val None = JUndef" "opt_val (Some x) = x"
  by (simp_all add: opt_val_def)

text \<open>A property written into an object literal only when it is there.\<close>

definition prop_if :: "bool \<Rightarrow> string \<Rightarrow> jsval \<Rightarrow> (string \<times> jsval) list" where
  "prop_if b k v = (if b then [(k, v)] else [])"

lemma prop_if_simps [simp]: "prop_if True k v = [(k, v)]" "prop_if False k v = []"
  by (simp_all add: prop_if_def)

lemma map_of_prop_if_append [simp]:
  "map_of (prop_if b k v @ ps) j = (if b \<and> j = k then Some v else map_of ps j)"
  by (simp add: prop_if_def)

lemma map_of_prop_if [simp]: "map_of (prop_if b k v) j = (if b \<and> j = k then Some v else None)"
  by (simp add: prop_if_def)

lemma str_that_D: "str_that P v \<Longrightarrow> v = JStr (js_str v) \<and> P (js_str v)"
  by (cases v) auto

lemma num_that_D: "num_that P v \<Longrightarrow> \<exists>x. v = JNum x \<and> P x"
  by (cases v) auto

lemma arr_that_D: "arr_that P v \<Longrightarrow> v = JArr (arr_items v) \<and> P (arr_items v)"
  by (cases v) auto

text \<open>\<open>Number.isSafeInteger(x) && x >= 0\<close>\<close>

fun safe_nat :: "jsnum \<Rightarrow> bool" where
  "safe_nat (Fin a) = (is_integer (Fin a) \<and> 0 \<le> a \<and> a \<le> 9007199254740991)"
| "safe_nat _ = False"

text \<open>\<open>Number.isInteger(x) && x >= lo && x <= hi\<close>\<close>

fun int_between :: "rat \<Rightarrow> rat \<Rightarrow> jsnum \<Rightarrow> bool" where
  "int_between lo hi (Fin a) = (is_integer (Fin a) \<and> lo \<le> a \<and> a \<le> hi)"
| "int_between lo hi _ = False"

section \<open>The platform\<close>

text \<open>
  What the validators take from the platform rather than from the repository: the WHATWG
  \<open>URL\<close> parser (\<open>None\<close> where \<open>new URL\<close> throws), the string conversion of a value that is not a
  string, and whether \<open>Date.parse\<close> gives a finite time.
\<close>

record url =
  u_protocol :: string
  u_username :: string
  u_password :: string
  u_hostname :: string
  u_port :: "nat option"
  u_pathname :: string
  u_search :: string
  u_hash :: string
  u_href :: string

record js_env =
  parse_url :: "string \<Rightarrow> url option"
  to_text :: "jsval \<Rightarrow> string"
  date_ok :: "string \<Rightarrow> bool"

text \<open>\<open>String(x)\<close>: a string is itself.\<close>

fun js_string :: "js_env \<Rightarrow> jsval \<Rightarrow> string" where
  "js_string E (JStr s) = s"
| "js_string E v = to_text E v"

end
