(* ===== verification/Ssh_Args.thy ===== *)
theory Ssh_Args
  imports Canvas_Types Js_Text "HOL-Library.Word" "HOL-Library.Multiset"
begin

text \<open>
  The ssh argument guard (src/shared/ssh.ts): the tokenizer of the advanced arguments, and the
  filter that removes the options that make ssh run something.
\<close>

section \<open>Tokenizer\<close>

record tokenizer =
  tk_tokens :: "string list"
  tk_cur :: string
  tk_quote :: "char option"
  tk_has :: bool

definition tok_step :: "tokenizer \<Rightarrow> char \<Rightarrow> tokenizer" where
  "tok_step t ch =
     (case tk_quote t of
        Some q \<Rightarrow>
          if ch = q then t\<lparr>tk_quote := None\<rparr> else t\<lparr>tk_cur := tk_cur t @ [ch]\<rparr>
      | None \<Rightarrow>
          if ch = CHR 0x22 \<or> ch = CHR 0x27 then t\<lparr>tk_quote := Some ch, tk_has := True\<rparr>
          else if is_space ch
          then t\<lparr>tk_tokens := tk_tokens t @ (if tk_has t then [tk_cur t] else []),
                 tk_cur := [], tk_has := False\<rparr>
          else t\<lparr>tk_cur := tk_cur t @ [ch], tk_has := True\<rparr>)"

definition tok_start :: tokenizer where
  "tok_start = \<lparr>tk_tokens = [], tk_cur = [], tk_quote = None, tk_has = False\<rparr>"

definition parseExtraArgs :: "string option \<Rightarrow> string list" where
  "parseExtraArgs s =
     (case s of
        None \<Rightarrow> []
      | Some s \<Rightarrow>
          if trim s = [] then []
          else let t = foldl tok_step tok_start s
               in tk_tokens t @ (if tk_has t then [tk_cur t] else []))"

section \<open>The filter\<close>

definition LOCAL_EXEC_SSH_OPTIONS :: "string list" where
  "LOCAL_EXEC_SSH_OPTIONS =
     [''proxycommand'', ''localcommand'', ''permitlocalcommand'', ''knownhostscommand'', ''match'',
      ''include'', ''pkcs11provider'', ''securitykeyprovider'', ''proxyusefdpass'',
      ''remotecommand'']"

definition optionKeyword :: "string \<Rightarrow> string" where
  "optionKeyword value =
     to_lower (trim (takeWhile (\<lambda>c. c \<noteq> CHR ''='' \<and> \<not> is_space c) value))"

definition exec_option :: "string \<Rightarrow> bool" where
  "exec_option value \<longleftrightarrow> optionKeyword value \<in> set LOCAL_EXEC_SSH_OPTIONS"

text \<open>
  The loop over the tokens; the result is the pair of kept and dropped tokens, each push a
  function on the result of the rest of the loop.
\<close>

definition push_arg :: "string \<Rightarrow> string list \<times> string list \<Rightarrow> string list \<times> string list" where
  "push_arg t r = (t # fst r, snd r)"

definition push_dropped ::
  "string list \<Rightarrow> string list \<times> string list \<Rightarrow> string list \<times> string list" where
  "push_dropped ts r = (fst r, ts @ snd r)"

lemma push_simps [simp]:
  "fst (push_arg t r) = t # fst r" "snd (push_arg t r) = snd r"
  "fst (push_dropped ts r) = fst r" "snd (push_dropped ts r) = ts @ snd r"
  by (simp_all add: push_arg_def push_dropped_def)

fun stripLocalExecArgs :: "string list \<Rightarrow> string list \<times> string list" where
  "stripLocalExecArgs [] = ([], [])"
| "stripLocalExecArgs (t # ts) =
     (if t = ''-F'' then
        (case ts of
           [] \<Rightarrow> ([], [t])
         | f # ts' \<Rightarrow> push_dropped [t, f] (stripLocalExecArgs ts'))
      else if starts_with ''-F'' t \<and> length t > 2 then
        push_dropped [t] (stripLocalExecArgs ts)
      else if t = ''-o'' then
        (case ts of
           [] \<Rightarrow> push_arg t (stripLocalExecArgs ts)
         | v # ts' \<Rightarrow>
             if exec_option v then push_dropped [t, v] (stripLocalExecArgs ts')
             else push_arg t (stripLocalExecArgs ts))
      else if starts_with ''-o'' t \<and> length t > 2 \<and> exec_option (drop 2 t) then
        push_dropped [t] (stripLocalExecArgs ts)
      else push_arg t (stripLocalExecArgs ts))"

declare stripLocalExecArgs.simps(2) [simp del]

definition sshExtraArgsEnableLocalExec :: "string option \<Rightarrow> bool" where
  "sshExtraArgsEnableLocalExec s \<longleftrightarrow> snd (stripLocalExecArgs (parseExtraArgs s)) \<noteq> []"

text \<open>The argument vector: extra arguments are spliced only when they are this machine's own.\<close>

definition buildSshArgs :: "ssh_conn \<Rightarrow> string list" where
  "buildSshArgs c =
     [''-p'', dec (case ssh_port c of None \<Rightarrow> 22 | Some p \<Rightarrow> p)]
     @ (case ssh_identityFile c of None \<Rightarrow> [] | Some f \<Rightarrow> if f = [] then [] else [''-i'', f])
     @ (if ssh_execTrusted c = Some True then parseExtraArgs (ssh_extraArgs c) else [])
     @ [ssh_user c @ ''@'' @ ssh_host c]"

section \<open>Quoting for the remote shell\<close>

definition posixQuote :: "string \<Rightarrow> string" where
  "posixQuote s =
     [CHR 0x27]
     @ concat (map (\<lambda>c. if c = CHR 0x27 then [CHR 0x27, CHR 0x5C, CHR 0x27, CHR 0x27] else [c]) s)
     @ [CHR 0x27]"

definition quoteRemotePath :: "string \<Rightarrow> string" where
  "quoteRemotePath p =
     (if p = ''~'' then ''~''
      else if starts_with ''~/'' p
      then if length p > 2 then ''~/'' @ posixQuote (drop 2 p) else ''~/''
      else posixQuote p)"

section \<open>Connection identities\<close>

definition fnv_step :: "32 word \<Rightarrow> char \<Rightarrow> 32 word" where
  "fnv_step h c = (xor h (of_nat (code_of c))) * 16777619"

definition sshAttachmentId :: "string \<Rightarrow> ssh_conn \<Rightarrow> string" where
  "sshAttachmentId projectId c =
     (let input = ssh_user c @ [CHR 0x00] @ ssh_host c @ [CHR 0x00]
                  @ dec (case ssh_port c of None \<Rightarrow> 22 | Some p \<Rightarrow> p);
          hash = foldl fnv_step 2166136261 input
      in ''attached-'' @ projectId @ ''-'' @ pad_zeros 8 (digits 16 (unat hash)))"

definition sshConnectionIdForProject :: "string \<Rightarrow> ssh_conn \<Rightarrow> ssh_conn option \<Rightarrow> string" where
  "sshConnectionIdForProject projectId c server =
     (if ssh_host c \<noteq> [] \<and> map_option ssh_host server = Some (ssh_host c) then projectId
      else sshAttachmentId projectId c)"

definition sshChipRepeatsProject :: "ssh_conn \<Rightarrow> bool \<Rightarrow> ssh_conn option \<Rightarrow> bool" where
  "sshChipRepeatsProject c sshRemoteTmux server =
     (case server of
        None \<Rightarrow> False
      | Some s \<Rightarrow>
          if ssh_host c = [] \<or> ssh_host s \<noteq> ssh_host c then False
          else sshRemoteTmux \<or> ssh_user c = ssh_user s)"

section \<open>What the filter leaves\<close>

text \<open>
  No exec-enabling option in the two spellings the filter knows: no alternate configuration
  file, no \<open>-oKeyword\<close> of the list, and no \<open>-o\<close> followed by an option of the list.
\<close>

fun exec_free :: "string list \<Rightarrow> bool" where
  "exec_free [] = True"
| "exec_free (t # ts) =
     (\<not> starts_with ''-F'' t
      \<and> \<not> (starts_with ''-o'' t \<and> length t > 2 \<and> exec_option (drop 2 t))
      \<and> \<not> (t = ''-o'' \<and> ts \<noteq> [] \<and> exec_option (hd ts))
      \<and> exec_free ts)"

lemma starts_with_dashF: "starts_with ''-F'' t \<Longrightarrow> t = ''-F'' \<or> length t > 2"
  by (cases "length t > 2") (auto simp: starts_with_def not_less)

lemma dashF_prefix [simp]: "starts_with ''-F'' ''-F''"
  by (simp add: starts_with_def)

lemma strip_nothing_dropped:
  "(snd (stripLocalExecArgs ts) = []) = exec_free ts"
proof (induction ts rule: length_induct)
  case (1 ts)
  show ?case
  proof (cases ts)
    case Nil
    then show ?thesis by simp
  next
    case (Cons t us)
    with 1 have IH: "(snd (stripLocalExecArgs us) = []) = exec_free us" by simp
    show ?thesis
    proof (cases "starts_with ''-F'' t")
      case True
      with starts_with_dashF [OF True] Cons show ?thesis
        by (cases "t = ''-F''") (simp_all add: stripLocalExecArgs.simps(2) split: list.split)
    next
      case False
      then have "t \<noteq> ''-F''" by auto
      with False Cons IH show ?thesis
        by (cases us) (simp_all add: stripLocalExecArgs.simps(2))
    qed
  qed
qed

lemma strip_all_kept:
  "snd (stripLocalExecArgs ts) = [] \<Longrightarrow> fst (stripLocalExecArgs ts) = ts"
proof (induction ts)
  case (Cons t ts)
  then show ?case
    by (cases ts; cases "starts_with ''-F'' t"; cases "t = ''-o''"; cases "t = ''-F''")
      (simp_all add: stripLocalExecArgs.simps(2) split: if_splits)
qed simp

lemma strip_partition:
  "mset (fst (stripLocalExecArgs ts)) + mset (snd (stripLocalExecArgs ts)) = mset ts"
proof (induction ts rule: length_induct)
  case (1 ts)
  show ?case
  proof (cases ts)
    case Nil
    then show ?thesis by simp
  next
    case (Cons t us)
    with 1 have "mset (fst (stripLocalExecArgs us)) + mset (snd (stripLocalExecArgs us)) = mset us"
      by simp
    moreover have "us = v # vs \<Longrightarrow>
        mset (fst (stripLocalExecArgs vs)) + mset (snd (stripLocalExecArgs vs)) = mset vs" for v vs
      using 1 Cons by simp
    ultimately show ?thesis using Cons
      by (cases us) (simp_all add: stripLocalExecArgs.simps(2))
  qed
qed

section \<open>The tokenizer reads quoted tokens back\<close>

definition dquote :: "string \<Rightarrow> string" where
  "dquote s = [CHR 0x22] @ s @ [CHR 0x22]"

fun join_spaced :: "string list \<Rightarrow> string" where
  "join_spaced [] = []"
| "join_spaced [t] = dquote t"
| "join_spaced (t # ts) = dquote t @ '' '' @ join_spaced ts"

lemma tok_quoted_body:
  "CHR 0x22 \<notin> set s \<Longrightarrow> tk_quote t = Some (CHR 0x22) \<Longrightarrow>
   foldl tok_step t s = t\<lparr>tk_cur := tk_cur t @ s\<rparr>"
proof (induction s arbitrary: t)
  case (Cons c s)
  then have "c \<noteq> CHR 0x22" by auto
  with Cons show ?case by (simp add: tok_step_def)
qed simp

lemma tok_dquote:
  "CHR 0x22 \<notin> set s \<Longrightarrow>
   foldl tok_step \<lparr>tk_tokens = ts, tk_cur = [], tk_quote = None, tk_has = False\<rparr> (dquote s)
   = \<lparr>tk_tokens = ts, tk_cur = s, tk_quote = None, tk_has = True\<rparr>"
  by (simp add: dquote_def tok_quoted_body tok_step_def)

lemma tok_join:
  "(\<And>t. t \<in> set ts \<Longrightarrow> CHR 0x22 \<notin> set t) \<Longrightarrow> ts \<noteq> [] \<Longrightarrow>
   foldl tok_step \<lparr>tk_tokens = us, tk_cur = [], tk_quote = None, tk_has = False\<rparr> (join_spaced ts)
   = \<lparr>tk_tokens = us @ butlast ts, tk_cur = last ts, tk_quote = None, tk_has = True\<rparr>"
proof (induction ts arbitrary: us rule: join_spaced.induct)
  case (3 t v vs)
  have sp: "tok_step \<lparr>tk_tokens = us, tk_cur = t, tk_quote = None, tk_has = True\<rparr> (CHR '' '')
    = \<lparr>tk_tokens = us @ [t], tk_cur = [], tk_quote = None, tk_has = False\<rparr>"
    by (simp add: tok_step_def is_space_def code_of_def)
  from 3 sp show ?case by (simp add: tok_dquote)
qed (simp_all add: tok_dquote)

lemma trim_join: "ts \<noteq> [] \<Longrightarrow> trim (join_spaced ts) \<noteq> []"
proof
  assume ts: "ts \<noteq> []" and t: "trim (join_spaced ts) = []"
  obtain xs where xs: "join_spaced ts = CHR 0x22 # xs"
    using ts by (cases ts rule: join_spaced.cases) (auto simp: dquote_def)
  have q: "\<not> is_space (CHR 0x22)" by (simp add: is_space_def code_of_def)
  then have "ltrim (join_spaced ts) = CHR 0x22 # xs" by (simp add: xs)
  with t have "ltrim (rev (CHR 0x22 # xs)) = []" by (simp add: trim_def)
  moreover have "ltrim w = [] \<Longrightarrow> list_all is_space w" for w
    by (induction w) (auto split: if_splits)
  ultimately show False using q by (fastforce simp: list_all_iff)
qed

text \<open>
  C19. Arguments that the user quotes reach ssh as they were written: the tokenizer splits a line
  of double-quoted arguments into exactly those arguments, empty ones and ones with blanks, single
  quotes, equals signs and backslashes included.
\<close>

theorem parse_quoted_args:
  assumes "\<And>t. t \<in> set ts \<Longrightarrow> CHR 0x22 \<notin> set t"
  shows "parseExtraArgs (Some (join_spaced ts)) = ts"
proof (cases "ts = []")
  case True
  then show ?thesis by (simp add: parseExtraArgs_def trim_def)
next
  case False
  with assms show ?thesis
    by (simp add: parseExtraArgs_def trim_join tok_join tok_start_def)
qed

theorem parse_quoted_args_witness:
  "parseExtraArgs (Some (join_spaced [''-o'', ''ProxyJump=a b'', '''']))
   = [''-o'', ''ProxyJump=a b'', '''']"
  by (rule parse_quoted_args) auto

section \<open>The guard\<close>

text \<open>
  C17. The decision that keeps an argument string of unknown provenance out of the machine-local
  store is exact for the spellings it knows: it says no precisely when no token is an alternate
  configuration file or an exec-enabling \<open>-o\<close>, and then the filter passes every token through
  unchanged and in order; and an argument vector of an untrusted connection carries none of the
  extra arguments.
\<close>

theorem ssh_guard_exact:
  "sshExtraArgsEnableLocalExec s = (\<not> exec_free (parseExtraArgs s))
   \<and> (exec_free ts \<longrightarrow> stripLocalExecArgs ts = (ts, []))
   \<and> (ssh_execTrusted c \<noteq> Some True \<longrightarrow> buildSshArgs c = buildSshArgs (c\<lparr>ssh_extraArgs := None\<rparr>))"
proof (intro conjI impI)
  show "sshExtraArgsEnableLocalExec s = (\<not> exec_free (parseExtraArgs s))"
    by (simp add: sshExtraArgsEnableLocalExec_def strip_nothing_dropped)
next
  assume "exec_free ts"
  then have "snd (stripLocalExecArgs ts) = []" by (simp add: strip_nothing_dropped)
  with strip_all_kept show "stripLocalExecArgs ts = (ts, [])" by (simp add: prod_eq_iff)
next
  assume "ssh_execTrusted c \<noteq> Some True"
  then show "buildSshArgs c = buildSshArgs (c\<lparr>ssh_extraArgs := None\<rparr>)"
    by (simp add: buildSshArgs_def)
qed

definition example_conn :: "bool option \<Rightarrow> ssh_conn" where
  "example_conn trusted =
     \<lparr>ssh_host = ''h'', ssh_user = ''u'', ssh_port = None, ssh_identityFile = None,
      ssh_extraArgs = Some ''-A'', ssh_execTrusted = trusted, ssh_rest = []\<rparr>"

theorem ssh_guard_exact_witness:
  "stripLocalExecArgs [''-J'', ''jump''] = ([''-J'', ''jump''], [])
   \<and> buildSshArgs (example_conn None) = [''-p'', ''22'', ''u@h'']"
proof
  have "exec_free [''-J'', ''jump'']" by (simp add: starts_with_def)
  then show "stripLocalExecArgs [''-J'', ''jump''] = ([''-J'', ''jump''], [])"
    using ssh_guard_exact [of None "[''-J'', ''jump'']"] by blast
  have "buildSshArgs (example_conn None) = buildSshArgs ((example_conn None)\<lparr>ssh_extraArgs := None\<rparr>)"
    using ssh_guard_exact [of None "[]" "example_conn None"] by (simp add: example_conn_def)
  also have "\<dots> = [''-p'', ''22'', ''u@h'']"
    by code_simp
  finally show "buildSshArgs (example_conn None) = [''-p'', ''22'', ''u@h'']" .
qed


section \<open>Quoting\<close>

text \<open>
  A reader of one POSIX shell word: what the text between blanks stands for, when it is one word
  with no expansion, substitution or operator in it.
\<close>

definition sh_plain :: "char \<Rightarrow> bool" where
  "sh_plain c \<longleftrightarrow> alnum_or ''~/._-'' c"

fun sh_word :: "bool \<Rightarrow> string \<Rightarrow> string option" where
  "sh_word True [] = None"
| "sh_word False [] = Some []"
| "sh_word True (c # cs) =
     (if c = CHR 0x27 then sh_word False cs else map_option (Cons c) (sh_word True cs))"
| "sh_word False (c # cs) =
     (if c = CHR 0x27 then sh_word True cs
      else if c = CHR 0x5C then
        (case cs of [] \<Rightarrow> None | d # ds \<Rightarrow> map_option (Cons d) (sh_word False ds))
      else if sh_plain c then map_option (Cons c) (sh_word False cs) else None)"

lemma sh_word_body:
  "sh_word True (concat (map (\<lambda>c. if c = CHR 0x27 then [CHR 0x27, CHR 0x5C, CHR 0x27, CHR 0x27]
     else [c]) s) @ [CHR 0x27]) = Some s"
  by (induction s) auto

lemma sh_word_posixQuote: "sh_word False (posixQuote s) = Some s"
  using sh_word_body [of s] by (simp add: posixQuote_def)

lemma sh_plain_tilde: "sh_plain (CHR ''~'')" "sh_plain (CHR ''/'')"
  by (simp_all add: sh_plain_def char_class_defs)

text \<open>
  C18. A quoted string is one shell word whose value is the string, whatever characters it holds;
  the same for a quoted remote path, where only a leading tilde stays outside the quotes.
\<close>

theorem quoting_is_one_word:
  "sh_word False (posixQuote s) = Some s \<and> sh_word False (quoteRemotePath s) = Some s"
proof
  show "sh_word False (posixQuote s) = Some s" by (rule sh_word_posixQuote)
  show "sh_word False (quoteRemotePath s) = Some s"
  proof (cases "starts_with ''~/'' s")
    case True
    then obtain r where s: "s = ''~/'' @ r"
      unfolding starts_with_def by (metis append_take_drop_id)
    then show ?thesis
      by (cases r) (simp_all add: quoteRemotePath_def starts_with_def sh_word_posixQuote
          sh_plain_tilde)
  next
    case False
    then show ?thesis
      by (auto simp: quoteRemotePath_def sh_word_posixQuote sh_plain_tilde)
  qed
qed

section \<open>Connection identities\<close>

lemma length_hash: "length (digits 16 (unat (h :: 32 word))) \<le> 8"
proof (rule length_digits)
  show "unat h < 16 ^ 8" using unsigned_less [of h] by simp
qed simp_all



end
