(* ===== verification/Local_Bindings.thy ===== *)
theory Local_Bindings
  imports Js_Text
begin

text \<open>
  The validators of the values that a node keeps on one machine only (src/shared/node-exec.ts and
  the modules it calls: hosted-service-tunnel.ts, open-webui-hosting.ts, aws-identity.ts,
  nextcloud-managed.ts, virtual-machine.ts, and the agent lists of agents/config.ts).

  Each takes a value of unknown type and returns the record it is prepared to keep, or nothing.
  The record that is returned is itself a value, with its properties in the order the source
  writes them. What the boundary relies on is that each validator is a projection: what it
  returned once it returns again unchanged.
\<close>

section \<open>Paths\<close>

text \<open>\<open>safePathString\<close> and \<open>safeVirtualMachinePath\<close> have the same body.\<close>

definition path_ok :: "string \<Rightarrow> bool" where
  "path_ok s \<longleftrightarrow> s \<noteq> [] \<and> length s \<le> 4096 \<and> list_all (\<lambda>c. \<not> is_control c) s"

definition safePathString :: "jsval \<Rightarrow> bool" where
  "safePathString = str_that path_ok"

definition safeVirtualMachinePath :: "jsval \<Rightarrow> bool" where
  "safeVirtualMachinePath = str_that path_ok"

definition SAFE_MEDIA_ASSET_ID :: "string \<Rightarrow> bool" where
  "SAFE_MEDIA_ASSET_ID = run_of is_lower_hex 64 64"

definition MAX_MEDIA_SOURCE_PATHS :: nat where
  "MAX_MEDIA_SOURCE_PATHS = 10000"

definition some_if_nonempty :: "(string \<times> jsval) list \<Rightarrow> jsval option" where
  "some_if_nonempty ps = (if ps = [] then None else Some (JObj ps))"

definition keep_media :: "(string \<times> jsval) list \<Rightarrow> (string \<times> jsval) list" where
  "keep_media ps =
     foldl (\<lambda>out (k, v). if SAFE_MEDIA_ASSET_ID k \<and> safePathString v then AList.update k v out
                          else out) [] (take MAX_MEDIA_SOURCE_PATHS ps)"

fun safeMediaSourcePaths :: "jsval \<Rightarrow> jsval option" where
  "safeMediaSourcePaths (JObj ps) = some_if_nonempty (keep_media ps)"
| "safeMediaSourcePaths _ = None"

definition safeNsisLocalPaths :: "jsval \<Rightarrow> jsval option" where
  "safeNsisLocalPaths value =
     (if \<not> is_object value then None
      else
        let raw = js_prop value;
            sourcePaths = take 512 (filter safePathString (arr_items (raw ''sourcePaths'')));
            lic = safePathString (raw ''licensePath'');
            ico = safePathString (raw ''iconPath'')
        in if sourcePaths = [] \<and> \<not> lic \<and> \<not> ico then None
           else Some (JObj ((''sourcePaths'', JArr sourcePaths)
                  # prop_if lic ''licensePath'' (raw ''licensePath'')
                  @ prop_if ico ''iconPath'' (raw ''iconPath''))))"

definition normalizeVirtualMachineLocalPaths :: "jsval \<Rightarrow> jsval" where
  "normalizeVirtualMachineLocalPaths value =
     (let raw = js_prop value; fmt = raw ''diskFormat'' in
      JObj (prop_if (safeVirtualMachinePath (raw ''isoPath'')) ''isoPath'' (raw ''isoPath'')
            @ prop_if (safeVirtualMachinePath (raw ''diskPath'')) ''diskPath'' (raw ''diskPath'')
            @ prop_if (fmt \<in> {JStr ''qcow2'', JStr ''raw'', JStr ''unknown''}) ''diskFormat'' fmt))"

section \<open>Delayed launches\<close>

definition SAFE_OPAQUE_ID :: "string \<Rightarrow> bool" where
  "SAFE_OPAQUE_ID = ident is_alnum (alnum_or ''._-'') 255"

definition SAFE_CUSTOM_AGENT_ID :: "string \<Rightarrow> bool" where
  "SAFE_CUSTOM_AGENT_ID s \<longleftrightarrow> starts_with ''custom:'' s \<and> SAFE_OPAQUE_ID (drop 7 s)"

definition SAFE_MODEL :: "string \<Rightarrow> bool" where
  "SAFE_MODEL = run_of (\<lambda>c. \<not> is_control c) 1 500"

text \<open>The version 4 UUID expression, as a template: \<open>x\<close> a hex digit, \<open>y\<close> one of 8, 9, a, b.\<close>

definition uuid_char :: "char \<Rightarrow> char \<Rightarrow> bool" where
  "uuid_char p c =
     (if p = CHR ''x'' then is_hex c
      else if p = CHR ''y'' then oneof ''89abAB'' c
      else c = p)"

definition UUID_V4 :: "string \<Rightarrow> bool" where
  "UUID_V4 s = list_all2 uuid_char ''xxxxxxxx-xxxx-4xxx-yxxx-xxxxxxxxxxxx'' s"

definition BUILTIN_AGENT_IDS :: "string list" where
  "BUILTIN_AGENT_IDS =
     [''claude'', ''codex'', ''gemini'', ''opencode'', ''grok'', ''copilot'', ''devin'']"

definition isSafeAgentId :: "jsval \<Rightarrow> bool" where
  "isSafeAgentId = str_that (\<lambda>s. s \<in> set BUILTIN_AGENT_IDS \<or> SAFE_CUSTOM_AGENT_ID s)"

definition isPermissionMode :: "jsval \<Rightarrow> bool" where
  "isPermissionMode = str_that (\<lambda>s. s \<in> set [''manual'', ''auto'', ''acceptEdits'', ''plan'',
     ''bypassPermissions''])"

definition MAX_PENDING_DEPS :: nat where
  "MAX_PENDING_DEPS = 256"

definition MAX_INTENT_TEXT :: nat where
  "MAX_INTENT_TEXT = 1048576"

text \<open>A property that is absent or passes a test.\<close>

definition absent_or :: "(jsval \<Rightarrow> bool) \<Rightarrow> jsval \<Rightarrow> bool" where
  "absent_or P v \<longleftrightarrow> v = JUndef \<or> P v"

definition prop_there :: "string \<Rightarrow> jsval \<Rightarrow> (string \<times> jsval) list" where
  "prop_there k v = prop_if (v \<noteq> JUndef) k v"

text \<open>The allowlisted launch intent, rebuilt from the raw one.\<close>

definition cloneLaunch :: "jsval \<Rightarrow> jsval option" where
  "cloneLaunch v =
     (let raw = js_prop v;
          model_ok = absent_or (str_that SAFE_MODEL) (raw ''model'') in
      if raw ''kind'' = JStr ''shell-command'' then
        (if str_that (\<lambda>s. s \<noteq> [] \<and> length s \<le> MAX_INTENT_TEXT) (raw ''command'')
         then Some (JObj [(''kind'', JStr ''shell-command''), (''command'', raw ''command'')])
         else None)
      else if raw ''kind'' \<noteq> JStr ''agent''
          \<or> (raw ''action'' \<noteq> JStr ''start'' \<and> raw ''action'' \<noteq> JStr ''resume'')
          \<or> \<not> isSafeAgentId (raw ''agentId'')
          \<or> \<not> absent_or isPermissionMode (raw ''permissionMode'')
      then None
      else if raw ''action'' = JStr ''start'' then
        (if raw ''sessionId'' \<noteq> JUndef
            \<or> \<not> absent_or (str_that (\<lambda>s. length s \<le> MAX_INTENT_TEXT)) (raw ''prompt'')
            \<or> \<not> model_ok
            \<or> \<not> absent_or (str_that SAFE_OPAQUE_ID) (raw ''newSessionId'')
         then None
         else Some (JObj ([(''kind'', JStr ''agent''), (''action'', JStr ''start''),
                           (''agentId'', raw ''agentId'')]
                @ prop_there ''prompt'' (raw ''prompt'')
                @ prop_there ''permissionMode'' (raw ''permissionMode'')
                @ prop_there ''model'' (raw ''model'')
                @ prop_there ''newSessionId'' (raw ''newSessionId''))))
      else
        (if raw ''prompt'' \<noteq> JUndef \<or> \<not> model_ok \<or> raw ''newSessionId'' \<noteq> JUndef
            \<or> \<not> str_that SAFE_OPAQUE_ID (raw ''sessionId'')
         then None
         else Some (JObj ([(''kind'', JStr ''agent''), (''action'', JStr ''resume''),
                           (''agentId'', raw ''agentId''), (''sessionId'', raw ''sessionId'')]
                @ prop_there ''permissionMode'' (raw ''permissionMode'')
                @ prop_there ''model'' (raw ''model'')))))"

definition cloneLaunchIntentRecord :: "jsval \<Rightarrow> (string \<times> jsval) list option" where
  "cloneLaunchIntentRecord value =
     (let raw = js_prop value in
      if \<not> is_record value
         \<or> \<not> arr_that (\<lambda>ds. length ds \<le> MAX_PENDING_DEPS \<and> list_all (str_that SAFE_OPAQUE_ID) ds)
                (raw ''after'')
         \<or> \<not> str_that UUID_V4 (raw ''launchId'')
         \<or> \<not> is_record (raw ''launch'')
      then None
      else map_option (\<lambda>l. [(''after'', raw ''after''), (''launchId'', raw ''launchId''), (''launch'', l)])
             (cloneLaunch (raw ''launch'')))"

definition clonePendingLaunch :: "jsval \<Rightarrow> jsval option" where
  "clonePendingLaunch value =
     (case cloneLaunchIntentRecord value of
        None \<Rightarrow> None
      | Some ps \<Rightarrow>
          let gate = js_prop value ''awaitSetupGroup'' in
          if gate = JUndef then Some (JObj ps)
          else if \<not> str_that SAFE_OPAQUE_ID gate then None
          else Some (JObj (ps @ [(''awaitSetupGroup'', gate)])))"

section \<open>Session programs\<close>

definition SAFE_PROGRAM :: "string \<Rightarrow> bool" where
  "SAFE_PROGRAM s \<longleftrightarrow> s \<noteq> [] \<and> list_all (alnum_or ''_./+@:=-'') s"

definition safeSessionProgram :: "string option \<Rightarrow> string option" where
  "safeSessionProgram shell =
     (case shell of
        None \<Rightarrow> None
      | Some sh \<Rightarrow>
          if sh = [] then None
          else let s = trim sh in
            if s = [] \<or> starts_with ''-'' s then None
            else if \<not> SAFE_PROGRAM s then None
            else Some s)"

section \<open>Cloud bindings\<close>

definition no_control :: "string \<Rightarrow> bool" where
  "no_control s \<longleftrightarrow> list_all (\<lambda>c. \<not> is_control c) s"

text \<open>\<open>^[a-z]{2}(?:-gov)?-[a-z]+-\d$\<close>\<close>

definition SAFE_REGION :: "string \<Rightarrow> bool" where
  "SAFE_REGION s \<longleftrightarrow>
     (case split_on (CHR ''-'') s of
        [a, b, c] \<Rightarrow> run_of is_lower 2 2 a \<and> run_of is_lower 1 (length b) b \<and> run_of is_digit 1 1 c
      | [a, g, b, c] \<Rightarrow> run_of is_lower 2 2 a \<and> g = ''gov'' \<and> run_of is_lower 1 (length b) b
                          \<and> run_of is_digit 1 1 c
      | _ \<Rightarrow> False)"

definition AWS_SAFE_NAME :: "string \<Rightarrow> bool" where
  "AWS_SAFE_NAME = ident is_alnum (alnum_or ''_.@+-'') 127"

definition AWS_SAFE_SERVICE :: "string \<Rightarrow> bool" where
  "AWS_SAFE_SERVICE = ident is_lower (\<lambda>c. is_lower c \<or> is_digit c \<or> c = CHR ''-'') 63"

definition safeEndpoint :: "js_env \<Rightarrow> jsval \<Rightarrow> string option" where
  "safeEndpoint E value =
     (if \<not> str_that (\<lambda>s. length s \<le> 2048 \<and> no_control s) value then None
      else case parse_url E (js_str value) of
        None \<Rightarrow> None
      | Some u \<Rightarrow>
          let loopback = u_protocol u = ''http:''
                \<and> u_hostname u \<in> {''127.0.0.1'', ''localhost'', ''::1''}
          in if u_protocol u \<noteq> ''https:'' \<and> \<not> loopback then None
             else if u_username u \<noteq> [] \<or> u_password u \<noteq> [] \<or> u_hash u \<noteq> [] then None
             else Some (u_href u))"

text \<open>The loop over the endpoints, with the set of services seen so far.\<close>

fun aws_endpoints :: "js_env \<Rightarrow> string list \<Rightarrow> jsval list \<Rightarrow> jsval list option" where
  "aws_endpoints E services [] = Some []"
| "aws_endpoints E services (candidate # cs) =
     (let service = js_prop candidate ''service'' in
      if \<not> is_record candidate \<or> \<not> str_that AWS_SAFE_SERVICE service then None
      else case safeEndpoint E (js_prop candidate ''url'') of
        None \<Rightarrow> None
      | Some url \<Rightarrow>
          if url = [] \<or> js_str service \<in> set services then None
          else map_option (Cons (JObj [(''service'', service), (''url'', JStr url)]))
                 (aws_endpoints E (js_str service # services) cs))"

definition null_or :: "(jsval \<Rightarrow> bool) \<Rightarrow> jsval \<Rightarrow> bool" where
  "null_or P v \<longleftrightarrow> v = JNull \<or> P v"

definition normalizeAwsIdentityBinding :: "js_env \<Rightarrow> jsval \<Rightarrow> jsval option" where
  "normalizeAwsIdentityBinding E value =
     (let input = js_prop value in
      if \<not> is_record value \<or> input ''schemaVersion'' \<noteq> JNum (Fin 1)
         \<or> \<not> str_that AWS_SAFE_NAME (input ''profileName'')
         \<or> \<not> null_or (str_that SAFE_REGION) (input ''region'')
         \<or> \<not> arr_that (\<lambda>es. length es \<le> 32) (input ''endpoints'')
      then None
      else case aws_endpoints E [] (arr_items (input ''endpoints'')) of
        None \<Rightarrow> None
      | Some endpoints \<Rightarrow>
          if \<not> null_or (num_that safe_nat) (input ''verifiedAt'') then None
          else Some (JObj [(''schemaVersion'', JNum (Fin 1)), (''profileName'', input ''profileName''),
                           (''region'', input ''region''), (''endpoints'', JArr endpoints),
                           (''verifiedAt'', input ''verifiedAt'')]))"

definition NC_CONTEXT :: "string \<Rightarrow> bool" where
  "NC_CONTEXT = ident is_alnum (alnum_or ''._-'') 127"

definition NC_PROJECT :: "string \<Rightarrow> bool" where
  "NC_PROJECT = ident (\<lambda>c. is_lower c \<or> is_digit c) (\<lambda>c. is_lower c \<or> is_digit c \<or> oneof ''._-'' c) 62"

definition SAFE_SECRET_KEY :: "string \<Rightarrow> bool" where
  "SAFE_SECRET_KEY = ident is_alnum (alnum_or ''._:-'') 255"

definition NEXTCLOUD_MANAGED_SECRET_COUNT :: nat where
  "NEXTCLOUD_MANAGED_SECRET_COUNT = 3"

text \<open>\<open>safePath\<close> of nextcloud-managed.ts: an absolute folder with no \<open>..\<close> part.\<close>

definition absolute_folder :: "string \<Rightarrow> bool" where
  "absolute_folder s \<longleftrightarrow>
     s \<noteq> [] \<and> length s \<le> 2048 \<and> no_control s \<and>
     (let n = map (\<lambda>c. if c = CHR 0x5C then CHR ''/'' else c) s in
      (starts_with ''/'' n
       \<or> (length n \<ge> 3 \<and> (is_upper (n ! 0) \<or> is_lower (n ! 0)) \<and> n ! 1 = CHR '':'' \<and> n ! 2 = CHR ''/'')
       \<or> starts_with ''//'' n)
      \<and> ''..'' \<notin> set (split_on (CHR ''/'') n))"

text \<open>\<open>None\<close> where the source throws: every caller turns the exception into \<open>undefined\<close>.\<close>

definition validateNextcloudManagedBinding :: "jsval \<Rightarrow> jsval option" where
  "validateNextcloudManagedBinding value =
     (let raw = js_prop value in
      if \<not> is_record value then None
      else if \<not> set (js_keys value) \<subseteq> set [''bindingVersion'', ''context'', ''projectName'',
           ''dataDirectory'', ''backupDirectory'', ''secretKeys'', ''loopbackPort'', ''lastVerifiedAt'']
      then None
      else if raw ''bindingVersion'' \<noteq> JNum (Fin 1) \<or> \<not> str_that NC_CONTEXT (raw ''context'') then None
      else if \<not> str_that NC_PROJECT (raw ''projectName'') then None
      else if \<not> str_that absolute_folder (raw ''dataDirectory'') then None
      else if \<not> str_that absolute_folder (raw ''backupDirectory'') then None
      else if \<not> arr_that (\<lambda>ks. length ks = NEXTCLOUD_MANAGED_SECRET_COUNT
                 \<and> list_all (str_that SAFE_SECRET_KEY) ks) (raw ''secretKeys'') then None
      else if \<not> num_that (int_between 1024 65535) (raw ''loopbackPort'') then None
      else if \<not> absent_or (num_that safe_nat) (raw ''lastVerifiedAt'') then None
      else Some (JObj ([(''bindingVersion'', JNum (Fin 1)), (''context'', raw ''context''),
              (''projectName'', raw ''projectName''), (''dataDirectory'', raw ''dataDirectory''),
              (''backupDirectory'', raw ''backupDirectory''), (''secretKeys'', raw ''secretKeys''),
              (''loopbackPort'', raw ''loopbackPort'')]
            @ prop_there ''lastVerifiedAt'' (raw ''lastVerifiedAt''))))"

section \<open>Hosted services\<close>

text \<open>\<open>^[a-z0-9](?:[a-z0-9.-]{0,251}[a-z0-9])?$\<close> without case.\<close>

definition HOSTNAME :: "string \<Rightarrow> bool" where
  "HOSTNAME s \<longleftrightarrow>
     s \<noteq> [] \<and> length s \<le> 253 \<and> is_alnum (hd s) \<and> is_alnum (last s) \<and> list_all (alnum_or ''.-'') s"

definition TUNNEL_ID :: "string \<Rightarrow> bool" where
  "TUNNEL_ID = ident is_alnum (alnum_or ''._:-'') 255"

definition TUNNEL_PATH :: "string \<Rightarrow> bool" where
  "TUNNEL_PATH s \<longleftrightarrow>
     s \<noteq> [] \<and> hd s = CHR ''/'' \<and> run_of (alnum_or ([CHR 0x27] @ ''._~!$&()*+,;=:@%/-'')) 0 1023 (tl s)"

definition validateHostedServiceHostname :: "jsval \<Rightarrow> bool" where
  "validateHostedServiceHostname = str_that (\<lambda>s. HOSTNAME (trim s) \<and> length s \<le> 253)"

definition boundedId :: "jsval \<Rightarrow> bool" where
  "boundedId = str_that TUNNEL_ID"

definition parseHostedServiceOrigin :: "js_env \<Rightarrow> jsval \<Rightarrow> jsval option" where
  "parseHostedServiceOrigin E value =
     (if \<not> str_that (\<lambda>s. s \<noteq> [] \<and> length s \<le> 2048) value then None
      else case parse_url E (js_str value) of
        None \<Rightarrow> None
      | Some u \<Rightarrow>
          if u_protocol u \<noteq> ''http:'' \<and> u_protocol u \<noteq> ''https:'' then None
          else if u_username u \<noteq> [] \<or> u_password u \<noteq> [] \<or> u_hash u \<noteq> [] \<or> u_search u \<noteq> [] then None
          else if \<not> HOSTNAME (u_hostname u) then None
          else if (case u_port u of None \<Rightarrow> False | Some p \<Rightarrow> p < 1 \<or> p > 65535) then None
          else
            let path = (if u_pathname u = [] then ''/'' else u_pathname u) in
            if \<not> TUNNEL_PATH path then None
            else Some (JObj ([(''scheme'', JStr (if u_protocol u = ''https:'' then ''https'' else ''http'')),
                              (''hostname'', JStr (to_lower (u_hostname u)))]
                   @ (case u_port u of None \<Rightarrow> [] | Some p \<Rightarrow> [(''port'', JNum (jsnat p))])
                   @ [(''path'', JStr path)])))"

definition formatHostedServiceOrigin :: "js_env \<Rightarrow> jsval \<Rightarrow> string" where
  "formatHostedServiceOrigin E origin =
     (let ob = js_prop origin;
          port = (if ob ''port'' = JUndef then [] else '':'' @ js_string E (ob ''port''));
          path = js_str (ob ''path'')
      in js_str (ob ''scheme'') @ ''://'' @ js_str (ob ''hostname'') @ port
         @ (if path = [] then ''/'' else path))"

definition TUNNEL_STATES :: "string list" where
  "TUNNEL_STATES = [''unbound'', ''discovering-origin'', ''checking-local-health'', ''ready'',
     ''handing-off'', ''connected'', ''failed'', ''rolled-back'']"

definition tunnel_origin :: "js_env \<Rightarrow> jsval \<Rightarrow> jsval option" where
  "tunnel_origin E v =
     (case v of
        JStr s \<Rightarrow> parseHostedServiceOrigin E v
      | JObj ps \<Rightarrow>
          let c = js_prop v in
          if c ''scheme'' \<in> {JStr ''http'', JStr ''https''} \<and> str_that (\<lambda>_. True) (c ''hostname'')
             \<and> str_that (\<lambda>_. True) (c ''path'') \<and> absent_or (num_that (\<lambda>_. True)) (c ''port'')
          then parseHostedServiceOrigin E (JStr (formatHostedServiceOrigin E v))
          else None
      | _ \<Rightarrow> None)"

definition validateHostedServiceTunnelBinding :: "js_env \<Rightarrow> jsval \<Rightarrow> jsval option" where
  "validateHostedServiceTunnelBinding E value =
     (if \<not> is_record value then None
      else
        let raw = js_prop value in
        case tunnel_origin E (raw ''origin'') of
          None \<Rightarrow> None
        | Some origin \<Rightarrow>
            if \<not> boundedId (raw ''accountId'') \<or> \<not> boundedId (raw ''zoneId'')
               \<or> \<not> validateHostedServiceHostname (raw ''hostname'') then None
            else if raw ''access'' \<noteq> JStr ''required'' \<or> \<not> str_that (date_ok E) (raw ''updatedAt'') then None
            else if js_string E (raw ''state'') \<notin> set TUNNEL_STATES then None
            else Some (JObj [(''accountId'', raw ''accountId''), (''zoneId'', raw ''zoneId''),
                   (''hostname'', JStr (to_lower (js_str (raw ''hostname'')))),
                   (''access'', JStr ''required''), (''origin'', origin), (''state'', raw ''state''),
                   (''updatedAt'', raw ''updatedAt'')]))"

definition OPEN_WEBUI_IMAGE :: string where
  "OPEN_WEBUI_IMAGE = ''ghcr.io/open-webui/open-webui:v0.6.37''"

definition SAFE_DOCKER_NAME :: "string \<Rightarrow> bool" where
  "SAFE_DOCKER_NAME = ident is_alnum (alnum_or ''_.-'') 127"

definition isSafeOpenWebUiContext :: "jsval \<Rightarrow> bool" where
  "isSafeOpenWebUiContext = str_that (\<lambda>s. NC_CONTEXT (trim s))"

definition isSafeOpenWebUiCredentialKey :: "jsval \<Rightarrow> bool" where
  "isSafeOpenWebUiCredentialKey = str_that (\<lambda>s. SAFE_SECRET_KEY (trim s))"

definition safeOpenWebUiEndpoint :: "js_env \<Rightarrow> jsval \<Rightarrow> bool" where
  "safeOpenWebUiEndpoint E =
     str_that (\<lambda>s. s \<noteq> [] \<and> length s \<le> 2048 \<and>
       (case parse_url E s of
          None \<Rightarrow> False
        | Some u \<Rightarrow>
            u_protocol u \<in> {''http:'', ''https:''} \<and> u_username u = [] \<and> u_password u = []
            \<and> u_hostname u \<noteq> [] \<and> no_control s))"

text \<open>\<open>String(x ?? '')\<close>\<close>

definition text_or_empty :: "js_env \<Rightarrow> jsval \<Rightarrow> string" where
  "text_or_empty E v = (if v = JUndef \<or> v = JNull then [] else js_string E v)"

definition safeOpenWebUiLocalBinding :: "js_env \<Rightarrow> jsval \<Rightarrow> jsval option" where
  "safeOpenWebUiLocalBinding E value =
     (if \<not> is_record value then None
      else
        let raw = js_prop value;
            cn = text_or_empty E (raw ''containerName''); vn = text_or_empty E (raw ''volumeName'')
        in
        if \<not> isSafeOpenWebUiContext (raw ''context'') \<or> \<not> SAFE_DOCKER_NAME cn \<or> \<not> SAFE_DOCKER_NAME vn
        then None
        else if \<not> safeOpenWebUiEndpoint E (raw ''endpoint'') \<or> raw ''image'' \<noteq> JStr OPEN_WEBUI_IMAGE
           \<or> \<not> num_that is_finite (raw ''updatedAt'') then None
        else if \<not> absent_or (safeOpenWebUiEndpoint E) (raw ''providerEndpoint'') then None
        else if \<not> absent_or isSafeOpenWebUiCredentialKey (raw ''providerCredentialKey'') then None
        else if \<not> absent_or (str_that (\<lambda>s. length s \<le> 256)) (raw ''previousImage'') then None
        else Some (JObj ([(''context'', JStr (trim (js_str (raw ''context'')))),
               (''containerName'', JStr cn), (''volumeName'', JStr vn), (''endpoint'', raw ''endpoint'')]
             @ prop_if (js_truthy (raw ''providerEndpoint'')) ''providerEndpoint'' (raw ''providerEndpoint'')
             @ prop_if (js_truthy (raw ''providerCredentialKey'')) ''providerCredentialKey''
                 (raw ''providerCredentialKey'')
             @ [(''image'', JStr OPEN_WEBUI_IMAGE)]
             @ prop_if (js_truthy (raw ''previousImage'')) ''previousImage'' (raw ''previousImage'')
             @ prop_if (num_that is_finite (raw ''lastBackupAt'')) ''lastBackupAt'' (raw ''lastBackupAt'')
             @ [(''updatedAt'', raw ''updatedAt'')])))"

section \<open>Service connections\<close>

definition safeServiceEndpoint :: "js_env \<Rightarrow> jsval \<Rightarrow> bool" where
  "safeServiceEndpoint E =
     str_that (\<lambda>s. s \<noteq> [] \<and> length s \<le> 2048 \<and> no_control s \<and>
       (case parse_url E s of
          None \<Rightarrow> False
        | Some u \<Rightarrow>
            u_protocol u \<in> {''http:'', ''https:'', ''ssh:''} \<and> u_password u = []
            \<and> (u_username u = [] \<or> u_protocol u = ''ssh:'') \<and> u_hostname u \<noteq> []))"

definition safeServiceConnection :: "js_env \<Rightarrow> jsval \<Rightarrow> jsval option" where
  "safeServiceConnection E value =
     (let raw = js_prop value in
      if \<not> is_object value \<or> \<not> safeServiceEndpoint E (raw ''endpoint'') then None
      else Some (JObj ([(''endpoint'', raw ''endpoint'')]
             @ prop_if (str_that SAFE_SECRET_KEY (raw ''credentialKey'')) ''credentialKey''
                 (raw ''credentialKey'')
             @ (if raw ''tunnel'' \<noteq> JUndef then
                  (case validateHostedServiceTunnelBinding E (raw ''tunnel'') of
                     None \<Rightarrow> [] | Some t \<Rightarrow> [(''tunnel'', t)])
                else []))))"

section \<open>The validators are projections\<close>

lemma js_prop_simps [simp]:
  "js_prop (JObj []) k = JUndef"
  "js_prop (JObj ((j, v) # ps)) k = (if j = k then v else js_prop (JObj ps) k)"
  by simp_all

lemma js_prop_append:
  "js_prop (JObj (ps @ qs)) k = (if k \<in> fst ` set ps then js_prop (JObj ps) k else js_prop (JObj qs) k)"
  by (induction ps) auto

lemma js_prop_prop_if [simp]:
  "js_prop (JObj (prop_if b j v @ qs)) k = (if b \<and> j = k then v else js_prop (JObj qs) k)"
  by (auto simp: prop_if_def)

lemma js_prop_prop_if_end [simp]:
  "js_prop (JObj (prop_if b j v)) k = (if b \<and> j = k then v else JUndef)"
  by (auto simp: prop_if_def)

declare js_prop.simps(1) [simp del]

lemma str_that_undef [simp]: "\<not> str_that P JUndef" "\<not> num_that Q JUndef" "\<not> arr_that R JUndef"
  by simp_all

lemma safeNsis_idem:
  assumes "safeNsisLocalPaths v = Some w"
  shows "safeNsisLocalPaths w = Some w"
proof -
  define src where "src = take 512 (filter safePathString (arr_items (js_prop v ''sourcePaths'')))"
  define lic where "lic = js_prop v ''licensePath''"
  define ico where "ico = js_prop v ''iconPath''"
  have "x \<in> set src \<Longrightarrow> safePathString x" for x
    unfolding src_def by (auto dest: in_set_takeD)
  then have f: "filter safePathString src = src" by (simp add: filter_id_conv)
  have t: "take 512 src = src" by (simp add: src_def)
  have u: "safePathString JUndef = False" by (simp add: safePathString_def)
  have c: "\<not> (src = [] \<and> \<not> safePathString lic \<and> \<not> safePathString ico)"
    and w: "w = JObj ((''sourcePaths'', JArr src) # prop_if (safePathString lic) ''licensePath'' lic
                      @ prop_if (safePathString ico) ''iconPath'' ico)"
    using assms unfolding safeNsisLocalPaths_def Let_def src_def lic_def ico_def
    by (simp_all split: if_split_asm)
  show ?thesis
    using c unfolding w safeNsisLocalPaths_def Let_def
    by (cases "safePathString lic"; cases "safePathString ico") (simp_all add: f t u)
qed

lemma normalizeVM_idem:
  "normalizeVirtualMachineLocalPaths (normalizeVirtualMachineLocalPaths v)
   = normalizeVirtualMachineLocalPaths v"
  by (simp add: normalizeVirtualMachineLocalPaths_def Let_def safeVirtualMachinePath_def)

lemma prop_there_simps [simp]:
  "js_prop (JObj (prop_there j v @ qs)) k = (if v \<noteq> JUndef \<and> j = k then v else js_prop (JObj qs) k)"
  "js_prop (JObj (prop_there j v)) k = (if v \<noteq> JUndef \<and> j = k then v else JUndef)"
  by (simp_all add: prop_there_def)

lemma absent_or_undef [simp]: "absent_or P JUndef"
  by (simp add: absent_or_def)

lemma cloneLaunch_idem:
  assumes "cloneLaunch v = Some w"
  shows "cloneLaunch w = Some w \<and> is_record w"
proof -
  define cmd where "cmd = js_prop v ''command''"
  define ag where "ag = js_prop v ''agentId''"
  define pr where "pr = js_prop v ''prompt''"
  define pm where "pm = js_prop v ''permissionMode''"
  define md where "md = js_prop v ''model''"
  define ns where "ns = js_prop v ''newSessionId''"
  define si where "si = js_prop v ''sessionId''"
  note defs = cmd_def ag_def pr_def pm_def md_def ns_def si_def
  consider
    (shell) "str_that (\<lambda>s. s \<noteq> [] \<and> length s \<le> MAX_INTENT_TEXT) cmd"
      "w = JObj [(''kind'', JStr ''shell-command''), (''command'', cmd)]"
  | (start) "isSafeAgentId ag" "absent_or isPermissionMode pm"
      "absent_or (str_that (\<lambda>s. length s \<le> MAX_INTENT_TEXT)) pr" "absent_or (str_that SAFE_MODEL) md"
      "absent_or (str_that SAFE_OPAQUE_ID) ns"
      "w = JObj ([(''kind'', JStr ''agent''), (''action'', JStr ''start''), (''agentId'', ag)]
                @ prop_there ''prompt'' pr @ prop_there ''permissionMode'' pm
                @ prop_there ''model'' md @ prop_there ''newSessionId'' ns)"
  | (resume) "isSafeAgentId ag" "absent_or isPermissionMode pm" "absent_or (str_that SAFE_MODEL) md"
      "str_that SAFE_OPAQUE_ID si"
      "w = JObj ([(''kind'', JStr ''agent''), (''action'', JStr ''resume''), (''agentId'', ag),
                  (''sessionId'', si)]
                @ prop_there ''permissionMode'' pm @ prop_there ''model'' md)"
    using assms unfolding cloneLaunch_def Let_def defs [symmetric]
    by (simp only: split: if_split_asm) blast+
  then show ?thesis
  proof cases
    case shell
    then show ?thesis by (simp add: cloneLaunch_def)
  next
    case start
    have "cloneLaunch w = Some w"
      unfolding start(6) cloneLaunch_def Let_def using start(1-5) by simp
    then show ?thesis using start(6) by simp
  next
    case resume
    have "cloneLaunch w = Some w"
      unfolding resume(5) cloneLaunch_def Let_def using resume(1-4) by simp
    then show ?thesis using resume(5) by simp
  qed
qed

lemma clonePendingLaunch_idem:
  assumes "clonePendingLaunch v = Some w"
  shows "clonePendingLaunch w = Some w"
proof -
  from assms obtain ps where ps: "cloneLaunchIntentRecord v = Some ps"
    by (auto simp: clonePendingLaunch_def split: option.splits)
  then obtain l where l: "cloneLaunch (js_prop v ''launch'') = Some l"
    and p: "ps = [(''after'', js_prop v ''after''), (''launchId'', js_prop v ''launchId''),
                  (''launch'', l)]"
    by (auto simp: cloneLaunchIntentRecord_def Let_def split: if_splits)
  from cloneLaunch_idem [OF l] have lw: "cloneLaunch l = Some l" "is_record l" by auto
  have "cloneLaunchIntentRecord (JObj (ps @ r)) = Some ps" for r
    using ps lw by (simp add: p cloneLaunchIntentRecord_def Let_def split: if_splits)
  moreover from this [of "[]"] have "cloneLaunchIntentRecord (JObj ps) = Some ps" by simp
  moreover have "js_prop (JObj (ps @ r)) ''awaitSetupGroup'' = js_prop (JObj r) ''awaitSetupGroup''"
    "js_prop (JObj ps) ''awaitSetupGroup'' = JUndef" for r
    by (simp_all add: p)
  ultimately show ?thesis using assms ps
    by (auto simp: clonePendingLaunch_def Let_def split: if_splits)
qed

lemma validateNextcloud_idem:
  assumes "validateNextcloudManagedBinding v = Some w"
  shows "validateNextcloudManagedBinding w = Some w"
proof -
  define cx where "cx = js_prop v ''context''"
  define pn where "pn = js_prop v ''projectName''"
  define dd where "dd = js_prop v ''dataDirectory''"
  define bd where "bd = js_prop v ''backupDirectory''"
  define sk where "sk = js_prop v ''secretKeys''"
  define lp where "lp = js_prop v ''loopbackPort''"
  define lv where "lv = js_prop v ''lastVerifiedAt''"
  have w: "w = JObj ([(''bindingVersion'', JNum (Fin 1)), (''context'', cx), (''projectName'', pn),
      (''dataDirectory'', dd), (''backupDirectory'', bd), (''secretKeys'', sk), (''loopbackPort'', lp)]
      @ prop_there ''lastVerifiedAt'' lv)"
    and ok: "str_that NC_CONTEXT cx" "str_that NC_PROJECT pn" "str_that absolute_folder dd"
      "str_that absolute_folder bd" "arr_that (\<lambda>ks. length ks = NEXTCLOUD_MANAGED_SECRET_COUNT
         \<and> list_all (str_that SAFE_SECRET_KEY) ks) sk" "num_that (int_between 1024 65535) lp"
      "absent_or (num_that safe_nat) lv"
    using assms unfolding validateNextcloudManagedBinding_def Let_def
      cx_def pn_def dd_def bd_def sk_def lp_def lv_def
    by (simp_all only: de_Morgan_disj not_not option.inject option.distinct split: if_split_asm)
  have keys: "set (js_keys w) \<subseteq> set [''bindingVersion'', ''context'', ''projectName'',
           ''dataDirectory'', ''backupDirectory'', ''secretKeys'', ''loopbackPort'', ''lastVerifiedAt'']"
    by (cases "lv = JUndef") (simp_all add: w prop_there_def)
  have "is_record w" by (simp add: w)
  with keys ok show ?thesis
    unfolding validateNextcloudManagedBinding_def Let_def
    by (simp only: simp_thms if_True if_False) (simp add: w)
qed

lemma keep_media_keys:
  "(k, v) \<in> set (foldl (\<lambda>out (k, v). if SAFE_MEDIA_ASSET_ID k \<and> safePathString v
       then AList.update k v out else out) acc ps) \<Longrightarrow>
   (k, v) \<in> set acc \<or> (SAFE_MEDIA_ASSET_ID k \<and> safePathString v)"
proof (induction ps arbitrary: acc)
  case (Cons p ps)
  have upd: "(k, v) \<in> set (AList.update j x acc) \<Longrightarrow> (k, v) \<in> set acc \<or> (k = j \<and> v = x)" for j x acc
    by (induction acc) (auto split: if_splits)
  from Cons show ?case by (cases p) (fastforce split: if_splits dest: upd)
qed simp

lemma keep_media_distinct:
  "distinct (map fst acc) \<Longrightarrow>
   distinct (map fst (foldl (\<lambda>out (k, v). if SAFE_MEDIA_ASSET_ID k \<and> safePathString v
       then AList.update k v out else out) acc ps))"
  by (induction ps arbitrary: acc) (auto simp: distinct_update)

lemma keep_media_length:
  "length (foldl (\<lambda>out (k, v). if SAFE_MEDIA_ASSET_ID k \<and> safePathString v
       then AList.update k v out else out) acc ps) \<le> length acc + length ps"
proof (induction ps arbitrary: acc)
  case (Cons p ps)
  have upd: "length (AList.update j x acc) \<le> Suc (length acc)" for j x and acc :: "('k \<times> 'v) list"
    by (induction acc) auto
  show ?case
    using Cons [of acc] Cons [of "AList.update (fst p) (snd p) acc"] upd [of "fst p" "snd p" acc]
    by (cases p) auto
qed simp

lemma keep_media_rebuild:
  "distinct (map fst (acc @ ps)) \<Longrightarrow>
   (\<And>k v. (k, v) \<in> set ps \<Longrightarrow> SAFE_MEDIA_ASSET_ID k \<and> safePathString v) \<Longrightarrow>
   foldl (\<lambda>out (k, v). if SAFE_MEDIA_ASSET_ID k \<and> safePathString v
       then AList.update k v out else out) acc ps = acc @ ps"
proof (induction ps arbitrary: acc)
  case (Cons p ps)
  have app: "j \<notin> fst ` set acc \<Longrightarrow> AList.update j x acc = acc @ [(j, x)]" for j x and acc :: "('k \<times> 'v) list"
    by (induction acc) auto
  obtain k v where p: "p = (k, v)" by (cases p)
  with Cons.prems(1) have "k \<notin> fst ` set acc" by auto
  with app have u: "AList.update k v acc = acc @ [(k, v)]" by fast
  have "SAFE_MEDIA_ASSET_ID k \<and> safePathString v" by (rule Cons.prems(2)) (simp add: p)
  moreover have "foldl (\<lambda>out (k, v). if SAFE_MEDIA_ASSET_ID k \<and> safePathString v
       then AList.update k v out else out) (acc @ [(k, v)]) ps = (acc @ [(k, v)]) @ ps"
    using Cons.prems p by (intro Cons.IH) auto
  ultimately show ?case using u by (simp add: p)
qed simp

lemma keep_media_idem: "keep_media (keep_media ps) = keep_media ps"
proof -
  have "length (keep_media ps) \<le> MAX_MEDIA_SOURCE_PATHS"
    using keep_media_length [of "[]" "take MAX_MEDIA_SOURCE_PATHS ps"]
    by (simp add: keep_media_def)
  then have t: "take MAX_MEDIA_SOURCE_PATHS (keep_media ps) = keep_media ps" by simp
  have "keep_media (keep_media ps) = [] @ keep_media ps"
    unfolding keep_media_def [of "keep_media ps"] t
  proof (rule keep_media_rebuild)
    show "distinct (map fst ([] @ keep_media ps))"
      by (simp add: keep_media_def keep_media_distinct)
  next
    fix k v assume "(k, v) \<in> set (keep_media ps)"
    then show "SAFE_MEDIA_ASSET_ID k \<and> safePathString v"
      unfolding keep_media_def by (auto dest: keep_media_keys)
  qed
  then show ?thesis by simp
qed

lemma safeMedia_idem: "safeMediaSourcePaths v = Some w \<Longrightarrow> safeMediaSourcePaths w = Some w"
  by (cases v) (auto simp: some_if_nonempty_def keep_media_idem split: if_splits)

text \<open>
  A parser whose \<open>href\<close> is stable: reading back what it wrote gives the same text. The AWS binding
  is then read back unchanged or, when the written endpoint has grown past the length bound, refused.
\<close>

definition href_stable :: "js_env \<Rightarrow> bool" where
  "href_stable E \<longleftrightarrow>
     (\<forall>s u u'. parse_url E s = Some u \<longrightarrow> parse_url E (u_href u) = Some u' \<longrightarrow> u_href u' = u_href u)"

lemma safeEndpoint_href:
  "safeEndpoint E v = Some h \<Longrightarrow> \<exists>u. parse_url E (js_str v) = Some u \<and> h = u_href u"
  unfolding safeEndpoint_def Let_def
  by (simp only: option.inject option.distinct split: if_split_asm option.split_asm) simp

lemma safeEndpoint_again:
  assumes "href_stable E" "safeEndpoint E v = Some h"
  shows "safeEndpoint E (JStr h) = None \<or> safeEndpoint E (JStr h) = Some h"
proof (cases "safeEndpoint E (JStr h)")
  case (Some h')
  from safeEndpoint_href [OF assms(2)] safeEndpoint_href [OF Some] assms(1) Some
  show ?thesis by (auto simp: href_stable_def)
qed simp

lemma aws_endpoints_again:
  "href_stable E \<Longrightarrow> aws_endpoints E S cs = Some es \<Longrightarrow>
   aws_endpoints E S es = None \<or> aws_endpoints E S es = Some es"
proof (induction cs arbitrary: S es)
  case Nil
  then show ?case by simp
next
  case (Cons c cs)
  let ?s = "js_prop c ''service''"
  from Cons.prems obtain h es' where h: "safeEndpoint E (js_prop c ''url'') = Some h"
    and s: "str_that AWS_SAFE_SERVICE ?s" "h \<noteq> []" "js_str ?s \<notin> set S"
    and r: "aws_endpoints E (js_str ?s # S) cs = Some es'"
    and es: "es = JObj [(''service'', ?s), (''url'', JStr h)] # es'"
    by (auto simp: Let_def split: if_splits option.splits)
  from safeEndpoint_again [OF Cons.prems(1) h] Cons.IH [OF Cons.prems(1) r] s
  show ?case by (auto simp: es Let_def)
qed

lemma normalizeAws_again:
  assumes "href_stable E" "normalizeAwsIdentityBinding E v = Some w"
  shows "normalizeAwsIdentityBinding E w = None \<or> normalizeAwsIdentityBinding E w = Some w"
proof -
  define pn where "pn = js_prop v ''profileName''"
  define rg where "rg = js_prop v ''region''"
  define va where "va = js_prop v ''verifiedAt''"
  obtain es where es: "aws_endpoints E [] (arr_items (js_prop v ''endpoints'')) = Some es"
    and ok: "str_that AWS_SAFE_NAME pn" "null_or (str_that SAFE_REGION) rg"
      "null_or (num_that safe_nat) va"
    and w: "w = JObj [(''schemaVersion'', JNum (Fin 1)), (''profileName'', pn), (''region'', rg),
                      (''endpoints'', JArr es), (''verifiedAt'', va)]"
    using assms(2) unfolding normalizeAwsIdentityBinding_def Let_def pn_def rg_def va_def
    by (simp only: de_Morgan_disj not_not option.inject option.distinct
        split: if_split_asm option.split_asm)
  from aws_endpoints_again [OF assms(1) es] ok show ?thesis
    by (auto simp: normalizeAwsIdentityBinding_def Let_def w)
qed

end
