(* ===== verification/Node_Exec.thy ===== *)
theory Node_Exec
  imports Canvas_Types Ssh_Args Local_Bindings
begin

text \<open>
  The trust boundary of the node fields that end up executing something (src/shared/node-exec.ts):
  what leaves for a shared file or a peer (\<open>stripNodeExec\<close>), what a peer's node may change on ours
  (\<open>carryLocalNodeExec\<close>), and the machine-local index the values live in (\<open>localNodeExec\<close>,
  \<open>applyLocalNodeExec\<close>).

  A sequence of assignments to different properties of one object is one record update here. The
  objects that are only looked up by node id are association lists.
\<close>

record local_exec =
  le_shell :: "string option"
  le_terminalProfileId :: "string option"
  le_namedTerminalProfileId :: "string option"
  le_namedTerminalProfileCwd :: "string option"
  le_sshExtraArgs :: "string option"
  le_pendingLaunch :: "jsval option"
  le_clearEnv :: bool
  le_serviceConnection :: "jsval option"
  le_openWebUiLocalBinding :: "jsval option"
  le_nextcloudManagedBinding :: "jsval option"
  le_awsIdentityBinding :: "jsval option"
  le_nsisLocalPaths :: "jsval option"
  le_virtualMachineLocalPaths :: "jsval option"
  le_mediaFilePath :: "string option"
  le_mediaSourcePaths :: "jsval option"

definition opt_str :: "string option \<Rightarrow> jsval" where
  "opt_str s = (case s of None \<Rightarrow> JUndef | Some x \<Rightarrow> JStr x)"

lemma opt_str_simps [simp]: "opt_str None = JUndef" "opt_str (Some x) = JStr x"
  by (simp_all add: opt_str_def)

text \<open>\<open>if (x)\<close> on an optional string.\<close>

definition opt_truthy :: "string option \<Rightarrow> bool" where
  "opt_truthy s \<longleftrightarrow> s \<noteq> None \<and> s \<noteq> Some []"

section \<open>Media paths\<close>

definition photo_or_video :: "canvas_node \<Rightarrow> bool" where
  "photo_or_video n \<longleftrightarrow> n_kind n = ''photo'' \<or> n_kind n = ''video''"

definition media_node :: "canvas_node \<Rightarrow> bool" where
  "media_node n \<longleftrightarrow> photo_or_video n \<or> n_kind n = ''gallery''"

definition stripMediaPaths :: "canvas_node \<Rightarrow> canvas_node" where
  "stripMediaPaths n =
     (let hasSourcePath = (case n_mediaAssets n of
             None \<Rightarrow> False | Some as \<Rightarrow> list_ex (\<lambda>a. ma_sourcePath a \<noteq> None) as);
          hasFilePath = photo_or_video n \<and> n_filePath n \<noteq> None
      in if \<not> media_node n \<or> (\<not> hasSourcePath \<and> \<not> hasFilePath) then n
         else n\<lparr>n_filePath := (if hasFilePath then None else n_filePath n),
                n_mediaAssets := (if hasSourcePath
                  then map_option (map (\<lambda>a. a\<lparr>ma_sourcePath := None\<rparr>)) (n_mediaAssets n)
                  else n_mediaAssets n)\<rparr>)"

definition collect_media :: "media_asset list \<Rightarrow> (string \<times> jsval) list" where
  "collect_media as =
     foldl (\<lambda>out a. if SAFE_MEDIA_ASSET_ID (ma_assetId a) \<and> safePathString (opt_str (ma_sourcePath a))
                    then AList.update (ma_assetId a) (opt_str (ma_sourcePath a)) out else out)
       [] (take MAX_MEDIA_SOURCE_PATHS as)"

definition localMediaSourcePaths :: "canvas_node \<Rightarrow> jsval option" where
  "localMediaSourcePaths n =
     (case n_mediaAssets n of
        None \<Rightarrow> None
      | Some as \<Rightarrow> some_if_nonempty (collect_media as))"

definition restore_asset :: "jsval \<Rightarrow> media_asset \<Rightarrow> media_asset" where
  "restore_asset paths a =
     (case js_prop paths (ma_assetId a) of
        JStr s \<Rightarrow> if s = [] then a else a\<lparr>ma_sourcePath := Some s\<rparr>
      | _ \<Rightarrow> a)"

definition restoreMediaPaths :: "canvas_node \<Rightarrow> string option \<Rightarrow> jsval option \<Rightarrow> canvas_node" where
  "restoreMediaPaths n filePath sourcePaths =
     (if \<not> media_node n then n
      else
        let mediaFilePath = (if safePathString (opt_str filePath) then filePath else None);
            mediaSourcePaths = safeMediaSourcePaths (opt_val sourcePaths)
        in if mediaFilePath = None \<and> mediaSourcePaths = None then n
           else n\<lparr>n_filePath := (if photo_or_video n \<and> mediaFilePath \<noteq> None then mediaFilePath
                                  else n_filePath n),
                  n_mediaAssets := (case mediaSourcePaths of
                    None \<Rightarrow> n_mediaAssets n
                  | Some ps \<Rightarrow> map_option (map (restore_asset ps)) (n_mediaAssets n))\<rparr>)"

section \<open>Stripping\<close>

definition strip_ssh :: "ssh_conn \<Rightarrow> ssh_conn" where
  "strip_ssh c = c\<lparr>ssh_extraArgs := None, ssh_execTrusted := None\<rparr>"

definition stripNodeExec :: "canvas_node \<Rightarrow> canvas_node" where
  "stripNodeExec n =
     (let w = stripMediaPaths n in
      if n_shell w = None \<and> n_terminalProfileId w = None \<and> n_namedTerminalProfileId w = None
         \<and> n_pendingLaunch w = None \<and> n_serviceConnection w = None
         \<and> n_openWebUiLocalBinding w = None \<and> n_nextcloudManagedBinding w = None
         \<and> n_awsIdentityBinding w = None \<and> n_nsisLocalPaths w = None
         \<and> n_virtualMachineLocalPaths w = None
         \<and> Option.bind (n_ssh w) ssh_extraArgs = None
         \<and> Option.bind (n_ssh w) ssh_execTrusted = None
      then w
      else w\<lparr>n_shell := None, n_terminalProfileId := None, n_namedTerminalProfileId := None,
             n_cwd := (if n_namedTerminalProfileId w \<noteq> None then None else n_cwd w),
             n_pendingLaunch := None, n_serviceConnection := None, n_openWebUiLocalBinding := None,
             n_nextcloudManagedBinding := None, n_awsIdentityBinding := None,
             n_nsisLocalPaths := None, n_virtualMachineLocalPaths := None,
             n_ssh := map_option strip_ssh (n_ssh w)\<rparr>)"

definition stripSharedNodeExec :: "canvas_node list \<Rightarrow> canvas_node list" where
  "stripSharedNodeExec = map stripNodeExec"

definition sanitizeInboundNode :: "canvas_node \<Rightarrow> canvas_node" where
  "sanitizeInboundNode n = stripNodeExec n"

definition sanitizeInboundMutation :: "canvas_mutation \<Rightarrow> canvas_mutation" where
  "sanitizeInboundMutation m =
     (case m_op m of Upsert n \<Rightarrow> m\<lparr>m_op := Upsert (sanitizeInboundNode n)\<rparr> | _ \<Rightarrow> m)"

definition normalizeLocalPendingLaunch :: "canvas_node list \<Rightarrow> canvas_node list" where
  "normalizeLocalPendingLaunch =
     map (\<lambda>n. case n_pendingLaunch n of
            None \<Rightarrow> n
          | Some v \<Rightarrow> n\<lparr>n_pendingLaunch :=
                          (if n_kind n = ''terminal'' then clonePendingLaunch v else None)\<rparr>)"

definition acceptNewInboundNode :: "canvas_node \<Rightarrow> string option \<Rightarrow> canvas_node" where
  "acceptNewInboundNode n defaultTerminalProfileId =
     (let clean = sanitizeInboundNode n in
      if \<not> opt_truthy defaultTerminalProfileId \<or> n_kind clean \<noteq> ''terminal'' \<or> n_ssh clean \<noteq> None
      then clean
      else clean\<lparr>n_terminalProfileId := defaultTerminalProfileId\<rparr>)"

section \<open>Applying a peer's node over ours\<close>

definition vm_of :: "jsval option \<Rightarrow> jsval" where
  "vm_of v = normalizeVirtualMachineLocalPaths (opt_val v)"

definition carryLocalNodeExec :: "js_env \<Rightarrow> canvas_node option \<Rightarrow> canvas_node \<Rightarrow> canvas_node" where
  "carryLocalNodeExec E prev0 nxt =
     (case prev0 of
        None \<Rightarrow> nxt
      | Some prev \<Rightarrow>
          let extraArgs = Option.bind (n_ssh prev) ssh_extraArgs;
              pendingLaunch = (if n_kind nxt = ''terminal''
                               then clonePendingLaunch (opt_val (n_pendingLaunch prev)) else None);
              nsisPaths = safeNsisLocalPaths (opt_val (n_nsisLocalPaths prev));
              vmPaths = vm_of (n_virtualMachineLocalPaths prev);
              openWebUiBinding = (if n_kind prev = ''open-webui-hosting''
                                  then n_openWebUiLocalBinding prev else None);
              awsBinding = normalizeAwsIdentityBinding E (opt_val (n_awsIdentityBinding prev));
              mediaFilePath = (if safePathString (opt_str (n_filePath prev)) then n_filePath prev
                               else None);
              mediaSourcePaths = localMediaSourcePaths prev;
              nextcloudBinding = (if n_kind prev = ''nextcloud-managed'' \<and> n_kind nxt = ''nextcloud-managed''
                 then validateNextcloudManagedBinding (opt_val (n_nextcloudManagedBinding prev))
                 else None)
          in
          if n_shell prev = None \<and> n_terminalProfileId prev = None
             \<and> n_namedTerminalProfileId prev = None \<and> extraArgs = None \<and> pendingLaunch = None
             \<and> nsisPaths = None \<and> awsBinding = None \<and> js_keys vmPaths = []
             \<and> openWebUiBinding = None \<and> mediaFilePath = None \<and> mediaSourcePaths = None
             \<and> nextcloudBinding = None
          then nxt
          else restoreMediaPaths
            (nxt\<lparr>n_shell := (if n_shell prev \<noteq> None then n_shell prev else n_shell nxt),
                 n_terminalProfileId := (if n_terminalProfileId prev \<noteq> None
                    then n_terminalProfileId prev else n_terminalProfileId nxt),
                 n_namedTerminalProfileId := (if n_namedTerminalProfileId prev \<noteq> None
                    then n_namedTerminalProfileId prev else n_namedTerminalProfileId nxt),
                 n_cwd := (if n_namedTerminalProfileId prev \<noteq> None \<and> n_cwd prev \<noteq> None
                    then n_cwd prev else n_cwd nxt),
                 n_ssh := (if extraArgs \<noteq> None
                    then map_option (\<lambda>c. c\<lparr>ssh_extraArgs := extraArgs,
                        ssh_execTrusted := Option.bind (n_ssh prev) ssh_execTrusted\<rparr>) (n_ssh nxt)
                    else n_ssh nxt),
                 n_pendingLaunch := (if pendingLaunch \<noteq> None then pendingLaunch
                    else n_pendingLaunch nxt),
                 n_nsisLocalPaths := (if nsisPaths \<noteq> None then nsisPaths else n_nsisLocalPaths nxt),
                 n_virtualMachineLocalPaths := (if js_keys vmPaths \<noteq> [] then Some vmPaths
                    else n_virtualMachineLocalPaths nxt),
                 n_openWebUiLocalBinding := (if openWebUiBinding \<noteq> None then openWebUiBinding
                    else n_openWebUiLocalBinding nxt),
                 n_nextcloudManagedBinding := (if nextcloudBinding \<noteq> None then nextcloudBinding
                    else n_nextcloudManagedBinding nxt),
                 n_awsIdentityBinding := (if awsBinding \<noteq> None then awsBinding
                    else n_awsIdentityBinding nxt)\<rparr>)
            mediaFilePath mediaSourcePaths)"

section \<open>The machine-local index\<close>

definition has_vm_path :: "jsval \<Rightarrow> bool" where
  "has_vm_path v \<longleftrightarrow> safeVirtualMachinePath (js_prop v ''isoPath'')
                   \<or> safeVirtualMachinePath (js_prop v ''diskPath'')"

text \<open>The body of the loop of \<open>localNodeExec\<close>: the entry of one node.\<close>

definition localExecEntry :: "js_env \<Rightarrow> canvas_node \<Rightarrow> local_exec" where
  "localExecEntry E n =
     \<lparr>le_shell = (if opt_truthy (n_shell n) \<and> safeSessionProgram (n_shell n) \<noteq> None
                  then n_shell n else None),
      le_terminalProfileId = n_terminalProfileId n,
      le_namedTerminalProfileId = n_namedTerminalProfileId n,
      le_namedTerminalProfileCwd =
        (if n_namedTerminalProfileId n \<noteq> None \<and> safePathString (opt_str (n_cwd n))
         then n_cwd n else None),
      le_sshExtraArgs =
        (let extraArgs = Option.bind (n_ssh n) ssh_extraArgs in
         if opt_truthy extraArgs
            \<and> (Option.bind (n_ssh n) ssh_execTrusted = Some True
               \<or> \<not> sshExtraArgsEnableLocalExec extraArgs)
         then extraArgs else None),
      le_pendingLaunch = (if n_kind n = ''terminal''
                          then clonePendingLaunch (opt_val (n_pendingLaunch n)) else None),
      le_clearEnv = (n_clearEnv n = Some True),
      le_serviceConnection = safeServiceConnection E (opt_val (n_serviceConnection n)),
      le_openWebUiLocalBinding =
        (if n_kind n = ''open-webui-hosting''
         then safeOpenWebUiLocalBinding E (opt_val (n_openWebUiLocalBinding n)) else None),
      le_nextcloudManagedBinding =
        (if n_kind n = ''nextcloud-managed''
         then validateNextcloudManagedBinding (opt_val (n_nextcloudManagedBinding n)) else None),
      le_awsIdentityBinding = normalizeAwsIdentityBinding E (opt_val (n_awsIdentityBinding n)),
      le_nsisLocalPaths = safeNsisLocalPaths (opt_val (n_nsisLocalPaths n)),
      le_virtualMachineLocalPaths =
        (let vmPaths = vm_of (n_virtualMachineLocalPaths n) in
         if has_vm_path vmPaths then Some vmPaths else None),
      le_mediaFilePath =
        (if photo_or_video n \<and> safePathString (opt_str (n_filePath n)) then n_filePath n else None),
      le_mediaSourcePaths = localMediaSourcePaths n\<rparr>"

definition entry_kept :: "local_exec \<Rightarrow> bool" where
  "entry_kept e \<longleftrightarrow>
     opt_truthy (le_shell e) \<or> le_terminalProfileId e \<noteq> None
     \<or> le_namedTerminalProfileId e \<noteq> None \<or> le_namedTerminalProfileCwd e \<noteq> None
     \<or> opt_truthy (le_sshExtraArgs e) \<or> le_pendingLaunch e \<noteq> None \<or> le_clearEnv e
     \<or> le_serviceConnection e \<noteq> None \<or> le_openWebUiLocalBinding e \<noteq> None
     \<or> le_awsIdentityBinding e \<noteq> None \<or> le_nextcloudManagedBinding e \<noteq> None
     \<or> le_nsisLocalPaths e \<noteq> None \<or> le_virtualMachineLocalPaths e \<noteq> None
     \<or> opt_truthy (le_mediaFilePath e) \<or> le_mediaSourcePaths e \<noteq> None"

definition localNodeExec :: "js_env \<Rightarrow> canvas_node list \<Rightarrow> (string \<times> local_exec) list option" where
  "localNodeExec E ns =
     (let m = foldl (\<lambda>m n. let e = localExecEntry E n in
                       if entry_kept e then AList.update (n_id n) e m else m) [] ns
      in if m = [] then None else Some m)"

definition no_exec :: local_exec where
  "no_exec = \<lparr>le_shell = None, le_terminalProfileId = None, le_namedTerminalProfileId = None,
     le_namedTerminalProfileCwd = None, le_sshExtraArgs = None, le_pendingLaunch = None,
     le_clearEnv = False, le_serviceConnection = None, le_openWebUiLocalBinding = None,
     le_nextcloudManagedBinding = None, le_awsIdentityBinding = None, le_nsisLocalPaths = None,
     le_virtualMachineLocalPaths = None, le_mediaFilePath = None, le_mediaSourcePaths = None\<rparr>"

text \<open>
  The body of \<open>applyLocalNodeExec\<close> for one node; a node without an entry reads every property of
  \<open>mine\<close> as \<open>undefined\<close>.
\<close>

definition applyExecEntry :: "js_env \<Rightarrow> local_exec \<Rightarrow> canvas_node \<Rightarrow> canvas_node" where
  "applyExecEntry E mine n =
     (let out = stripNodeExec n;
          conn = safeServiceConnection E (opt_val (le_serviceConnection mine));
          pl = clonePendingLaunch (opt_val (le_pendingLaunch mine));
          ow = safeOpenWebUiLocalBinding E (opt_val (le_openWebUiLocalBinding mine));
          aws = normalizeAwsIdentityBinding E (opt_val (le_awsIdentityBinding mine));
          nc = validateNextcloudManagedBinding (opt_val (le_nextcloudManagedBinding mine));
          nsis = safeNsisLocalPaths (opt_val (le_nsisLocalPaths mine));
          vm = vm_of (le_virtualMachineLocalPaths mine)
      in restoreMediaPaths
        (out\<lparr>n_shell := (if opt_truthy (le_shell mine) then le_shell mine else n_shell out),
             n_terminalProfileId := (if le_terminalProfileId mine \<noteq> None
                then le_terminalProfileId mine else n_terminalProfileId out),
             n_namedTerminalProfileId := (if le_namedTerminalProfileId mine \<noteq> None
                then le_namedTerminalProfileId mine else n_namedTerminalProfileId out),
             n_cwd := (if le_namedTerminalProfileCwd mine \<noteq> None
                then le_namedTerminalProfileCwd mine else n_cwd out),
             n_ssh := (if opt_truthy (le_sshExtraArgs mine)
                then map_option (\<lambda>c. c\<lparr>ssh_extraArgs := le_sshExtraArgs mine,
                                       ssh_execTrusted := Some True\<rparr>) (n_ssh out)
                else n_ssh out),
             n_pendingLaunch := (if n_kind out = ''terminal'' \<and> pl \<noteq> None then pl
                else n_pendingLaunch out),
             n_serviceConnection := (if conn \<noteq> None then conn else n_serviceConnection out),
             n_openWebUiLocalBinding := (if n_kind n = ''open-webui-hosting'' \<and> ow \<noteq> None then ow
                else n_openWebUiLocalBinding out),
             n_awsIdentityBinding := (if aws \<noteq> None then aws else n_awsIdentityBinding out),
             n_nextcloudManagedBinding := (if n_kind out = ''nextcloud-managed'' \<and> nc \<noteq> None then nc
                else n_nextcloudManagedBinding out),
             n_nsisLocalPaths := (if nsis \<noteq> None then nsis else n_nsisLocalPaths out),
             n_virtualMachineLocalPaths := (if has_vm_path vm then Some vm
                else n_virtualMachineLocalPaths out)\<rparr>)
        (le_mediaFilePath mine) (le_mediaSourcePaths mine))"

definition applyLocalNodeExec ::
  "js_env \<Rightarrow> canvas_node list \<Rightarrow> (string \<times> local_exec) list option \<Rightarrow> canvas_node list" where
  "applyLocalNodeExec E ns local =
     map (\<lambda>n. applyExecEntry E
            (case Option.bind local (\<lambda>m. map_of m (n_id n)) of None \<Rightarrow> no_exec | Some e \<Rightarrow> e) n) ns"

section \<open>The two halves of a node\<close>

text \<open>
  Both branches of the stripping functions compute the same node: the shortcuts only save a copy.
\<close>

definition clear_source :: "media_asset \<Rightarrow> media_asset" where
  "clear_source a = a\<lparr>ma_sourcePath := None\<rparr>"

lemma clear_source_id: "ma_sourcePath a = None \<Longrightarrow> clear_source a = a"
  by (cases a) (simp add: clear_source_def)

lemma clear_source_simps [simp]:
  "ma_sourcePath (clear_source a) = None" "ma_assetId (clear_source a) = ma_assetId a"
  "clear_source (clear_source a) = clear_source a"
  by (simp_all add: clear_source_def)

lemma map_clear_source_id:
  "\<not> list_ex (\<lambda>a. ma_sourcePath a \<noteq> None) as \<Longrightarrow> map clear_source as = as"
  by (induction as) (auto simp: clear_source_id)

lemma stripMediaPaths_eq:
  "stripMediaPaths n =
     n\<lparr>n_filePath := (if photo_or_video n then None else n_filePath n),
       n_mediaAssets := (if media_node n then map_option (map clear_source) (n_mediaAssets n)
                         else n_mediaAssets n)\<rparr>"
proof -
  have fold: "(\<lambda>a. a\<lparr>ma_sourcePath := None\<rparr>) = clear_source" by (rule ext) (simp add: clear_source_def)
  have pm: "photo_or_video n \<Longrightarrow> media_node n" by (simp add: media_node_def)
  show ?thesis
  proof (cases "media_node n")
    case False
    with pm show ?thesis by (auto simp: stripMediaPaths_def intro: canvas_node.equality)
  next
    case True
    have "map_option (map clear_source) (n_mediaAssets n) = n_mediaAssets n"
      if "\<not> (case n_mediaAssets n of None \<Rightarrow> False
             | Some as \<Rightarrow> list_ex (\<lambda>a. ma_sourcePath a \<noteq> None) as)"
      using that by (cases "n_mediaAssets n") (simp_all add: map_clear_source_id)
    with True show ?thesis
      unfolding stripMediaPaths_def Let_def fold by (auto intro!: canvas_node.equality)
  qed
qed

lemma strip_ssh_simps [simp]:
  "ssh_extraArgs (strip_ssh c) = None" "ssh_execTrusted (strip_ssh c) = None"
  "strip_ssh (strip_ssh c) = strip_ssh c"
  by (simp_all add: strip_ssh_def)

lemma strip_ssh_id:
  "Option.bind s ssh_extraArgs = None \<Longrightarrow> Option.bind s ssh_execTrusted = None \<Longrightarrow>
   map_option strip_ssh s = s"
  by (cases s) (auto simp: strip_ssh_def intro!: ssh_conn.equality)

lemma stripNodeExec_eq:
  "stripNodeExec n =
     n\<lparr>n_cwd := (if n_namedTerminalProfileId n \<noteq> None then None else n_cwd n),
       n_shell := None, n_terminalProfileId := None, n_namedTerminalProfileId := None,
       n_pendingLaunch := None,
       n_ssh := map_option strip_ssh (n_ssh n),
       n_serviceConnection := None, n_openWebUiLocalBinding := None,
       n_nextcloudManagedBinding := None, n_awsIdentityBinding := None,
       n_nsisLocalPaths := None, n_virtualMachineLocalPaths := None,
       n_filePath := (if photo_or_video n then None else n_filePath n),
       n_mediaAssets := (if media_node n then map_option (map clear_source) (n_mediaAssets n)
                         else n_mediaAssets n)\<rparr>"
  unfolding stripNodeExec_def Let_def
  by (rule canvas_node.equality) (auto simp: stripMediaPaths_eq strip_ssh_id)

lemma strip_kind [simp]:
  "n_kind (stripNodeExec n) = n_kind n" "n_id (stripNodeExec n) = n_id n"
  "photo_or_video (stripNodeExec n) = photo_or_video n" "media_node (stripNodeExec n) = media_node n"
  by (simp_all add: stripNodeExec_eq photo_or_video_def media_node_def)

lemma strip_cwd:
  "n_cwd (stripNodeExec n) = (if n_namedTerminalProfileId n \<noteq> None then None else n_cwd n)"
  by (simp add: stripNodeExec_eq)

text \<open>A node with nothing on it that could execute or that names a place on this machine.\<close>

definition exec_clean :: "canvas_node \<Rightarrow> bool" where
  "exec_clean n \<longleftrightarrow>
     n_shell n = None \<and> n_terminalProfileId n = None \<and> n_namedTerminalProfileId n = None
     \<and> n_pendingLaunch n = None \<and> n_serviceConnection n = None \<and> n_openWebUiLocalBinding n = None
     \<and> n_nextcloudManagedBinding n = None \<and> n_awsIdentityBinding n = None
     \<and> n_nsisLocalPaths n = None \<and> n_virtualMachineLocalPaths n = None
     \<and> Option.bind (n_ssh n) ssh_extraArgs = None \<and> Option.bind (n_ssh n) ssh_execTrusted = None
     \<and> (photo_or_video n \<longrightarrow> n_filePath n = None)
     \<and> (media_node n \<longrightarrow> (case n_mediaAssets n of None \<Rightarrow> True
                           | Some as \<Rightarrow> \<forall>a \<in> set as. ma_sourcePath a = None))"

lemma exec_clean_strip: "exec_clean (stripNodeExec n)"
  unfolding exec_clean_def strip_kind
  by (cases "n_ssh n"; cases "n_mediaAssets n") (simp_all add: stripNodeExec_eq)

lemma strip_clean_id: "exec_clean n \<Longrightarrow> stripNodeExec n = n"
proof -
  assume c: "exec_clean n"
  then have m: "media_node n \<Longrightarrow> map_option (map clear_source) (n_mediaAssets n) = n_mediaAssets n"
    by (cases "n_mediaAssets n") (auto simp: exec_clean_def clear_source_id intro!: map_idI)
  from c have s: "map_option strip_ssh (n_ssh n) = n_ssh n"
    by (intro strip_ssh_id) (simp_all add: exec_clean_def)
  show ?thesis
    using c m s unfolding exec_clean_def
    by (intro canvas_node.equality) (simp_all add: stripNodeExec_eq)
qed

lemma strip_idem [simp]: "stripNodeExec (stripNodeExec n) = stripNodeExec n"
  by (rule strip_clean_id [OF exec_clean_strip])

lemma validators_undef [simp]:
  "clonePendingLaunch JUndef = None" "safeNsisLocalPaths JUndef = None"
  "safeServiceConnection E JUndef = None" "safeOpenWebUiLocalBinding E JUndef = None"
  "normalizeAwsIdentityBinding E JUndef = None" "validateNextcloudManagedBinding JUndef = None"
  "\<not> safePathString JUndef" "\<not> has_vm_path (vm_of None)" "js_keys (vm_of None) = []"
  by (simp_all add: clonePendingLaunch_def cloneLaunchIntentRecord_def safeNsisLocalPaths_def
      safeServiceConnection_def safeOpenWebUiLocalBinding_def normalizeAwsIdentityBinding_def
      validateNextcloudManagedBinding_def safePathString_def vm_of_def has_vm_path_def
      normalizeVirtualMachineLocalPaths_def safeVirtualMachinePath_def Let_def)

section \<open>Media paths come back\<close>

definition asset_settled :: "media_asset \<Rightarrow> bool" where
  "asset_settled a \<longleftrightarrow>
     ma_sourcePath a = None \<or>
     (SAFE_MEDIA_ASSET_ID (ma_assetId a) \<and> safePathString (opt_str (ma_sourcePath a)))"

definition asset_entries :: "media_asset list \<Rightarrow> (string \<times> jsval) list" where
  "asset_entries as =
     map (\<lambda>a. (ma_assetId a, opt_str (ma_sourcePath a))) (filter (\<lambda>a. ma_sourcePath a \<noteq> None) as)"

lemma alist_update_new: "j \<notin> fst ` set acc \<Longrightarrow> AList.update j x acc = acc @ [(j, x)]"
  by (induction acc) auto

lemma collect_media_fold:
  "list_all asset_settled as \<Longrightarrow> distinct (map ma_assetId as) \<Longrightarrow>
   fst ` set acc \<inter> ma_assetId ` set as = {} \<Longrightarrow>
   foldl (\<lambda>out a. if SAFE_MEDIA_ASSET_ID (ma_assetId a) \<and> safePathString (opt_str (ma_sourcePath a))
                  then AList.update (ma_assetId a) (opt_str (ma_sourcePath a)) out else out) acc as
   = acc @ asset_entries as"
proof (induction as arbitrary: acc)
  case Nil
  then show ?case by (simp add: asset_entries_def)
next
  case (Cons a as)
  show ?case
  proof (cases "ma_sourcePath a")
    case None
    with Cons show ?thesis by (simp add: asset_entries_def)
  next
    case (Some s)
    from Cons.prems(3) have "ma_assetId a \<notin> fst ` set acc" by auto
    note u = alist_update_new [OF this, of "opt_str (Some s)"]
    have "fst ` set (acc @ [(ma_assetId a, JStr s)]) \<inter> ma_assetId ` set as = {}"
      using Cons.prems(2,3) by auto
    from Cons.IH [OF _ _ this] Cons.prems u Some show ?thesis
      by (simp add: asset_entries_def asset_settled_def)
  qed
qed

lemma collect_media_settled:
  "list_all asset_settled as \<Longrightarrow> distinct (map ma_assetId as) \<Longrightarrow>
   length as \<le> MAX_MEDIA_SOURCE_PATHS \<Longrightarrow> collect_media as = asset_entries as"
  by (simp add: collect_media_def collect_media_fold)

lemma collect_media_good:
  assumes "(k, v) \<in> set (collect_media as)"
  shows "SAFE_MEDIA_ASSET_ID k \<and> safePathString v"
proof -
  have upd: "(k, v) \<in> set (AList.update j x acc) \<Longrightarrow> (k, v) \<in> set acc \<or> (k = j \<and> v = x)"
    for j x and acc :: "(string \<times> jsval) list"
    by (induction acc) (auto split: if_splits)
  have "(k, v) \<in> set (foldl (\<lambda>out a. if SAFE_MEDIA_ASSET_ID (ma_assetId a)
          \<and> safePathString (opt_str (ma_sourcePath a))
        then AList.update (ma_assetId a) (opt_str (ma_sourcePath a)) out else out) acc bs) \<Longrightarrow>
      (k, v) \<in> set acc \<or> (SAFE_MEDIA_ASSET_ID k \<and> safePathString v)" for acc bs
    by (induction bs arbitrary: acc) (fastforce split: if_splits dest: upd)+
  with assms show ?thesis by (fastforce simp: collect_media_def)
qed

lemma collect_media_distinct: "distinct (map fst (collect_media as))"
proof -
  have "distinct (map fst acc) \<Longrightarrow>
      distinct (map fst (foldl (\<lambda>out a. if SAFE_MEDIA_ASSET_ID (ma_assetId a)
          \<and> safePathString (opt_str (ma_sourcePath a))
        then AList.update (ma_assetId a) (opt_str (ma_sourcePath a)) out else out) acc bs))" for acc bs
    by (induction bs arbitrary: acc) (auto simp: distinct_update)
  from this [of "[]"] show ?thesis by (simp add: collect_media_def)
qed

lemma collect_media_length: "length (collect_media as) \<le> MAX_MEDIA_SOURCE_PATHS"
proof -
  have upd: "length (AList.update j x acc) \<le> Suc (length acc)" for j x and acc :: "(string \<times> jsval) list"
    by (induction acc) auto
  have "length (foldl (\<lambda>out a. if SAFE_MEDIA_ASSET_ID (ma_assetId a)
          \<and> safePathString (opt_str (ma_sourcePath a))
        then AList.update (ma_assetId a) (opt_str (ma_sourcePath a)) out else out) acc bs)
      \<le> length acc + length bs" for acc bs
  proof (induction bs arbitrary: acc)
    case (Cons b bs)
    show ?case
      using Cons [of acc] Cons [of "AList.update (ma_assetId b) (opt_str (ma_sourcePath b)) acc"]
        upd [of "ma_assetId b" "opt_str (ma_sourcePath b)" acc]
      by auto
  qed simp
  from this [of "[]" "take MAX_MEDIA_SOURCE_PATHS as"] show ?thesis by (simp add: collect_media_def)
qed

lemma keep_collect_media: "keep_media (collect_media as) = collect_media as"
proof -
  have "keep_media (collect_media as) = [] @ collect_media as"
    unfolding keep_media_def take_all [OF collect_media_length]
    by (rule keep_media_rebuild) (auto simp: collect_media_distinct dest: collect_media_good)
  then show ?thesis by simp
qed

lemma localMedia_safe:
  "localMediaSourcePaths n = Some ps \<Longrightarrow> safeMediaSourcePaths ps = Some ps"
  by (auto simp: localMediaSourcePaths_def some_if_nonempty_def keep_collect_media
      split: option.splits if_splits)

lemma restore_cleared:
  assumes settled: "list_all asset_settled as" and dist: "distinct (map ma_assetId as)"
    and a: "a \<in> set as"
  shows "restore_asset (JObj (asset_entries as)) (clear_source a) = a"
proof -
  have d: "distinct (map fst (asset_entries as))"
    using dist by (simp add: asset_entries_def comp_def distinct_map_filter)
  show ?thesis
  proof (cases "ma_sourcePath a")
    case None
    have "ma_assetId a \<notin> fst ` set (asset_entries as)"
    proof
      assume "ma_assetId a \<in> fst ` set (asset_entries as)"
      then obtain b where "b \<in> set as" "ma_sourcePath b \<noteq> None" "ma_assetId b = ma_assetId a"
        by (auto simp: asset_entries_def)
      with dist a None show False by (metis distinct_map inj_on_def)
    qed
    then have "map_of (asset_entries as) (ma_assetId a) = None" by (simp add: map_of_eq_None_iff)
    then have "js_prop (JObj (asset_entries as)) (ma_assetId a) = JUndef"
      by (simp add: js_prop.simps(1))
    with None show ?thesis by (simp add: restore_asset_def clear_source_id)
  next
    case (Some s)
    then have "(ma_assetId a, JStr s) \<in> set (asset_entries as)"
      using a by (force simp: asset_entries_def)
    with d have "js_prop (JObj (asset_entries as)) (ma_assetId a) = JStr s"
      by (simp add: js_prop.simps(1))
    moreover have "s \<noteq> []"
      using settled a Some by (auto simp: list_all_iff asset_settled_def safePathString_def path_ok_def)
    ultimately show ?thesis using Some
      by (simp add: restore_asset_def) (simp add: clear_source_def)
  qed
qed

section \<open>Properties\<close>

text \<open>What stripping must not touch: everything that is not machine-local.\<close>

definition shared_view :: "canvas_node \<Rightarrow> canvas_node" where
  "shared_view n =
     n\<lparr>n_cwd := None, n_shell := None, n_terminalProfileId := None, n_namedTerminalProfileId := None,
       n_pendingLaunch := None, n_ssh := map_option strip_ssh (n_ssh n), n_serviceConnection := None,
       n_openWebUiLocalBinding := None, n_nextcloudManagedBinding := None,
       n_awsIdentityBinding := None, n_nsisLocalPaths := None, n_virtualMachineLocalPaths := None,
       n_filePath := (if photo_or_video n then None else n_filePath n),
       n_mediaAssets := (if media_node n then map_option (map clear_source) (n_mediaAssets n)
                         else n_mediaAssets n)\<rparr>"

lemma shared_view_strip: "shared_view (stripNodeExec n) = shared_view n"
proof -
  have m: "map_option (map clear_source) (map_option (map clear_source) x)
      = map_option (map clear_source) x" for x :: "media_asset list option"
    by (cases x) simp_all
  have s: "map_option strip_ssh (map_option strip_ssh x) = map_option strip_ssh x" for x
    by (cases x) simp_all
  show ?thesis
    unfolding shared_view_def strip_kind
    by (rule canvas_node.equality) (simp_all add: stripNodeExec_eq m s)
qed


lemma applyExecEntry_strip: "applyExecEntry E e (stripNodeExec n) = applyExecEntry E e n"
  by (simp add: applyExecEntry_def)

text \<open>
  C13. A project file contributes nothing to what runs here: two files that agree after stripping
  give the same nodes, whatever they put in the machine-local fields, and with no local entry the
  result is the stripped node itself.
\<close>

theorem project_file_contributes_nothing:
  assumes "stripSharedNodeExec ns = stripSharedNodeExec ns'"
  shows "applyLocalNodeExec E ns L = applyLocalNodeExec E ns' L
    \<and> applyLocalNodeExec E ns None = stripSharedNodeExec ns"
proof
  have "applyLocalNodeExec E xs L = applyLocalNodeExec E (stripSharedNodeExec xs) L" for xs
    by (simp add: applyLocalNodeExec_def stripSharedNodeExec_def applyExecEntry_strip comp_def)
  with assms show "applyLocalNodeExec E ns L = applyLocalNodeExec E ns' L" by metis
  have "applyExecEntry E no_exec n = stripNodeExec n" for n
    by (simp add: applyExecEntry_def no_exec_def opt_truthy_def Let_def restoreMediaPaths_def)
  then show "applyLocalNodeExec E ns None = stripSharedNodeExec ns"
    by (simp add: applyLocalNodeExec_def stripSharedNodeExec_def)
qed

definition example_env :: js_env where
  "example_env =
     \<lparr>parse_url = (\<lambda>s. if s = ''https://h/'' then
          Some \<lparr>u_protocol = ''https:'', u_username = [], u_password = [], u_hostname = ''h'',
                u_port = None, u_pathname = ''/'', u_search = [], u_hash = [], u_href = ''https://h/''\<rparr>
        else None),
      to_text = (\<lambda>_. []), date_ok = (\<lambda>_. True)\<rparr>"

definition hostile_node :: canvas_node where
  "hostile_node = (blank_node ''a'' ''terminal'')\<lparr>n_shell := Some ''/tmp/evil''\<rparr>"

theorem project_file_contributes_nothing_witness:
  "applyLocalNodeExec example_env [hostile_node] None
   = applyLocalNodeExec example_env [blank_node ''a'' ''terminal''] None"
proof -
  have "stripSharedNodeExec [hostile_node] = stripSharedNodeExec [blank_node ''a'' ''terminal'']"
    by (simp add: stripSharedNodeExec_def stripNodeExec_eq hostile_node_def blank_node_def
        photo_or_video_def media_node_def)
  from project_file_contributes_nothing [OF this] show ?thesis by blast
qed

text \<open>
  The nodes this machine's own code makes: every local value is one that its validator returns
  unchanged, and the ssh arguments are marked as ours.
\<close>

definition settled :: "(jsval \<Rightarrow> jsval option) \<Rightarrow> jsval option \<Rightarrow> bool" where
  "settled V x \<longleftrightarrow> x = None \<or> V (opt_val x) = x"

definition ssh_settled :: "ssh_conn option \<Rightarrow> bool" where
  "ssh_settled s \<longleftrightarrow>
     (case s of
        None \<Rightarrow> True
      | Some c \<Rightarrow> (ssh_extraArgs c = None \<and> ssh_execTrusted c = None)
                 \<or> (opt_truthy (ssh_extraArgs c) \<and> ssh_execTrusted c = Some True))"

definition media_settled :: "canvas_node \<Rightarrow> bool" where
  "media_settled n \<longleftrightarrow>
     (photo_or_video n \<longrightarrow> n_filePath n = None \<or> safePathString (opt_str (n_filePath n)))
     \<and> (media_node n \<longrightarrow>
         (case n_mediaAssets n of
            None \<Rightarrow> True
          | Some as \<Rightarrow> list_all asset_settled as \<and> distinct (map ma_assetId as)
                       \<and> length as \<le> MAX_MEDIA_SOURCE_PATHS))"

definition node_settled :: "js_env \<Rightarrow> canvas_node \<Rightarrow> bool" where
  "node_settled E n \<longleftrightarrow>
     (n_shell n = None \<or> (opt_truthy (n_shell n) \<and> safeSessionProgram (n_shell n) \<noteq> None))
     \<and> (n_namedTerminalProfileId n \<noteq> None \<longrightarrow> n_cwd n = None \<or> safePathString (opt_str (n_cwd n)))
     \<and> ssh_settled (n_ssh n)
     \<and> (n_pendingLaunch n = None
        \<or> (n_kind n = ''terminal'' \<and> settled clonePendingLaunch (n_pendingLaunch n)))
     \<and> settled (safeServiceConnection E) (n_serviceConnection n)
     \<and> (n_openWebUiLocalBinding n = None
        \<or> (n_kind n = ''open-webui-hosting''
           \<and> settled (safeOpenWebUiLocalBinding E) (n_openWebUiLocalBinding n)))
     \<and> settled (normalizeAwsIdentityBinding E) (n_awsIdentityBinding n)
     \<and> (n_nextcloudManagedBinding n = None
        \<or> (n_kind n = ''nextcloud-managed''
           \<and> settled validateNextcloudManagedBinding (n_nextcloudManagedBinding n)))
     \<and> settled safeNsisLocalPaths (n_nsisLocalPaths n)
     \<and> (n_virtualMachineLocalPaths n = None
        \<or> (Some (vm_of (n_virtualMachineLocalPaths n)) = n_virtualMachineLocalPaths n
           \<and> has_vm_path (vm_of (n_virtualMachineLocalPaths n))))
     \<and> media_settled n"

lemma settled_twice:
  "V JUndef = None \<Longrightarrow> settled V x \<Longrightarrow> V (opt_val (V (opt_val x))) = x"
  by (cases x) (auto simp: settled_def)

lemma settled_once: "V JUndef = None \<Longrightarrow> settled V x \<Longrightarrow> V (opt_val x) = x"
  by (cases x) (auto simp: settled_def)

lemma restore_settled:
  assumes "media_settled n"
  shows "restoreMediaPaths (n\<lparr>n_filePath := (if photo_or_video n then None else n_filePath n),
       n_mediaAssets := (if media_node n then map_option (map clear_source) (n_mediaAssets n)
                         else n_mediaAssets n)\<rparr>)
     (if photo_or_video n \<and> safePathString (opt_str (n_filePath n)) then n_filePath n else None)
     (localMediaSourcePaths n) = n" (is "restoreMediaPaths ?m ?f ?l = n")
proof (cases "media_node n")
  case False
  then have "\<not> photo_or_video n" by (simp add: media_node_def)
  with False show ?thesis
    by (auto simp: restoreMediaPaths_def media_node_def photo_or_video_def
        intro!: canvas_node.equality)
next
  case True
  have kinds: "media_node ?m" "photo_or_video ?m = photo_or_video n"
    using True by (simp_all add: media_node_def photo_or_video_def)
  define f where "f = ?f"
  have ff: "(if safePathString (opt_str f) then f else None) = f"
    by (simp add: f_def)
  have fpath: "(if photo_or_video n \<and> f \<noteq> None then f
       else if photo_or_video n then None else n_filePath n) = n_filePath n"
    using assms by (auto simp: media_settled_def f_def)
  have sm: "safeMediaSourcePaths (opt_val ?l) = ?l"
    by (cases "localMediaSourcePaths n") (simp_all add: localMedia_safe)
  have assets: "(case ?l of None \<Rightarrow> map_option (map clear_source) (n_mediaAssets n)
      | Some ps \<Rightarrow> map_option (map (restore_asset ps))
                     (map_option (map clear_source) (n_mediaAssets n))) = n_mediaAssets n"
  proof (cases "n_mediaAssets n")
    case None
    then show ?thesis by (simp add: localMediaSourcePaths_def)
  next
    case (Some as)
    with assms True have ok: "list_all asset_settled as" "distinct (map ma_assetId as)"
        "length as \<le> MAX_MEDIA_SOURCE_PATHS"
      by (simp_all add: media_settled_def)
    have c: "collect_media as = asset_entries as" by (rule collect_media_settled [OF ok])
    show ?thesis
    proof (cases "asset_entries as = []")
      case True
      then have "\<not> list_ex (\<lambda>a. ma_sourcePath a \<noteq> None) as"
        by (auto simp: asset_entries_def filter_empty_conv list_ex_iff)
      with True Some show ?thesis
        by (simp add: localMediaSourcePaths_def some_if_nonempty_def c map_clear_source_id)
    next
      case False
      have "map (restore_asset (JObj (asset_entries as))) (map clear_source as) = as"
        by (auto simp: restore_cleared [OF ok(1,2)] intro!: map_idI)
      with False Some show ?thesis
        by (simp add: localMediaSourcePaths_def some_if_nonempty_def c)
    qed
  qed
  have "restoreMediaPaths ?m f ?l = n"
  proof (cases "f = None \<and> ?l = None")
    case c: True
    then have r: "restoreMediaPaths ?m f ?l = ?m"
      by (simp add: restoreMediaPaths_def kinds sm ff)
    have "(if photo_or_video n then None else n_filePath n) = n_filePath n"
      using fpath c by auto
    moreover have "map_option (map clear_source) (n_mediaAssets n) = n_mediaAssets n"
      using assets c by simp
    ultimately show ?thesis unfolding r using True by (intro canvas_node.equality) simp_all
  next
    case c: False
    then have "restoreMediaPaths ?m f ?l =
       ?m\<lparr>n_filePath := n_filePath n, n_mediaAssets := n_mediaAssets n\<rparr>"
      unfolding restoreMediaPaths_def Let_def kinds(2) sm ff
      using kinds(1) fpath assets True
      by (cases "photo_or_video n"; cases "f = None"; cases ?l; intro canvas_node.equality) simp_all
    then show ?thesis by (auto intro!: canvas_node.equality)
  qed
  then show ?thesis by (simp only: f_def)
qed

lemma restore_fields:
  "restoreMediaPaths n f l =
     n\<lparr>n_filePath := n_filePath (restoreMediaPaths n f l),
       n_mediaAssets := n_mediaAssets (restoreMediaPaths n f l)\<rparr>"
  by (simp add: restoreMediaPaths_def Let_def)

lemma restore_congs:
  assumes "n_kind m = n_kind n" "n_filePath m = n_filePath n" "n_mediaAssets m = n_mediaAssets n"
  shows "n_filePath (restoreMediaPaths m f l) = n_filePath (restoreMediaPaths n f l)
    \<and> n_mediaAssets (restoreMediaPaths m f l) = n_mediaAssets (restoreMediaPaths n f l)"
  using assms
  by (cases "safeMediaSourcePaths (opt_val l)")
    (simp_all add: restoreMediaPaths_def Let_def media_node_def photo_or_video_def)

lemma restore_other [simp]:
  "n_id (restoreMediaPaths n f l) = n_id n" "n_kind (restoreMediaPaths n f l) = n_kind n"
  "n_creationEventId (restoreMediaPaths n f l) = n_creationEventId n"
  "n_x (restoreMediaPaths n f l) = n_x n" "n_y (restoreMediaPaths n f l) = n_y n"
  "n_title (restoreMediaPaths n f l) = n_title n" "n_group (restoreMediaPaths n f l) = n_group n"
  "n_universeCanvasId (restoreMediaPaths n f l) = n_universeCanvasId n"
  "n_nonDeletable (restoreMediaPaths n f l) = n_nonDeletable n"
  "n_cwd (restoreMediaPaths n f l) = n_cwd n" "n_shell (restoreMediaPaths n f l) = n_shell n"
  "n_terminalProfileId (restoreMediaPaths n f l) = n_terminalProfileId n"
  "n_namedTerminalProfileId (restoreMediaPaths n f l) = n_namedTerminalProfileId n"
  "n_pendingLaunch (restoreMediaPaths n f l) = n_pendingLaunch n"
  "n_clearEnv (restoreMediaPaths n f l) = n_clearEnv n" "n_ssh (restoreMediaPaths n f l) = n_ssh n"
  "n_serviceConnection (restoreMediaPaths n f l) = n_serviceConnection n"
  "n_openWebUiLocalBinding (restoreMediaPaths n f l) = n_openWebUiLocalBinding n"
  "n_nextcloudManagedBinding (restoreMediaPaths n f l) = n_nextcloudManagedBinding n"
  "n_awsIdentityBinding (restoreMediaPaths n f l) = n_awsIdentityBinding n"
  "n_nsisLocalPaths (restoreMediaPaths n f l) = n_nsisLocalPaths n"
  "n_virtualMachineLocalPaths (restoreMediaPaths n f l) = n_virtualMachineLocalPaths n"
  "n_rest (restoreMediaPaths n f l) = n_rest n"
  by (simp_all add: restoreMediaPaths_def Let_def)

lemma ssh_roundtrip:
  assumes "ssh_settled s"
  shows "(let x = Option.bind s ssh_extraArgs;
              e = (if opt_truthy x \<and> (Option.bind s ssh_execTrusted = Some True
                      \<or> \<not> sshExtraArgsEnableLocalExec x) then x else None)
          in if opt_truthy e
             then map_option (\<lambda>c. c\<lparr>ssh_extraArgs := e, ssh_execTrusted := Some True\<rparr>)
                    (map_option strip_ssh s)
             else map_option strip_ssh s) = s"
proof (cases s)
  case (Some c)
  with assms show ?thesis
    by (cases "ssh_extraArgs c = None")
      (auto simp: ssh_settled_def strip_ssh_def opt_truthy_def Let_def intro!: ssh_conn.equality)
qed (simp add: opt_truthy_def)

text \<open>The fields of a node after the local entry is applied.\<close>

lemma apply_fields:
  "n_shell (applyExecEntry E e n) = (if opt_truthy (le_shell e) then le_shell e else None)"
  "n_terminalProfileId (applyExecEntry E e n) = le_terminalProfileId e"
  "n_namedTerminalProfileId (applyExecEntry E e n) = le_namedTerminalProfileId e"
  "n_cwd (applyExecEntry E e n) =
     (if le_namedTerminalProfileCwd e \<noteq> None then le_namedTerminalProfileCwd e
      else if n_namedTerminalProfileId n \<noteq> None then None else n_cwd n)"
  "n_ssh (applyExecEntry E e n) =
     (if opt_truthy (le_sshExtraArgs e)
      then map_option (\<lambda>c. c\<lparr>ssh_extraArgs := le_sshExtraArgs e, ssh_execTrusted := Some True\<rparr>)
             (map_option strip_ssh (n_ssh n))
      else map_option strip_ssh (n_ssh n))"
  "n_pendingLaunch (applyExecEntry E e n) =
     (if n_kind n = ''terminal'' then clonePendingLaunch (opt_val (le_pendingLaunch e)) else None)"
  "n_serviceConnection (applyExecEntry E e n) =
     safeServiceConnection E (opt_val (le_serviceConnection e))"
  "n_openWebUiLocalBinding (applyExecEntry E e n) =
     (if n_kind n = ''open-webui-hosting''
      then safeOpenWebUiLocalBinding E (opt_val (le_openWebUiLocalBinding e)) else None)"
  "n_awsIdentityBinding (applyExecEntry E e n) =
     normalizeAwsIdentityBinding E (opt_val (le_awsIdentityBinding e))"
  "n_nextcloudManagedBinding (applyExecEntry E e n) =
     (if n_kind n = ''nextcloud-managed''
      then validateNextcloudManagedBinding (opt_val (le_nextcloudManagedBinding e)) else None)"
  "n_nsisLocalPaths (applyExecEntry E e n) = safeNsisLocalPaths (opt_val (le_nsisLocalPaths e))"
  "n_virtualMachineLocalPaths (applyExecEntry E e n) =
     (if has_vm_path (vm_of (le_virtualMachineLocalPaths e))
      then Some (vm_of (le_virtualMachineLocalPaths e)) else None)"
  by (simp_all add: applyExecEntry_def Let_def strip_cwd) (simp_all add: stripNodeExec_eq)

lemma apply_rest:
  "n_id (applyExecEntry E e n) = n_id n" "n_kind (applyExecEntry E e n) = n_kind n"
  "n_creationEventId (applyExecEntry E e n) = n_creationEventId n"
  "n_x (applyExecEntry E e n) = n_x n" "n_y (applyExecEntry E e n) = n_y n"
  "n_title (applyExecEntry E e n) = n_title n" "n_group (applyExecEntry E e n) = n_group n"
  "n_universeCanvasId (applyExecEntry E e n) = n_universeCanvasId n"
  "n_nonDeletable (applyExecEntry E e n) = n_nonDeletable n"
  "n_clearEnv (applyExecEntry E e n) = n_clearEnv n" "n_rest (applyExecEntry E e n) = n_rest n"
  "canvas_node.more (applyExecEntry E e n) = canvas_node.more n"
  by (simp_all add: applyExecEntry_def Let_def) (simp_all add: stripNodeExec_eq restoreMediaPaths_def Let_def)

lemma apply_media:
  assumes "media_settled n"
  shows "n_filePath (applyExecEntry E (localExecEntry E n) n) = n_filePath n
    \<and> n_mediaAssets (applyExecEntry E (localExecEntry E n) n) = n_mediaAssets n"
proof -
  let ?m = "n\<lparr>n_filePath := (if photo_or_video n then None else n_filePath n),
     n_mediaAssets := (if media_node n then map_option (map clear_source) (n_mediaAssets n)
                       else n_mediaAssets n)\<rparr>"
  let ?f = "if photo_or_video n \<and> safePathString (opt_str (n_filePath n)) then n_filePath n else None"
  have "n_filePath (applyExecEntry E (localExecEntry E n) n)
        = n_filePath (restoreMediaPaths ?m ?f (localMediaSourcePaths n))
      \<and> n_mediaAssets (applyExecEntry E (localExecEntry E n) n)
        = n_mediaAssets (restoreMediaPaths ?m ?f (localMediaSourcePaths n))"
    unfolding applyExecEntry_def Let_def
    by (simp only: localExecEntry_def local_exec.simps)
      (rule restore_congs; simp add: stripNodeExec_eq)
  then show ?thesis by (simp add: restore_settled [OF assms])
qed

lemma vm_roundtrip:
  "v = None \<or> (Some (vm_of v) = v \<and> has_vm_path (vm_of v)) \<Longrightarrow>
   (if has_vm_path (vm_of (let p = vm_of v in if has_vm_path p then Some p else None))
    then Some (vm_of (let p = vm_of v in if has_vm_path p then Some p else None)) else None) = v"
  by (cases v) (auto simp: Let_def)

lemma roundtrip_one:
  assumes "node_settled E n"
  shows "applyExecEntry E (localExecEntry E n) n = n"
proof (rule canvas_node.equality)
  note s = assms [unfolded node_settled_def]
  let ?r = "applyExecEntry E (localExecEntry E n) n"
  note simps = apply_fields localExecEntry_def
  show "n_filePath ?r = n_filePath n" "n_mediaAssets ?r = n_mediaAssets n"
    using apply_media [of n E] s by auto
  show "n_pendingLaunch ?r = n_pendingLaunch n"
    using s settled_twice [of clonePendingLaunch "n_pendingLaunch n"] by (auto simp: simps)
  show "n_serviceConnection ?r = n_serviceConnection n"
    using s settled_twice [of "safeServiceConnection E" "n_serviceConnection n"] by (simp add: simps)
  show "n_openWebUiLocalBinding ?r = n_openWebUiLocalBinding n"
    using s settled_twice [of "safeOpenWebUiLocalBinding E" "n_openWebUiLocalBinding n"]
    by (auto simp: simps)
  show "n_nextcloudManagedBinding ?r = n_nextcloudManagedBinding n"
    using s settled_twice [of validateNextcloudManagedBinding "n_nextcloudManagedBinding n"]
    by (auto simp: simps)
  show "n_awsIdentityBinding ?r = n_awsIdentityBinding n"
    using s settled_twice [of "normalizeAwsIdentityBinding E" "n_awsIdentityBinding n"]
    by (simp add: simps)
  show "n_nsisLocalPaths ?r = n_nsisLocalPaths n"
    using s settled_twice [of safeNsisLocalPaths "n_nsisLocalPaths n"] by (simp add: simps)
  show "n_virtualMachineLocalPaths ?r = n_virtualMachineLocalPaths n"
  proof -
    from s have "n_virtualMachineLocalPaths n = None
        \<or> (Some (vm_of (n_virtualMachineLocalPaths n)) = n_virtualMachineLocalPaths n
           \<and> has_vm_path (vm_of (n_virtualMachineLocalPaths n)))" by blast
    from vm_roundtrip [OF this] show ?thesis by (simp only: simps local_exec.simps)
  qed
  show "n_shell ?r = n_shell n" using s by (auto simp: simps)
  show "n_cwd ?r = n_cwd n" using s by (auto simp: simps)
  show "n_ssh ?r = n_ssh n"
  proof -
    from s have "ssh_settled (n_ssh n)" by blast
    from ssh_roundtrip [OF this] show ?thesis by (simp only: simps local_exec.simps Let_def)
  qed
  show "n_terminalProfileId ?r = n_terminalProfileId n"
    "n_namedTerminalProfileId ?r = n_namedTerminalProfileId n" by (simp_all add: simps)
qed (simp_all add: apply_rest)

lemma local_map_fold:
  assumes "distinct (map n_id ns)" "fst ` set acc \<inter> n_id ` set ns = {}"
  shows "map_of (foldl (\<lambda>m n. let e = localExecEntry E n in
                 if entry_kept e then AList.update (n_id n) e m else m) acc ns) k
       = (case lookup_by n_id ns k of
            Some n \<Rightarrow> if entry_kept (localExecEntry E n) then Some (localExecEntry E n) else map_of acc k
          | None \<Rightarrow> map_of acc k)"
  using assms
proof (induction ns arbitrary: acc)
  case (Cons n ns)
  let ?acc = "if entry_kept (localExecEntry E n) then AList.update (n_id n) (localExecEntry E n) acc
              else acc"
  have keys: "fst ` set (AList.update j x l) = insert j (fst ` set l)" for j x and l :: "(string \<times> local_exec) list"
    using dom_update [of j x l] by simp
  have "fst ` set ?acc \<inter> n_id ` set ns = {}"
    using Cons.prems by (auto simp: keys)
  from Cons.IH [OF _ this] Cons.prems(1) have ih: "map_of (foldl (\<lambda>m n. let e = localExecEntry E n in
                 if entry_kept e then AList.update (n_id n) e m else m) ?acc ns) k
       = (case lookup_by n_id ns k of
            Some n \<Rightarrow> if entry_kept (localExecEntry E n) then Some (localExecEntry E n) else map_of ?acc k
          | None \<Rightarrow> map_of ?acc k)" by simp
  have "n_id n = k \<Longrightarrow> lookup_by n_id ns k = None"
    using Cons.prems(1) by (auto simp: lookup_by_None)
  moreover have "n_id n = k \<Longrightarrow> map_of acc k = None"
    using Cons.prems(2) by (auto simp: map_of_eq_None_iff)
  ultimately show ?case
    using ih by (auto simp: Let_def update_conv split: option.splits if_splits)
qed simp

lemma localNodeExec_lookup:
  assumes "distinct (map n_id ns)" "n \<in> set ns"
  shows "Option.bind (localNodeExec E ns) (\<lambda>m. map_of m (n_id n))
       = (if entry_kept (localExecEntry E n) then Some (localExecEntry E n) else None)"
proof -
  have "lookup_by n_id ns (n_id n) = Some n"
    using assms by (induction ns) auto
  with local_map_fold [OF assms(1), of "[]" E "n_id n"] show ?thesis
    by (auto simp: localNodeExec_def Let_def split: if_splits)
qed

lemma entry_not_kept:
  assumes "\<not> entry_kept e" "e = localExecEntry E n"
  shows "e = no_exec"
proof -
  have t: "x = None" if "\<not> opt_truthy (if opt_truthy y \<and> P then y else None)"
      "x = (if opt_truthy y \<and> P then y else None)" for x y P
    using that by (auto split: if_splits)
  have "le_shell e = None"
    using assms by (intro t [of "n_shell n" "safeSessionProgram (n_shell n) \<noteq> None"])
      (simp_all add: entry_kept_def localExecEntry_def)
  moreover have "le_sshExtraArgs e = None"
    using assms
    by (intro t [of "Option.bind (n_ssh n) ssh_extraArgs" "Option.bind (n_ssh n) ssh_execTrusted = Some True
               \<or> \<not> sshExtraArgsEnableLocalExec (Option.bind (n_ssh n) ssh_extraArgs)"])
      (simp_all add: entry_kept_def localExecEntry_def Let_def)
  moreover have "le_mediaFilePath e = None"
    using assms by (auto simp: entry_kept_def localExecEntry_def opt_truthy_def safePathString_def
        path_ok_def split: if_splits)
  ultimately show ?thesis
    using assms(1) by (intro local_exec.equality) (simp_all add: entry_kept_def no_exec_def)
qed

text \<open>
  C2. What the shared file must not hold is not lost: a canvas of this machine's own nodes that is
  written to the project file, stripped, and to the local index, harvested, is read back as it was,
  field by field, however the stripped copy travelled.
\<close>

theorem local_values_roundtrip:
  assumes "distinct (map n_id ns)" "\<And>n. n \<in> set ns \<Longrightarrow> node_settled E n"
  shows "applyLocalNodeExec E (stripSharedNodeExec ns) (localNodeExec E ns) = ns"
proof -
  have "applyExecEntry E (case Option.bind (localNodeExec E ns) (\<lambda>m. map_of m (n_id n)) of
          None \<Rightarrow> no_exec | Some e \<Rightarrow> e) (stripNodeExec n) = n" if "n \<in> set ns" for n
    using localNodeExec_lookup [OF assms(1) that, of E] roundtrip_one [OF assms(2) [OF that]]
      entry_not_kept [of "localExecEntry E n" E n]
    by (auto simp: applyExecEntry_strip)
  then show ?thesis
    by (auto simp: applyLocalNodeExec_def stripSharedNodeExec_def intro!: map_idI)
qed

definition own_node :: canvas_node where
  "own_node = (blank_node ''t'' ''terminal'')\<lparr>n_shell := Some ''/bin/zsh'', n_cwd := Some ''/w'',
     n_namedTerminalProfileId := Some ''p'',
     n_ssh := Some \<lparr>ssh_host = ''h'', ssh_user = ''u'', ssh_port = None, ssh_identityFile = None,
       ssh_extraArgs = Some ''-o ProxyCommand=x'', ssh_execTrusted = Some True, ssh_rest = []\<rparr>\<rparr>"

lemma own_node_settled: "node_settled E own_node"
proof -
  have "safeSessionProgram (Some ''/bin/zsh'') = Some ''/bin/zsh''" by code_simp
  moreover have "safePathString (JStr ''/w'')" by code_simp
  ultimately show ?thesis
    by (simp add: node_settled_def own_node_def blank_node_def settled_def ssh_settled_def
        media_settled_def opt_truthy_def photo_or_video_def media_node_def)
qed

theorem local_values_roundtrip_witness:
  "applyLocalNodeExec example_env (stripSharedNodeExec [own_node])
     (localNodeExec example_env [own_node]) = [own_node]"
  by (rule local_values_roundtrip) (simp_all add: own_node_settled)

section \<open>The trusted store\<close>

lemma local_map_entries:
  "(k, e) \<in> set (foldl (\<lambda>m n. let e = localExecEntry E n in
       if entry_kept e then AList.update (n_id n) e m else m) acc ns) \<Longrightarrow>
   (k, e) \<in> set acc \<or> (\<exists>n \<in> set ns. n_id n = k \<and> e = localExecEntry E n)"
proof (induction ns arbitrary: acc)
  case (Cons n ns)
  have upd: "(k, e) \<in> set (AList.update j x l) \<Longrightarrow> (k, e) \<in> set l \<or> (k = j \<and> e = x)"
    for j x and l :: "(string \<times> local_exec) list"
    by (induction l) (auto split: if_splits)
  from Cons.IH [of "if entry_kept (localExecEntry E n)
      then AList.update (n_id n) (localExecEntry E n) acc else acc"] Cons.prems
  show ?case by (auto simp: Let_def dest: upd split: if_splits)
qed simp

text \<open>
  C10. The index that is trusted on every later load blesses only what the exec sites would accept:
  each entry is harvested from a node of that id, its session program passes the check of the place
  where it becomes a command, its ssh arguments are this machine's own or free of every spelling of
  an exec-enabling option that the filter knows, its delayed launch and its service connection are
  the validators' own output, and the endpoint of the connection holds no password.
\<close>

theorem index_blesses_only_safe:
  assumes "localNodeExec E ns = Some m" "(k, e) \<in> set m"
  shows "\<exists>n \<in> set ns. n_id n = k \<and> e = localExecEntry E n
    \<and> (\<forall>s. le_shell e = Some s \<longrightarrow> SAFE_PROGRAM (trim s) \<and> \<not> starts_with ''-'' (trim s))
    \<and> (\<forall>a. le_sshExtraArgs e = Some a \<longrightarrow>
          Option.bind (n_ssh n) ssh_execTrusted = Some True \<or> exec_free (parseExtraArgs (Some a)))
    \<and> (\<forall>v. le_pendingLaunch e = Some v \<longrightarrow> clonePendingLaunch v = Some v \<and> n_kind n = ''terminal'')
    \<and> (\<forall>v. le_serviceConnection e = Some v \<longrightarrow> (\<exists>s u. js_prop v ''endpoint'' = JStr s
          \<and> parse_url E s = Some u \<and> u_password u = []))"
proof -
  from assms have "(k, e) \<in> set (foldl (\<lambda>m n. let e = localExecEntry E n in
       if entry_kept e then AList.update (n_id n) e m else m) [] ns)"
    by (simp add: localNodeExec_def Let_def split: if_splits)
  from local_map_entries [OF this] obtain n where n: "n \<in> set ns" "n_id n = k"
    and e: "e = localExecEntry E n" by auto
  have "SAFE_PROGRAM (trim s) \<and> \<not> starts_with ''-'' (trim s)" if "le_shell e = Some s" for s
    using that by (auto simp: e localExecEntry_def safeSessionProgram_def Let_def split: if_splits)
  moreover have "Option.bind (n_ssh n) ssh_execTrusted = Some True \<or> exec_free (parseExtraArgs (Some a))"
    if "le_sshExtraArgs e = Some a" for a
    using that by (auto simp: e localExecEntry_def Let_def sshExtraArgsEnableLocalExec_def
        strip_nothing_dropped split: if_splits)
  moreover have "clonePendingLaunch v = Some v \<and> n_kind n = ''terminal''"
    if "le_pendingLaunch e = Some v" for v
    using that by (auto simp: e localExecEntry_def clonePendingLaunch_idem split: if_splits)
  moreover have "\<exists>s u. js_prop v ''endpoint'' = JStr s \<and> parse_url E s = Some u \<and> u_password u = []"
    if "le_serviceConnection e = Some v" for v
    using that by (auto simp: e localExecEntry_def safeServiceConnection_def safeServiceEndpoint_def
        Let_def dest!: str_that_D split: if_splits option.splits)
  ultimately show ?thesis using n e by blast
qed

theorem index_blesses_only_safe_witness:
  "SAFE_PROGRAM (trim ''/bin/zsh'')"
proof -
  have sh: "safeSessionProgram (Some ''/bin/zsh'') = Some ''/bin/zsh''" by code_simp
  let ?n = "(blank_node ''t'' ''terminal'')\<lparr>n_shell := Some ''/bin/zsh''\<rparr>"
  have le: "le_shell (localExecEntry example_env ?n) = Some ''/bin/zsh''"
    by (simp add: localExecEntry_def opt_truthy_def sh)
  then have "localNodeExec example_env [?n] = Some [(''t'', localExecEntry example_env ?n)]"
    by (simp add: localNodeExec_def entry_kept_def opt_truthy_def Let_def blank_node_def)
  from index_blesses_only_safe [OF this, of "''t''" "localExecEntry example_env ?n"] le
  show ?thesis by simp
qed

section \<open>A peer's mutation\<close>

text \<open>The fields of a peer's node after it was stripped and ours were carried over.\<close>

lemma carry_fields:
  fixes E p q
  defines "out \<equiv> carryLocalNodeExec E (Some p) (sanitizeInboundNode q)"
  shows "n_shell out = n_shell p"
    and "n_terminalProfileId out = n_terminalProfileId p"
    and "n_namedTerminalProfileId out = n_namedTerminalProfileId p"
    and "n_serviceConnection out = None"
    and "n_clearEnv out = n_clearEnv q"
    and "n_kind out = n_kind q" and "n_id out = n_id q"
    and "n_awsIdentityBinding out = normalizeAwsIdentityBinding E (opt_val (n_awsIdentityBinding p))"
    and "n_nsisLocalPaths out = safeNsisLocalPaths (opt_val (n_nsisLocalPaths p))"
    and "n_pendingLaunch out = (if n_kind q = ''terminal''
           then clonePendingLaunch (opt_val (n_pendingLaunch p)) else None)"
    and "n_openWebUiLocalBinding out = (if n_kind p = ''open-webui-hosting''
           then n_openWebUiLocalBinding p else None)"
    and "n_nextcloudManagedBinding out =
           (if n_kind p = ''nextcloud-managed'' \<and> n_kind q = ''nextcloud-managed''
            then validateNextcloudManagedBinding (opt_val (n_nextcloudManagedBinding p)) else None)"
    and "n_virtualMachineLocalPaths out = (let v = vm_of (n_virtualMachineLocalPaths p) in
           if js_keys v \<noteq> [] then Some v else None)"
    and "n_cwd out = (if n_namedTerminalProfileId p \<noteq> None \<and> n_cwd p \<noteq> None then n_cwd p
           else n_cwd (stripNodeExec q))"
    and "n_ssh out = (if Option.bind (n_ssh p) ssh_extraArgs \<noteq> None
           then map_option (\<lambda>c. c\<lparr>ssh_extraArgs := Option.bind (n_ssh p) ssh_extraArgs,
                  ssh_execTrusted := Option.bind (n_ssh p) ssh_execTrusted\<rparr>)
                  (map_option strip_ssh (n_ssh q))
           else map_option strip_ssh (n_ssh q))"
proof -
  let ?q = "stripNodeExec q"
  have f: "n_shell ?q = None" "n_terminalProfileId ?q = None" "n_namedTerminalProfileId ?q = None"
    "n_serviceConnection ?q = None" "n_awsIdentityBinding ?q = None" "n_nsisLocalPaths ?q = None"
    "n_pendingLaunch ?q = None" "n_openWebUiLocalBinding ?q = None"
    "n_nextcloudManagedBinding ?q = None" "n_virtualMachineLocalPaths ?q = None"
    "n_clearEnv ?q = n_clearEnv q" "n_ssh ?q = map_option strip_ssh (n_ssh q)"
    by (simp_all add: stripNodeExec_eq)

  show "n_shell out = n_shell p" "n_terminalProfileId out = n_terminalProfileId p"
    "n_namedTerminalProfileId out = n_namedTerminalProfileId p"
    "n_serviceConnection out = None" "n_clearEnv out = n_clearEnv q"
    "n_kind out = n_kind q" "n_id out = n_id q"
    "n_awsIdentityBinding out = normalizeAwsIdentityBinding E (opt_val (n_awsIdentityBinding p))"
    "n_nsisLocalPaths out = safeNsisLocalPaths (opt_val (n_nsisLocalPaths p))"
    "n_pendingLaunch out = (if n_kind q = ''terminal''
           then clonePendingLaunch (opt_val (n_pendingLaunch p)) else None)"
    "n_openWebUiLocalBinding out = (if n_kind p = ''open-webui-hosting''
           then n_openWebUiLocalBinding p else None)"
    unfolding out_def carryLocalNodeExec_def sanitizeInboundNode_def Let_def
    by (simp_all add: f cong: if_cong)
  show "n_nextcloudManagedBinding out =
           (if n_kind p = ''nextcloud-managed'' \<and> n_kind q = ''nextcloud-managed''
            then validateNextcloudManagedBinding (opt_val (n_nextcloudManagedBinding p)) else None)"
    "n_virtualMachineLocalPaths out = (let v = vm_of (n_virtualMachineLocalPaths p) in
           if js_keys v \<noteq> [] then Some v else None)"
    "n_cwd out = (if n_namedTerminalProfileId p \<noteq> None \<and> n_cwd p \<noteq> None then n_cwd p
           else n_cwd (stripNodeExec q))"
    "n_ssh out = (if Option.bind (n_ssh p) ssh_extraArgs \<noteq> None
           then map_option (\<lambda>c. c\<lparr>ssh_extraArgs := Option.bind (n_ssh p) ssh_extraArgs,
                  ssh_execTrusted := Option.bind (n_ssh p) ssh_execTrusted\<rparr>)
                  (map_option strip_ssh (n_ssh q))
           else map_option strip_ssh (n_ssh q))"
    unfolding out_def carryLocalNodeExec_def sanitizeInboundNode_def Let_def
    by (simp_all add: f cong: if_cong)
qed

lemma restore_unless:
  assumes "C \<Longrightarrow> f = None \<and> l = None"
    and "n_kind m' = n_kind m" "n_filePath m' = n_filePath m" "n_mediaAssets m' = n_mediaAssets m"
  shows "n_filePath (if C then m else restoreMediaPaths m' f l) = n_filePath (restoreMediaPaths m f l)
    \<and> n_mediaAssets (if C then m else restoreMediaPaths m' f l)
        = n_mediaAssets (restoreMediaPaths m f l)"
proof (cases C)
  case True
  with assms(1) show ?thesis by (simp add: restoreMediaPaths_def)
next
  case False
  with restore_congs [OF assms(2-4)] show ?thesis by simp
qed

lemma carry_media:
  "n_filePath (carryLocalNodeExec E (Some p) m)
     = n_filePath (restoreMediaPaths m
         (if safePathString (opt_str (n_filePath p)) then n_filePath p else None)
         (localMediaSourcePaths p))
   \<and> n_mediaAssets (carryLocalNodeExec E (Some p) m)
     = n_mediaAssets (restoreMediaPaths m
         (if safePathString (opt_str (n_filePath p)) then n_filePath p else None)
         (localMediaSourcePaths p))"
  unfolding carryLocalNodeExec_def Let_def option.case
  by (rule restore_unless) simp_all

text \<open>The media paths harvested from a peer's node over ours are ours.\<close>

lemma collect_media_from:
  assumes "(k, v) \<in> set (collect_media as)"
  shows "\<exists>a \<in> set as. ma_assetId a = k \<and> opt_str (ma_sourcePath a) = v \<and> safePathString v"
proof -
  have upd: "(k, v) \<in> set (AList.update j x acc) \<Longrightarrow> (k, v) \<in> set acc \<or> (k = j \<and> v = x)"
    for j x and acc :: "(string \<times> jsval) list"
    by (induction acc) (auto split: if_splits)
  have "(k, v) \<in> set (foldl (\<lambda>out a. if SAFE_MEDIA_ASSET_ID (ma_assetId a)
          \<and> safePathString (opt_str (ma_sourcePath a))
        then AList.update (ma_assetId a) (opt_str (ma_sourcePath a)) out else out) acc bs) \<Longrightarrow>
      (k, v) \<in> set acc \<or>
      (\<exists>a \<in> set bs. ma_assetId a = k \<and> opt_str (ma_sourcePath a) = v \<and> safePathString v)" for acc bs
  proof (induction bs arbitrary: acc)
    case (Cons b bs)
    from Cons.IH [of "if SAFE_MEDIA_ASSET_ID (ma_assetId b) \<and> safePathString (opt_str (ma_sourcePath b))
        then AList.update (ma_assetId b) (opt_str (ma_sourcePath b)) acc else acc"] Cons.prems
    show ?case by (auto dest: upd split: if_splits)
  qed simp
  from this [of "[]" "take MAX_MEDIA_SOURCE_PATHS as"] assms
  have "\<exists>a \<in> set (take MAX_MEDIA_SOURCE_PATHS as).
      ma_assetId a = k \<and> opt_str (ma_sourcePath a) = v \<and> safePathString v"
    by (simp add: collect_media_def)
  then show ?thesis using set_take_subset by fast
qed

lemma carried_media_ours:
  assumes m: "media_node q"
    and "localMediaSourcePaths (carryLocalNodeExec E (Some p) (sanitizeInboundNode q)) = Some w"
    and "js_prop w k \<noteq> JUndef"
  shows "\<exists>w'. localMediaSourcePaths p = Some w' \<and> js_prop w' k = js_prop w k"
proof -
  let ?out = "carryLocalNodeExec E (Some p) (sanitizeInboundNode q)"
  let ?q = "stripNodeExec q"
  let ?fp = "if safePathString (opt_str (n_filePath p)) then n_filePath p else None"
  obtain as where as: "n_mediaAssets ?out = Some as" and w: "w = JObj (collect_media as)"
    using assms(2) by (auto simp: localMediaSourcePaths_def some_if_nonempty_def
        split: option.splits if_splits)
  have "map_of (collect_media as) k \<noteq> None"
    using assms(3) by (auto simp: w js_prop.simps(1) split: option.splits)
  then obtain v where v: "map_of (collect_media as) k = Some v" by blast
  then have kv: "(k, v) \<in> set (collect_media as)" by (rule map_of_SomeD)
  from collect_media_from [OF kv] obtain a where a: "a \<in> set as" "ma_assetId a = k"
    "opt_str (ma_sourcePath a) = v" "safePathString v" by blast
  have src: "ma_sourcePath a \<noteq> None" using a(3,4) by (cases "ma_sourcePath a") auto
  have out: "n_mediaAssets ?out = n_mediaAssets (restoreMediaPaths ?q ?fp (localMediaSourcePaths p))"
    using carry_media [of E p "?q"] by (simp add: sanitizeInboundNode_def)
  have q: "n_mediaAssets ?q = map_option (map clear_source) (n_mediaAssets q)"
    using m by (simp add: stripNodeExec_eq)
  show ?thesis
  proof (cases "localMediaSourcePaths p")
    case None
    then have "n_mediaAssets ?out = n_mediaAssets ?q"
      unfolding out by (simp add: restoreMediaPaths_def Let_def)
    with q as a(1) src show ?thesis by auto
  next
    case (Some w')
    have "n_mediaAssets ?out = map_option (map (restore_asset w')) (n_mediaAssets ?q)"
      unfolding out using localMedia_safe [OF Some] m Some
      by (simp add: restoreMediaPaths_def Let_def)
    with q as have "as = map (restore_asset w') (map clear_source (the (n_mediaAssets q)))"
      by auto
    with a(1) obtain b where b: "a = restore_asset w' (clear_source b)" by auto
    have "js_prop w' (ma_assetId b) = v \<and> ma_assetId b = k"
      using b src a(2,3)
      by (auto simp: restore_asset_def clear_source_def split: jsval.splits if_splits)
    with Some v show ?thesis by (auto simp: w js_prop.simps(1))
  qed
qed

text \<open>An entry that holds nothing which the other does not hold.\<close>

definition opt_within :: "'a option \<Rightarrow> 'a option \<Rightarrow> bool" where
  "opt_within x y \<longleftrightarrow> x = None \<or> x = y"

definition entry_within :: "local_exec \<Rightarrow> local_exec \<Rightarrow> bool" where
  "entry_within e e' \<longleftrightarrow>
     opt_within (le_shell e) (le_shell e')
     \<and> opt_within (le_terminalProfileId e) (le_terminalProfileId e')
     \<and> opt_within (le_namedTerminalProfileId e) (le_namedTerminalProfileId e')
     \<and> opt_within (le_namedTerminalProfileCwd e) (le_namedTerminalProfileCwd e')
     \<and> opt_within (le_sshExtraArgs e) (le_sshExtraArgs e')
     \<and> opt_within (le_pendingLaunch e) (le_pendingLaunch e')
     \<and> (le_clearEnv e \<longrightarrow> le_clearEnv e')
     \<and> opt_within (le_serviceConnection e) (le_serviceConnection e')
     \<and> opt_within (le_openWebUiLocalBinding e) (le_openWebUiLocalBinding e')
     \<and> opt_within (le_nextcloudManagedBinding e) (le_nextcloudManagedBinding e')
     \<and> opt_within (le_awsIdentityBinding e) (le_awsIdentityBinding e')
     \<and> opt_within (le_nsisLocalPaths e) (le_nsisLocalPaths e')
     \<and> opt_within (le_virtualMachineLocalPaths e) (le_virtualMachineLocalPaths e')
     \<and> opt_within (le_mediaFilePath e) (le_mediaFilePath e')
     \<and> (\<forall>w k. le_mediaSourcePaths e = Some w \<longrightarrow> js_prop w k \<noteq> JUndef \<longrightarrow>
          (\<exists>w'. le_mediaSourcePaths e' = Some w' \<and> js_prop w' k = js_prop w k))"

lemma validated_twice:
  assumes "V JUndef = None" "\<And>w. V (opt_val x) = Some w \<Longrightarrow> V w = None \<or> V w = Some w"
  shows "opt_within (V (opt_val (V (opt_val x)))) (V (opt_val x))"
  using assms by (cases "V (opt_val x)") (auto simp: opt_within_def)

lemma carried_ssh:
  "opt_within (le_sshExtraArgs (localExecEntry E (carryLocalNodeExec E (Some p) (sanitizeInboundNode q))))
     (le_sshExtraArgs (localExecEntry E p))"
proof (cases "Option.bind (n_ssh p) ssh_extraArgs = None \<or> n_ssh q = None")
  case True
  then have "Option.bind (n_ssh (carryLocalNodeExec E (Some p) (sanitizeInboundNode q))) ssh_extraArgs
      = None"
    by (cases "n_ssh q") (auto simp: carry_fields)
  then show ?thesis by (simp add: localExecEntry_def opt_within_def)
next
  case False
  then obtain c where "n_ssh q = Some c" by auto
  with False show ?thesis by (simp add: localExecEntry_def carry_fields opt_within_def)
qed

lemma carried_media_file:
  assumes "n_kind q = n_kind p"
  shows "opt_within
     (le_mediaFilePath (localExecEntry E (carryLocalNodeExec E (Some p) (sanitizeInboundNode q))))
     (le_mediaFilePath (localExecEntry E p))"
proof (cases "photo_or_video q")
  case False
  then have "\<not> photo_or_video (carryLocalNodeExec E (Some p) (sanitizeInboundNode q))"
    by (simp add: photo_or_video_def carry_fields)
  then show ?thesis by (simp add: localExecEntry_def opt_within_def)
next
  case True
  then have k: "photo_or_video p" "photo_or_video (carryLocalNodeExec E (Some p) (sanitizeInboundNode q))"
    "media_node (stripNodeExec q)"
    using assms by (simp_all add: photo_or_video_def carry_fields media_node_def)
  have "n_filePath (stripNodeExec q) = None" using True by (simp add: stripNodeExec_eq)
  then have "n_filePath (carryLocalNodeExec E (Some p) (sanitizeInboundNode q))
      = (if safePathString (opt_str (n_filePath p)) then n_filePath p else None)"
    unfolding sanitizeInboundNode_def using carry_media [of E p "stripNodeExec q"] k True
    by (simp add: restoreMediaPaths_def Let_def)
  with k show ?thesis by (simp add: localExecEntry_def opt_within_def)
qed

lemma carried_vm:
  "opt_within (le_virtualMachineLocalPaths
       (localExecEntry E (carryLocalNodeExec E (Some p) (sanitizeInboundNode q))))
     (le_virtualMachineLocalPaths (localExecEntry E p))"
proof -
  let ?v = "vm_of (n_virtualMachineLocalPaths p)"
  have i: "vm_of (Some ?v) = ?v" by (simp add: vm_of_def normalizeVM_idem)
  show ?thesis
    by (cases "js_keys ?v = []") (simp_all add: localExecEntry_def carry_fields opt_within_def Let_def i)
qed

text \<open>
  C3. A peer cannot launder a value into the trusted index. After a peer's version of our node
  replaces ours, what would be harvested from it is at most what was harvested from ours, field by
  field, provided that the peer keeps the kind, does not ask for a fresh environment and does not
  hang media on a node of another kind, and that a node of ours with a named profile has its
  directory.
\<close>

theorem peer_launders_nothing:
  assumes "href_stable E" and kind: "n_kind q = n_kind p"
    and media: "media_node p \<or> n_mediaAssets q = None"
    and env: "n_clearEnv q \<noteq> Some True"
    and dir: "n_namedTerminalProfileId p \<noteq> None \<Longrightarrow> n_cwd p \<noteq> None"
  shows "entry_within (localExecEntry E (carryLocalNodeExec E (Some p) (sanitizeInboundNode q)))
           (localExecEntry E p)"
proof -
  let ?out = "carryLocalNodeExec E (Some p) (sanitizeInboundNode q)"
  note d = localExecEntry_def carry_fields opt_within_def
  have shell: "opt_within (le_shell (localExecEntry E ?out)) (le_shell (localExecEntry E p))"
    by (auto simp: d)
  have cwd: "opt_within (le_namedTerminalProfileCwd (localExecEntry E ?out))
      (le_namedTerminalProfileCwd (localExecEntry E p))"
    using dir by (cases "n_namedTerminalProfileId p"; cases "n_cwd p") (simp_all add: d)
  have ow: "opt_within (le_openWebUiLocalBinding (localExecEntry E ?out))
      (le_openWebUiLocalBinding (localExecEntry E p))"
    using kind by (simp add: d)
  have media: "\<exists>w'. localMediaSourcePaths p = Some w' \<and> js_prop w' k = js_prop w k"
    if "localMediaSourcePaths ?out = Some w" "js_prop w k \<noteq> JUndef" for w k
  proof (cases "media_node q")
    case True
    from carried_media_ours [OF this that] show ?thesis .
  next
    case False
    with media kind have "n_mediaAssets q = None" by (auto simp: media_node_def photo_or_video_def)
    with False have "n_mediaAssets ?out = None"
      using carry_media [of E p "stripNodeExec q"]
      by (simp add: sanitizeInboundNode_def restoreMediaPaths_def) (simp add: stripNodeExec_eq)
    with that(1) show ?thesis by (simp add: localMediaSourcePaths_def)
  qed
  have pl: "opt_within (le_pendingLaunch (localExecEntry E ?out)) (le_pendingLaunch (localExecEntry E p))"
    using validated_twice [of clonePendingLaunch "n_pendingLaunch p"] clonePendingLaunch_idem kind
    by (simp add: d)
  have nc: "opt_within (le_nextcloudManagedBinding (localExecEntry E ?out))
      (le_nextcloudManagedBinding (localExecEntry E p))"
    using validated_twice [of validateNextcloudManagedBinding "n_nextcloudManagedBinding p"]
      validateNextcloud_idem kind by (simp add: d)
  have aws: "opt_within (le_awsIdentityBinding (localExecEntry E ?out))
      (le_awsIdentityBinding (localExecEntry E p))"
    using validated_twice [of "normalizeAwsIdentityBinding E" "n_awsIdentityBinding p"]
      normalizeAws_again [OF assms(1)] by (simp add: d)
  have nsis: "opt_within (le_nsisLocalPaths (localExecEntry E ?out)) (le_nsisLocalPaths (localExecEntry E p))"
    using validated_twice [of safeNsisLocalPaths "n_nsisLocalPaths p"] safeNsis_idem by (simp add: d)
  have "le_mediaSourcePaths (localExecEntry E ?out) = localMediaSourcePaths ?out"
    "le_mediaSourcePaths (localExecEntry E p) = localMediaSourcePaths p"
    by (simp_all add: localExecEntry_def)
  with media shell cwd ow pl nc aws nsis carried_ssh carried_media_file [OF kind] carried_vm
  show ?thesis
    unfolding entry_within_def using env by (simp add: carry_fields) (simp add: d)
qed

text \<open>A photo of ours, and a peer's copy of it that tries to bring a program and a file of its own.\<close>

definition our_photo :: canvas_node where
  "our_photo = (blank_node ''p'' ''photo'')\<lparr>n_filePath := Some ''/me/a.png''\<rparr>"

definition their_photo :: canvas_node where
  "their_photo = (blank_node ''p'' ''photo'')
     \<lparr>n_filePath := Some ''/etc/passwd'', n_shell := Some ''/tmp/evil'', n_x := Fin 7\<rparr>"

theorem peer_launders_nothing_witness:
  "entry_within
     (localExecEntry example_env (carryLocalNodeExec example_env (Some our_photo)
        (sanitizeInboundNode their_photo)))
     (localExecEntry example_env our_photo)"
proof (rule peer_launders_nothing)
  show "href_stable example_env"
    by (auto simp: href_stable_def example_env_def split: if_splits)
  show "media_node our_photo \<or> n_mediaAssets their_photo = None"
    by (simp add: our_photo_def media_node_def photo_or_video_def blank_node_def)
qed (simp_all add: our_photo_def their_photo_def blank_node_def)





end
