(* ===== verification/Canvas_Order.thy ===== *)
theory Canvas_Order
  imports Canvas_Types
begin

text \<open>
  The ordering state of one client (src/shared/canvas-order.ts): the total order that the
  reflector's \<open>seq\<close> gives, the acknowledgement of own casts, the repair of an overwritten
  optimistic value and the causal rule for deletes.

  The clock is an argument: \<open>now\<close> is what \<open>now()\<close> returns during the call. \<open>seen\<close> and
  \<open>pending\<close> are only looked up and are maps; \<open>removed\<close> is evicted oldest first and is an
  association list in insertion order.
\<close>

section \<open>What a mutation addresses\<close>

fun op_key :: "mutation_op \<Rightarrow> string" where
  "op_key (EdgeRemove _ i) = ''e:'' @ i"
| "op_key (EdgeUpsert _ e) = ''e:'' @ e_id e"
| "op_key (LinkRemove i) = ''l:'' @ i"
| "op_key (LinkUpsert l) = ''l:'' @ l_id l"
| "op_key (Remove i) = ''n:'' @ i"
| "op_key (Upsert n) = ''n:'' @ n_id n"

definition mutationKey :: "canvas_mutation \<Rightarrow> string" where
  "mutationKey m = op_key (m_op m)"

fun op_node_id :: "mutation_op \<Rightarrow> string option" where
  "op_node_id (Remove i) = Some i"
| "op_node_id (Upsert n) = Some (n_id n)"
| "op_node_id _ = None"

definition mutationNodeId :: "canvas_mutation \<Rightarrow> string option" where
  "mutationNodeId m = op_node_id (m_op m)"

fun op_is_upsert :: "mutation_op \<Rightarrow> bool" where
  "op_is_upsert (Upsert _) = True"
| "op_is_upsert (EdgeUpsert _ _) = True"
| "op_is_upsert (LinkUpsert _) = True"
| "op_is_upsert _ = False"

definition isUpsert :: "canvas_mutation \<Rightarrow> bool" where
  "isUpsert m = op_is_upsert (m_op m)"

fun op_is_remove :: "mutation_op \<Rightarrow> bool" where
  "op_is_remove (Remove _) = True"
| "op_is_remove (EdgeRemove _ _) = True"
| "op_is_remove (LinkRemove _) = True"
| "op_is_remove _ = False"

definition isRemove :: "canvas_mutation \<Rightarrow> bool" where
  "isRemove m = op_is_remove (m_op m)"

lemma isRemove_iff_not_isUpsert: "isRemove m \<longleftrightarrow> \<not> isUpsert m"
  by (cases "m_op m") (auto simp: isRemove_def isUpsert_def)

section \<open>State\<close>

definition PENDING_TTL_MS :: int where
  "PENDING_TTL_MS = 5000"

definition REMOVED_MAX :: nat where
  "REMOVED_MAX = 512"

record pending =
  p_count :: int
  p_since :: int
  p_stale :: bool

record canvas_order =
  o_src :: string
  o_ttlMs :: int
  o_seen :: "string \<rightharpoonup> nat"
  o_pending :: "string \<rightharpoonup> pending"
  o_superseded :: "string set"
  o_removed :: "(string \<times> nat) list"
  o_lastSeq :: nat

definition createCanvasOrder :: "string \<Rightarrow> int \<Rightarrow> canvas_order" where
  "createCanvasOrder src ttl =
     \<lparr>o_src = src, o_ttlMs = ttl, o_seen = Map.empty, o_pending = Map.empty,
      o_superseded = {}, o_removed = [], o_lastSeq = 0\<rparr>"

section \<open>Operations\<close>

text \<open>The loop that drops the oldest entries while the map is too large.\<close>

fun evictRemoved :: "(string \<times> nat) list \<Rightarrow> (string \<times> nat) list" where
  "evictRemoved rm = (if length rm > REMOVED_MAX then evictRemoved (tl rm) else rm)"

declare evictRemoved.simps [simp del]

definition noteRemoved :: "string \<Rightarrow> nat \<Rightarrow> (string \<times> nat) list \<Rightarrow> (string \<times> nat) list" where
  "noteRemoved k s rm = evictRemoved (AList.delete k rm @ [(k, s)])"

definition supersededByRemove :: "(string \<times> nat) list \<Rightarrow> canvas_mutation \<Rightarrow> string \<Rightarrow> bool" where
  "supersededByRemove rm m k \<longleftrightarrow>
     isUpsert m \<and>
     (case map_of rm k of
        None \<Rightarrow> False
      | Some r \<Rightarrow> (case m_seen m of None \<Rightarrow> False | Some s \<Rightarrow> js_less s (jsnat r)))"

text \<open>Is rule 2 live for this key? An entry whose time has lapsed is marked stale and stays.\<close>

definition suppressing :: "int \<Rightarrow> string \<Rightarrow> canvas_order \<Rightarrow> bool \<times> canvas_order" where
  "suppressing now k st =
     (case o_pending st k of
        None \<Rightarrow> (False, st)
      | Some p \<Rightarrow>
          if p_stale p then (False, st)
          else if now - p_since p > o_ttlMs st
          then (False, st\<lparr>o_pending := (o_pending st)(k \<mapsto> p\<lparr>p_stale := True\<rparr>)\<rparr>)
          else (True, st))"

definition stamp :: "canvas_order \<Rightarrow> canvas_mutation \<Rightarrow> canvas_mutation" where
  "stamp st m = m\<lparr>m_seen := Some (jsnat (o_lastSeq st))\<rparr>"

definition onLocal :: "int \<Rightarrow> canvas_mutation \<Rightarrow> canvas_order \<Rightarrow> canvas_order" where
  "onLocal now m st =
     (let k = mutationKey m;
          p' = (case o_pending st k of
                  Some p \<Rightarrow> p\<lparr>p_count := p_count p + 1, p_since := now, p_stale := False\<rparr>
                | None \<Rightarrow> \<lparr>p_count = 1, p_since = now, p_stale = False\<rparr>)
      in st\<lparr>o_pending := (o_pending st)(k \<mapsto> p'), o_superseded := o_superseded st - {k}\<rparr>)"

text \<open>
  \<open>accept\<close>, in the three parts the code has: recording the position, recording removes, and the
  verdict for an own echo or a peer's mutation.
\<close>

definition seqOf :: "canvas_mutation \<Rightarrow> nat" where
  "seqOf m = (case m_seq m of None \<Rightarrow> 0 | Some s \<Rightarrow> s)"

definition isCurrent :: "canvas_order \<Rightarrow> canvas_mutation \<Rightarrow> bool" where
  "isCurrent st m \<longleftrightarrow>
     seqOf m = 0 \<or> seqOf m > (case o_seen st (mutationKey m) of None \<Rightarrow> 0 | Some h \<Rightarrow> h)"

definition notePosition :: "canvas_mutation \<Rightarrow> canvas_order \<Rightarrow> canvas_order" where
  "notePosition m st =
     (let k = mutationKey m; seq = seqOf m;
          highest = (case o_seen st k of None \<Rightarrow> 0 | Some h \<Rightarrow> h);
          st1 = (if seq > highest then st\<lparr>o_seen := (o_seen st)(k \<mapsto> seq)\<rparr> else st)
      in if seq > o_lastSeq st1 then st1\<lparr>o_lastSeq := seq\<rparr> else st1)"

definition noteRemoval ::
  "bool \<Rightarrow> bool \<Rightarrow> canvas_mutation \<Rightarrow> (string \<times> nat) list \<Rightarrow> (string \<times> nat) list" where
  "noteRemoval current stale m rm =
     (if current
      then if isRemove m then noteRemoved (mutationKey m) (seqOf m) rm
           else if \<not> stale then AList.delete (mutationKey m) rm else rm
      else rm)"

definition acceptOwn ::
  "bool \<Rightarrow> bool \<Rightarrow> string \<Rightarrow> canvas_order \<Rightarrow> bool \<times> canvas_order" where
  "acceptOwn current stale k st =
     (let repair = (k \<in> o_superseded st \<and> current \<and> \<not> stale)
      in (repair,
          case o_pending st k of
            None \<Rightarrow> st
          | Some p \<Rightarrow>
              if p_count p - 1 \<le> 0
              then st\<lparr>o_pending := (o_pending st)(k := None),
                      o_superseded := o_superseded st - {k}\<rparr>
              else st\<lparr>o_pending := (o_pending st)(k \<mapsto> p\<lparr>p_count := p_count p - 1\<rparr>)\<rparr>))"

definition acceptPeer ::
  "int \<Rightarrow> bool \<Rightarrow> bool \<Rightarrow> canvas_mutation \<Rightarrow> canvas_order \<Rightarrow> bool \<times> canvas_order" where
  "acceptPeer now current stale m st =
     (let k = mutationKey m in
      if \<not> current then (False, st)
      else if stale then (False, st)
      else
        let (held, st') = (if \<not> isRemove m then suppressing now k st else (False, st)) in
        if held then (False, st')
        else (True,
              if o_pending st' k \<noteq> None
              then st'\<lparr>o_superseded := insert k (o_superseded st')\<rparr> else st'))"

definition isOwnEcho :: "canvas_order \<Rightarrow> canvas_mutation \<Rightarrow> bool" where
  "isOwnEcho st m \<longleftrightarrow> (case m_src m of None \<Rightarrow> False | Some s \<Rightarrow> s \<noteq> [] \<and> s = o_src st)"

definition accept :: "int \<Rightarrow> canvas_mutation \<Rightarrow> canvas_order \<Rightarrow> bool \<times> canvas_order" where
  "accept now m st =
     (let k = mutationKey m;
          current = isCurrent st m;
          st1 = notePosition m st;
          stale = supersededByRemove (o_removed st1) m k;
          st2 = st1\<lparr>o_removed := noteRemoval current stale m (o_removed st1)\<rparr>
      in if isOwnEcho st2 m then acceptOwn current stale k st2
         else acceptPeer now current stale m st2)"

definition resetOrder :: "canvas_order \<Rightarrow> canvas_order" where
  "resetOrder st =
     st\<lparr>o_seen := Map.empty, o_pending := Map.empty, o_superseded := {}, o_removed := [],
        o_lastSeq := 0\<rparr>"

text \<open>The reconnect watch: the state is the last non-null connection id.\<close>

definition reconnectWatch :: "'id option \<Rightarrow> 'id option \<Rightarrow> bool \<times> 'id option" where
  "reconnectWatch known i =
     (case i of
        None \<Rightarrow> (False, known)
      | Some c \<Rightarrow>
          (case known of
             None \<Rightarrow> (False, Some c)
           | Some c0 \<Rightarrow> if c = c0 then (False, known) else (True, Some c)))"

section \<open>Basic facts\<close>

lemma op_key_stamp [simp]: "mutationKey (m\<lparr>m_seen := s\<rparr>) = mutationKey m"
    "mutationKey (m\<lparr>m_seq := q\<rparr>) = mutationKey m" "mutationKey (m\<lparr>m_src := x\<rparr>) = mutationKey m"
  by (simp_all add: mutationKey_def)

lemma isUpsert_stamp [simp]: "isUpsert (m\<lparr>m_seen := s\<rparr>) = isUpsert m"
    "isUpsert (m\<lparr>m_seq := q\<rparr>) = isUpsert m" "isUpsert (m\<lparr>m_src := x\<rparr>) = isUpsert m"
  by (simp_all add: isUpsert_def)

lemma isRemove_stamp [simp]: "isRemove (m\<lparr>m_seen := s\<rparr>) = isRemove m"
    "isRemove (m\<lparr>m_seq := q\<rparr>) = isRemove m" "isRemove (m\<lparr>m_src := x\<rparr>) = isRemove m"
  by (simp_all add: isRemove_def)

lemma evictRemoved_drop: "evictRemoved rm = drop (length rm - REMOVED_MAX) rm"
proof (induction rm rule: evictRemoved.induct)
  case (1 rm)
  show ?case
  proof (cases "length rm > REMOVED_MAX")
    case True
    then have "evictRemoved rm = drop (length (tl rm) - REMOVED_MAX) (tl rm)"
      using 1 by (simp add: evictRemoved.simps [of rm])
    also have "\<dots> = drop (Suc (length (tl rm) - REMOVED_MAX)) rm"
      by (simp add: drop_Suc)
    also have "Suc (length (tl rm) - REMOVED_MAX) = length rm - REMOVED_MAX"
      using True by simp
    finally show ?thesis .
  next
    case False
    then show ?thesis by (simp add: evictRemoved.simps [of rm])
  qed
qed

lemma length_evictRemoved: "length (evictRemoved rm) \<le> REMOVED_MAX"
  by (simp add: evictRemoved_drop)

lemma length_noteRemoved: "length (noteRemoved k s rm) \<le> REMOVED_MAX"
  by (simp add: noteRemoved_def length_evictRemoved)

end
