(* ===== verification/Canvas_Mutations.thy ===== *)
theory Canvas_Mutations
  imports Node_Exec Canvas_Order
begin

text \<open>
  The mutation vocabulary (src/shared/canvas-mutations.ts): the guard both ends apply to a mutation,
  the application of a mutation to a scene, and the difference of two scenes as mutations.

  The size of a mutation on the wire is the length of its JSON text, which is a parameter
  (\<open>json_len\<close>). The stable text of a node and the text of a link, by which the difference decides
  whether a record changed, are equality of the records: two records have the same text exactly
  when they have the same properties.
\<close>

section \<open>The guard\<close>

definition REF_MAX_LEN :: nat where
  "REF_MAX_LEN = 128"

definition MUTATION_MAX_BYTES :: nat where
  "MUTATION_MAX_BYTES = 256000"

definition isRefId :: "string \<Rightarrow> bool" where
  "isRefId s \<longleftrightarrow> s \<noteq> [] \<and> length s \<le> REF_MAX_LEN"

definition isCreationEventId :: "string \<Rightarrow> bool" where
  "isCreationEventId s \<longleftrightarrow> s \<noteq> [] \<and> length s \<le> 256 \<and> list_all (\<lambda>c. \<not> is_control c) s"

fun endpoint_ok :: "endpoint \<Rightarrow> bool" where
  "endpoint_ok (NodeEnd n) = isRefId n"
| "endpoint_ok (XNodeEnd p n) = (isRefId p \<and> isRefId n)"
| "endpoint_ok (BranchEnd r b) = (isRefId r \<and> isRefId b)"

definition withinSizeLimit :: "(canvas_mutation \<Rightarrow> nat) \<Rightarrow> canvas_mutation \<Rightarrow> bool" where
  "withinSizeLimit json_len m \<longleftrightarrow> json_len m \<le> MUTATION_MAX_BYTES"

text \<open>
  The shape checks that remain for a mutation of the declared type: ids, finite positions, the
  refused kind. (An ill-typed payload is refused by the source too and has no value here.)
\<close>

fun op_shape_ok :: "mutation_op \<Rightarrow> bool" where
  "op_shape_ok (Remove i) = isRefId i"
| "op_shape_ok (LinkRemove i) = isRefId i"
| "op_shape_ok (LinkUpsert l) =
     (isRefId (l_id l) \<and> endpoint_ok (l_source l) \<and> endpoint_ok (l_target l))"
| "op_shape_ok (EdgeRemove k i) = isRefId i"
| "op_shape_ok (EdgeUpsert k e) = (isRefId (e_id e) \<and> isRefId (e_source e) \<and> isRefId (e_target e))"
| "op_shape_ok (Upsert n) =
     (n_kind n \<noteq> ''aws-shop'' \<and> isRefId (n_id n)
      \<and> (case n_creationEventId n of None \<Rightarrow> True | Some c \<Rightarrow> isCreationEventId c)
      \<and> is_finite (n_x n) \<and> is_finite (n_y n))"

definition isCanvasMutation :: "(canvas_mutation \<Rightarrow> nat) \<Rightarrow> canvas_mutation \<Rightarrow> bool" where
  "isCanvasMutation json_len m \<longleftrightarrow>
     op_shape_ok (m_op m) \<and> (isUpsert m \<longrightarrow> withinSizeLimit json_len m)"

text \<open>
  The publisher's guard remembers the node it refused last per id. \<open>same\<close> is the shallow
  comparison of two node objects: property by property by identity, the two geometry objects by
  their numbers.
\<close>

definition mutationGuard ::
  "(canvas_node \<Rightarrow> canvas_node \<Rightarrow> bool) \<Rightarrow> (canvas_mutation \<Rightarrow> nat) \<Rightarrow>
   (string \<rightharpoonup> canvas_node) \<Rightarrow> canvas_mutation \<Rightarrow> bool \<times> (string \<rightharpoonup> canvas_node)" where
  "mutationGuard same json_len refused m =
     (case m_op m of
        Upsert node \<Rightarrow>
          if (case refused (n_id node) of None \<Rightarrow> False | Some lst \<Rightarrow> same lst node)
          then (False, refused)
          else if isCanvasMutation json_len m then (True, refused(n_id node := None))
          else (False, refused(n_id node \<mapsto> node))
      | _ \<Rightarrow> (isCanvasMutation json_len m, refused))"

section \<open>Applying a mutation\<close>

definition isNonDeletableCanvasNode :: "canvas_node \<Rightarrow> bool" where
  "isNonDeletableCanvasNode n \<longleftrightarrow> n_nonDeletable n = Some True \<or> n_kind n = ''aws-shop''"

definition carry_at :: "js_env \<Rightarrow> canvas_node \<Rightarrow> canvas_node list \<Rightarrow> nat \<Rightarrow> canvas_node list" where
  "carry_at E n states idx =
     states[idx := carryLocalNodeExec E (Some (states ! idx)) (sanitizeInboundNode n)]"

definition applyCanvasMutation ::
  "js_env \<Rightarrow> string option \<Rightarrow> canvas_mutation \<Rightarrow> canvas_node list \<Rightarrow> canvas_node list" where
  "applyCanvasMutation E defaultTerminalProfileId m states =
     (case m_op m of
        Remove i \<Rightarrow>
          if list_ex (\<lambda>n. n_id n = i \<and> n_kind n = ''shop'') states then states
          else filter (\<lambda>n. n_id n \<noteq> i) states
      | Upsert node \<Rightarrow>
          if n_kind node = ''shop'' then
            (if list_ex (\<lambda>n. n_id n = n_id node) states then states
             else states @ [(acceptNewInboundNode node defaultTerminalProfileId)
                    \<lparr>n_title := ''Shop'', n_group := None, n_nonDeletable := Some True\<rparr>])
          else if opt_truthy (n_creationEventId node)
               \<and> list_ex (\<lambda>n. n_creationEventId n = n_creationEventId node) states
          then states
          else (case find_index (\<lambda>n. n_id n = n_id node) states of
                  None \<Rightarrow> states @ [acceptNewInboundNode node defaultTerminalProfileId]
                | Some idx \<Rightarrow> carry_at E node states idx)
      | _ \<Rightarrow> states)"

definition applyEdgeMutation ::
  "edge_kind \<Rightarrow> canvas_mutation \<Rightarrow> bridge_link list \<Rightarrow> bridge_link list" where
  "applyEdgeMutation kind m edges =
     (case m_op m of
        EdgeRemove _ i \<Rightarrow> filter (\<lambda>e. e_id e \<noteq> i) edges
      | EdgeUpsert k edge \<Rightarrow>
          if k \<noteq> kind then filter (\<lambda>e. e_id e \<noteq> e_id edge) edges
          else (case find_index (\<lambda>e. e_id e = e_id edge) edges of
                  None \<Rightarrow> edges @ [edge]
                | Some idx \<Rightarrow> edges[idx := edge])
      | _ \<Rightarrow> edges)"

definition applyLinkMutation :: "canvas_mutation \<Rightarrow> link list \<Rightarrow> link list" where
  "applyLinkMutation m links =
     (case m_op m of
        LinkRemove i \<Rightarrow> filter (\<lambda>l. l_id l \<noteq> i) links
      | LinkUpsert l \<Rightarrow>
          (case find_index (\<lambda>x. l_id x = l_id l) links of
             None \<Rightarrow> links @ [l]
           | Some idx \<Rightarrow> links[idx := l])
      | _ \<Rightarrow> links)"

text \<open>A receiver hands every mutation to the three functions; each ignores what it is not about.\<close>

definition applyScene ::
  "js_env \<Rightarrow> string option \<Rightarrow> canvas_mutation \<Rightarrow> canvas_scene \<Rightarrow> canvas_scene" where
  "applyScene E dflt m sc =
     \<lparr>sc_nodes = applyCanvasMutation E dflt m (sc_nodes sc),
      sc_bridges = applyEdgeMutation Bridge m (sc_bridges sc),
      sc_ropes = applyEdgeMutation Rope m (sc_ropes sc),
      sc_links = applyLinkMutation m (sc_links sc)\<rparr>"

section \<open>The difference of two scenes\<close>

definition op_mutation :: "mutation_op \<Rightarrow> canvas_mutation" where
  "op_mutation p = \<lparr>m_op = p, m_src = None, m_seq = None, m_seen = None\<rparr>"

text \<open>
  \<open>new Map(xs.map(x => [x.id, x]))\<close>: the last record of an id wins.
\<close>

definition by_id :: "('a \<Rightarrow> string) \<Rightarrow> 'a list \<Rightarrow> string \<rightharpoonup> 'a" where
  "by_id f xs = map_of (rev (map (\<lambda>x. (f x, x)) xs))"

definition diff_upserts :: "('a \<Rightarrow> string) \<Rightarrow> 'a list \<Rightarrow> 'a list \<Rightarrow> 'a list" where
  "diff_upserts f prev nxt = filter (\<lambda>x. by_id f prev (f x) \<noteq> Some x) nxt"

definition diffEdges ::
  "edge_kind \<Rightarrow> bridge_link list \<Rightarrow> bridge_link list \<Rightarrow> string set \<Rightarrow>
   mutation_op list \<times> mutation_op list" where
  "diffEdges kind prev nxt allNextIds =
     (map (EdgeUpsert kind) (diff_upserts e_id prev nxt),
      map (\<lambda>e. EdgeRemove kind (e_id e)) (filter (\<lambda>e. e_id e \<notin> allNextIds) prev))"

definition diffLinks :: "link list \<Rightarrow> link list \<Rightarrow> mutation_op list \<times> mutation_op list" where
  "diffLinks prev nxt =
     (map LinkUpsert (diff_upserts l_id prev nxt),
      map (\<lambda>l. LinkRemove (l_id l)) (filter (\<lambda>l. l_id l \<notin> l_id ` set nxt) prev))"

definition diffNodes :: "canvas_node list \<Rightarrow> canvas_node list \<Rightarrow> mutation_op list \<times> mutation_op list" where
  "diffNodes prev nxt =
     (map Upsert (diff_upserts n_id prev nxt),
      map (\<lambda>n. Remove (n_id n))
        (filter (\<lambda>n. n_id n \<notin> n_id ` set nxt \<and> \<not> isNonDeletableCanvasNode n) prev))"

definition diffToMutations :: "canvas_scene \<Rightarrow> canvas_scene \<Rightarrow> canvas_mutation list" where
  "diffToMutations a b =
     (let nodes = diffNodes (sc_nodes a) (sc_nodes b);
          allNext = e_id ` set (sc_bridges b @ sc_ropes b);
          br = diffEdges Bridge (sc_bridges a) (sc_bridges b) allNext;
          ro = diffEdges Rope (sc_ropes a) (sc_ropes b) allNext;
          li = diffLinks (sc_links a) (sc_links b)
      in map op_mutation (fst nodes @ fst br @ fst ro @ fst li @ snd li @ snd br @ snd ro @ snd nodes))"

end
