(* ===== verification/Canvas_Scene.thy ===== *)
theory Canvas_Scene
  imports Canvas_Mutations
begin

text \<open>
  What two clients mean by the same canvas: the content of a scene as a map from mutation keys, and
  what applying a mutation does to it. A node counts by its shared part, since the machine-local
  fields and the directory of a named profile differ from client to client by design.

  The shop of a universe and nodes that carry a creation event are excluded (\<open>plain_op\<close>,
  \<open>plain_scene\<close>): for those the source refuses some mutations on purpose.
\<close>

datatype content = NodeContent canvas_node | EdgeContent edge_kind bridge_link | LinkContent link

definition scene_view :: "canvas_scene \<Rightarrow> string \<Rightarrow> content option" where
  "scene_view sc k =
     (if starts_with ''n:'' k
      then map_option (\<lambda>n. NodeContent (shared_view n)) (lookup_by n_id (sc_nodes sc) (drop 2 k))
      else if starts_with ''e:'' k
      then (case lookup_by e_id (sc_bridges sc) (drop 2 k) of
              Some e \<Rightarrow> Some (EdgeContent Bridge e)
            | None \<Rightarrow> map_option (EdgeContent Rope) (lookup_by e_id (sc_ropes sc) (drop 2 k)))
      else if starts_with ''l:'' k
      then map_option LinkContent (lookup_by l_id (sc_links sc) (drop 2 k))
      else None)"

fun op_content :: "mutation_op \<Rightarrow> content option" where
  "op_content (Upsert n) = Some (NodeContent (shared_view n))"
| "op_content (EdgeUpsert k e) = Some (EdgeContent k e)"
| "op_content (LinkUpsert l) = Some (LinkContent l)"
| "op_content _ = None"

definition plain_node :: "canvas_node \<Rightarrow> bool" where
  "plain_node n \<longleftrightarrow> n_kind n \<noteq> ''shop'' \<and> n_creationEventId n = None"

definition plain_op :: "mutation_op \<Rightarrow> bool" where
  "plain_op p = (case p of Upsert n \<Rightarrow> plain_node n | _ \<Rightarrow> True)"

definition plain_scene :: "canvas_scene \<Rightarrow> bool" where
  "plain_scene sc \<longleftrightarrow>
     distinct (map n_id (sc_nodes sc)) \<and> list_all plain_node (sc_nodes sc)
     \<and> distinct (map e_id (sc_bridges sc @ sc_ropes sc)) \<and> distinct (map l_id (sc_links sc))"

lemma scene_view_keys:
  "scene_view sc (CHR ''n'' # CHR '':'' # i)
     = map_option (\<lambda>n. NodeContent (shared_view n)) (lookup_by n_id (sc_nodes sc) i)"
  "scene_view sc (CHR ''e'' # CHR '':'' # i)
     = (case lookup_by e_id (sc_bridges sc) i of
          Some e \<Rightarrow> Some (EdgeContent Bridge e)
        | None \<Rightarrow> map_option (EdgeContent Rope) (lookup_by e_id (sc_ropes sc) i))"
  "scene_view sc (CHR ''l'' # CHR '':'' # i) = map_option LinkContent (lookup_by l_id (sc_links sc) i)"
  by (simp_all add: scene_view_def starts_with_def split: option.split)

section \<open>Nodes\<close>

lemma list_all_filter: "list_all P xs \<Longrightarrow> list_all P (filter Q xs)"
  by (induction xs) auto

lemma shared_view_idem_parts:
  "shared_view (n\<lparr>n_terminalProfileId := t\<rparr>) = shared_view n"
  by (simp add: shared_view_def photo_or_video_def media_node_def)

lemma shared_view_accept: "shared_view (acceptNewInboundNode n d) = shared_view n"
  by (simp add: acceptNewInboundNode_def Let_def shared_view_idem_parts sanitizeInboundNode_def
      shared_view_strip)

lemma accept_fields [simp]:
  "n_id (acceptNewInboundNode n d) = n_id n" "n_kind (acceptNewInboundNode n d) = n_kind n"
  "n_creationEventId (acceptNewInboundNode n d) = n_creationEventId n"
  by (simp_all add: acceptNewInboundNode_def Let_def sanitizeInboundNode_def stripNodeExec_eq)

lemma clear_restore: "clear_source (restore_asset ps a) = clear_source a"
  by (auto simp: restore_asset_def clear_source_def split: jsval.splits)

lemma restored_assets_cleared:
  "map_option (map clear_source) (n_mediaAssets (restoreMediaPaths n f l))
   = map_option (map clear_source) (n_mediaAssets n)"
  by (cases "n_mediaAssets n")
    (auto simp: restoreMediaPaths_def Let_def clear_restore comp_def split: option.splits)

lemma restored_other_kind:
  "\<not> media_node n \<Longrightarrow> restoreMediaPaths n f l = n"
  "\<not> photo_or_video n \<Longrightarrow> n_filePath (restoreMediaPaths n f l) = n_filePath n"
  by (auto simp: restoreMediaPaths_def Let_def)

lemma carry_other_fields:
  "n_creationEventId (carryLocalNodeExec E (Some p) m) = n_creationEventId m"
  "n_x (carryLocalNodeExec E (Some p) m) = n_x m" "n_y (carryLocalNodeExec E (Some p) m) = n_y m"
  "n_title (carryLocalNodeExec E (Some p) m) = n_title m"
  "n_group (carryLocalNodeExec E (Some p) m) = n_group m"
  "n_universeCanvasId (carryLocalNodeExec E (Some p) m) = n_universeCanvasId m"
  "n_nonDeletable (carryLocalNodeExec E (Some p) m) = n_nonDeletable m"
  "n_rest (carryLocalNodeExec E (Some p) m) = n_rest m"
  "canvas_node.more (carryLocalNodeExec E (Some p) m) = canvas_node.more m"
  unfolding carryLocalNodeExec_def Let_def option.case
  by (simp_all add: restoreMediaPaths_def Let_def)

lemma strip_other_fields:
  "n_creationEventId (stripNodeExec n) = n_creationEventId n"
  "n_x (stripNodeExec n) = n_x n" "n_y (stripNodeExec n) = n_y n"
  "n_title (stripNodeExec n) = n_title n" "n_group (stripNodeExec n) = n_group n"
  "n_universeCanvasId (stripNodeExec n) = n_universeCanvasId n"
  "n_nonDeletable (stripNodeExec n) = n_nonDeletable n" "n_rest (stripNodeExec n) = n_rest n"
  "canvas_node.more (stripNodeExec n) = canvas_node.more n"
  "n_filePath (stripNodeExec n) = (if photo_or_video n then None else n_filePath n)"
  "n_mediaAssets (stripNodeExec n) =
     (if media_node n then map_option (map clear_source) (n_mediaAssets n) else n_mediaAssets n)"
  by (simp_all add: stripNodeExec_eq)


lemma shared_view_carry:
  "shared_view (carryLocalNodeExec E (Some p) (sanitizeInboundNode n)) = shared_view n"
proof -
  let ?s = "stripNodeExec n"
  let ?c = "carryLocalNodeExec E (Some p) (sanitizeInboundNode n)"
  let ?f = "if safePathString (opt_str (n_filePath p)) then n_filePath p else None"
  have kind: "photo_or_video ?c = photo_or_video n" "media_node ?c = media_node n"
    by (simp_all add: photo_or_video_def media_node_def carry_fields)
  have media: "n_filePath ?c = n_filePath (restoreMediaPaths ?s ?f (localMediaSourcePaths p))"
    "n_mediaAssets ?c = n_mediaAssets (restoreMediaPaths ?s ?f (localMediaSourcePaths p))"
    using carry_media [of E p ?s] by (simp_all add: sanitizeInboundNode_def)
  have assets: "(if media_node n then map_option (map clear_source) (n_mediaAssets ?c)
      else n_mediaAssets ?c)
    = (if media_node n then map_option (map clear_source) (n_mediaAssets n) else n_mediaAssets n)"
    unfolding media
    by (cases "n_mediaAssets n")
      (simp_all add: restored_assets_cleared restored_other_kind strip_other_fields comp_def)
  have fp: "(if photo_or_video n then None else n_filePath ?c)
    = (if photo_or_video n then None else n_filePath n)"
    unfolding media by (simp add: restored_other_kind strip_other_fields)
  have ssh: "map_option strip_ssh (n_ssh ?c) = map_option strip_ssh (n_ssh n)"
    by (cases "n_ssh n") (simp_all add: carry_fields strip_ssh_def)
  show ?thesis
    unfolding shared_view_def kind
    by (rule canvas_node.equality)
      (simp_all add: assets fp ssh carry_fields(5-7) carry_other_fields,
       simp_all add: sanitizeInboundNode_def strip_other_fields)
qed

lemma carry_at_upsert:
  "find_index (\<lambda>x. n_id x = n_id n) ns = Some i \<Longrightarrow>
   carry_at E n ns i = upsert_by n_id (carryLocalNodeExec E (Some (ns ! i)) (sanitizeInboundNode n)) ns"
  by (simp add: carry_at_def upsert_by_def carry_fields)

lemma apply_node_plain:
  assumes "list_all plain_node ns" "plain_op (m_op m)"
  shows "applyCanvasMutation E d m ns =
     (case m_op m of
        Remove i \<Rightarrow> filter (\<lambda>n. n_id n \<noteq> i) ns
      | Upsert n \<Rightarrow> upsert_by n_id
          (case find_index (\<lambda>x. n_id x = n_id n) ns of
             None \<Rightarrow> acceptNewInboundNode n d
           | Some i \<Rightarrow> carryLocalNodeExec E (Some (ns ! i)) (sanitizeInboundNode n)) ns
      | _ \<Rightarrow> ns)"
proof -
  have "\<not> list_ex (\<lambda>n. n_id n = i \<and> n_kind n = ''shop'') ns" for i
    using assms(1) by (auto simp: list_ex_iff list_all_iff plain_node_def)
  moreover have "plain_node n" if "m_op m = Upsert n" for n
    using assms(2) that by (simp add: plain_op_def)
  ultimately show ?thesis
    by (auto simp: applyCanvasMutation_def plain_node_def opt_truthy_def carry_at_upsert
        upsert_by_def split: mutation_op.splits option.splits)
qed

lemma lookup_apply_node:
  assumes "list_all plain_node ns" "plain_op (m_op m)"
  shows "map_option shared_view (lookup_by n_id (applyCanvasMutation E d m ns) i) =
     (case m_op m of
        Remove j \<Rightarrow> if i = j then None else map_option shared_view (lookup_by n_id ns i)
      | Upsert n \<Rightarrow> if i = n_id n then Some (shared_view n)
                    else map_option shared_view (lookup_by n_id ns i)
      | _ \<Rightarrow> map_option shared_view (lookup_by n_id ns i))"
proof (cases "m_op m")
  case (Upsert n)
  then show ?thesis
    unfolding apply_node_plain [OF assms]
    by (cases "find_index (\<lambda>x. n_id x = n_id n) ns")
      (simp_all add: lookup_by_upsert_by shared_view_accept shared_view_carry carry_fields)
next
  case (Remove j)
  then show ?thesis
    unfolding apply_node_plain [OF assms] by (simp add: lookup_by_filter_neq)
qed (simp_all add: apply_node_plain [OF assms])

lemma plain_apply_node:
  assumes "list_all plain_node ns" "plain_op (m_op m)" "distinct (map n_id ns)"
  shows "list_all plain_node (applyCanvasMutation E d m ns)
    \<and> distinct (map n_id (applyCanvasMutation E d m ns))"
proof -
  have up: "list_all plain_node (upsert_by n_id y ns)" if "plain_node y" for y
    using that assms(1) set_upsert_by_subset [of n_id y ns] by (auto simp: list_all_iff)
  have "plain_node (acceptNewInboundNode n d)
      \<and> plain_node (carryLocalNodeExec E (Some p) (sanitizeInboundNode n))" if "m_op m = Upsert n" for n p
    using assms(2) that
    by (simp add: plain_op_def plain_node_def carry_fields)
      (simp add: carry_other_fields sanitizeInboundNode_def strip_other_fields)
  then show ?thesis
    unfolding apply_node_plain [OF assms(1,2)] using assms(1,3) up
    by (cases "m_op m")
      (auto simp: distinct_map_filter distinct_upsert_by list_all_filter split: option.split
        intro!: up)
qed

section \<open>Edges and links\<close>

lemma apply_edge_eq:
  "applyEdgeMutation kind m es =
     (case m_op m of
        EdgeRemove _ i \<Rightarrow> filter (\<lambda>e. e_id e \<noteq> i) es
      | EdgeUpsert k e \<Rightarrow> if k = kind then upsert_by e_id e es else filter (\<lambda>x. e_id x \<noteq> e_id e) es
      | _ \<Rightarrow> es)"
  by (simp add: applyEdgeMutation_def upsert_by_def split: mutation_op.splits)

lemma apply_link_eq:
  "applyLinkMutation m ls =
     (case m_op m of
        LinkRemove i \<Rightarrow> filter (\<lambda>l. l_id l \<noteq> i) ls
      | LinkUpsert l \<Rightarrow> upsert_by l_id l ls
      | _ \<Rightarrow> ls)"
  by (simp add: applyLinkMutation_def upsert_by_def split: mutation_op.splits)

lemma edge_ids:
  "e_id ` set (applyEdgeMutation kind m es) \<subseteq>
     (case m_op m of EdgeUpsert k e \<Rightarrow> if k = kind then insert (e_id e) (e_id ` set es)
                                      else e_id ` set es - {e_id e}
      | EdgeRemove _ i \<Rightarrow> e_id ` set es - {i} | _ \<Rightarrow> e_id ` set es)"
  using set_upsert_by_subset
  by (fastforce simp: apply_edge_eq split: mutation_op.splits)

lemma plain_apply_edges:
  assumes "distinct (map e_id (bs @ rs))"
  shows "distinct (map e_id (applyEdgeMutation Bridge m bs @ applyEdgeMutation Rope m rs))"
proof -
  have "distinct (map e_id (applyEdgeMutation k m es))" if "distinct (map e_id es)" for k es
    using that by (auto simp: apply_edge_eq distinct_map_filter distinct_upsert_by
        split: mutation_op.splits)
  moreover have "e_id ` set (applyEdgeMutation Bridge m bs) \<inter> e_id ` set (applyEdgeMutation Rope m rs)
      = {}"
  proof (cases "m_op m")
    case (EdgeUpsert k e)
    with edge_ids [of Bridge m bs] edge_ids [of Rope m rs] assms show ?thesis
      by (cases k) (simp_all, blast+)
  next
    case (EdgeRemove k i)
    with edge_ids [of Bridge m bs] edge_ids [of Rope m rs] assms show ?thesis by simp blast
  qed (use assms in \<open>simp_all add: apply_edge_eq\<close>)
  ultimately show ?thesis using assms by (simp add: Int_commute)
qed

lemma plain_applyScene:
  assumes "plain_scene sc" "plain_op (m_op m)"
  shows "plain_scene (applyScene E d m sc)"
proof -
  have "distinct (map l_id (applyLinkMutation m (sc_links sc)))"
    using assms(1) by (auto simp: plain_scene_def apply_link_eq distinct_map_filter distinct_upsert_by
        split: mutation_op.splits)
  with assms plain_apply_node [of "sc_nodes sc" m E d] plain_apply_edges [of "sc_bridges sc" "sc_ropes sc" m]
  show ?thesis by (simp add: plain_scene_def applyScene_def)
qed

section \<open>The law of a scene\<close>

lemma key_cases:
  obtains (node) i where "k = CHR ''n'' # CHR '':'' # i"
  | (edge) i where "k = CHR ''e'' # CHR '':'' # i"
  | (rel) i where "k = CHR ''l'' # CHR '':'' # i"
  | (none) "\<not> starts_with ''n:'' k" "\<not> starts_with ''e:'' k" "\<not> starts_with ''l:'' k"
proof -
  have "starts_with [a, b] k \<Longrightarrow> \<exists>i. k = a # b # i" for a b
    by (cases k; cases "tl k") (auto simp: starts_with_def)
  then show thesis using that by metis
qed

lemma edge_view_apply:
  assumes "distinct (map e_id (bs @ rs))"
  shows "(case lookup_by e_id (applyEdgeMutation Bridge m bs) i of
            Some e \<Rightarrow> Some (EdgeContent Bridge e)
          | None \<Rightarrow> map_option (EdgeContent Rope) (lookup_by e_id (applyEdgeMutation Rope m rs) i))
       = (case m_op m of
            EdgeUpsert k e \<Rightarrow> if i = e_id e then Some (EdgeContent k e) else
              (case lookup_by e_id bs i of Some e \<Rightarrow> Some (EdgeContent Bridge e)
               | None \<Rightarrow> map_option (EdgeContent Rope) (lookup_by e_id rs i))
          | EdgeRemove _ j \<Rightarrow> if i = j then None else
              (case lookup_by e_id bs i of Some e \<Rightarrow> Some (EdgeContent Bridge e)
               | None \<Rightarrow> map_option (EdgeContent Rope) (lookup_by e_id rs i))
          | _ \<Rightarrow> (case lookup_by e_id bs i of Some e \<Rightarrow> Some (EdgeContent Bridge e)
               | None \<Rightarrow> map_option (EdgeContent Rope) (lookup_by e_id rs i)))"
proof (cases "m_op m")
  case (EdgeUpsert k e)
  then show ?thesis
    by (cases k) (simp_all add: apply_edge_eq lookup_by_filter_neq lookup_by_upsert_by split: option.split)
qed (simp_all add: apply_edge_eq lookup_by_filter_neq split: option.split)

lemma link_view_apply:
  "lookup_by l_id (applyLinkMutation m ls) i =
     (case m_op m of
        LinkRemove j \<Rightarrow> if i = j then None else lookup_by l_id ls i
      | LinkUpsert l \<Rightarrow> if i = l_id l then Some l else lookup_by l_id ls i
      | _ \<Rightarrow> lookup_by l_id ls i)"
  by (simp add: apply_link_eq lookup_by_filter_neq lookup_by_upsert_by split: mutation_op.splits)

lemma node_view:
  "scene_view sc (CHR ''n'' # CHR '':'' # i)
     = map_option NodeContent (map_option shared_view (lookup_by n_id (sc_nodes sc) i))"
  by (simp add: scene_view_keys option.map_comp comp_def)

lemma scene_view_applyScene:
  assumes "plain_scene sc" "plain_op (m_op m)"
  shows "scene_view (applyScene E d m sc) k =
     (if k = mutationKey m then op_content (m_op m) else scene_view sc k)"
proof (cases k rule: key_cases)
  case (node i)
  have "list_all plain_node (sc_nodes sc)" using assms(1) by (simp add: plain_scene_def)
  from lookup_apply_node [OF this assms(2), of E d i]
  have v: "scene_view (applyScene E d m sc) k =
      map_option NodeContent (case m_op m of
        Remove j \<Rightarrow> if i = j then None else map_option shared_view (lookup_by n_id (sc_nodes sc) i)
      | Upsert n \<Rightarrow> if i = n_id n then Some (shared_view n)
                    else map_option shared_view (lookup_by n_id (sc_nodes sc) i)
      | _ \<Rightarrow> map_option shared_view (lookup_by n_id (sc_nodes sc) i))"
    by (simp add: node node_view applyScene_def)
  show ?thesis unfolding v
    by (cases "m_op m") (simp_all add: node node_view mutationKey_def)
next
  case (edge i)
  have "distinct (map e_id (sc_bridges sc @ sc_ropes sc))"
    using assms(1) by (simp add: plain_scene_def)
  note law = edge_view_apply [OF this, of m i]
  show ?thesis
    unfolding edge scene_view_keys applyScene_def canvas_scene.simps law
    by (cases "m_op m") (simp_all add: mutationKey_def)
next
  case (rel i)
  show ?thesis
    by (cases "m_op m")
      (simp_all add: rel scene_view_keys applyScene_def mutationKey_def link_view_apply)
next
  case none
  then have "k \<noteq> mutationKey m"
    by (cases "m_op m") (auto simp: mutationKey_def starts_with_def)
  with none show ?thesis by (simp add: scene_view_def)
qed

section \<open>The difference of two scenes\<close>

lemma by_id_lookup: "distinct (map f xs) \<Longrightarrow> by_id f xs k = lookup_by f xs k"
proof (induction xs)
  case Nil
  then show ?case by (simp add: by_id_def)
next
  case (Cons x xs)
  then have "f x \<notin> f ` set xs" by simp
  then have "f x = k \<Longrightarrow> lookup_by f xs k = None" by (auto simp: lookup_by_None)
  with Cons show ?case by (auto simp: by_id_def map_add_def split: option.splits)
qed

lemma lookup_member: "distinct (map f xs) \<Longrightarrow> x \<in> set xs \<Longrightarrow> lookup_by f xs (f x) = Some x"
  by (induction xs) auto

lemma in_diff_upserts:
  "distinct (map f prev) \<Longrightarrow>
   x \<in> set (diff_upserts f prev nxt) \<longleftrightarrow> x \<in> set nxt \<and> lookup_by f prev (f x) \<noteq> Some x"
  by (auto simp: diff_upserts_def by_id_lookup)

definition apply_all :: "js_env \<Rightarrow> string option \<Rightarrow> canvas_mutation list \<Rightarrow> canvas_scene \<Rightarrow> canvas_scene" where
  "apply_all E d ms sc = foldl (\<lambda>s m. applyScene E d m s) sc ms"

lemma apply_all_agreed:
  assumes "plain_scene sc"
    and "\<And>m. m \<in> set ms \<Longrightarrow> plain_op (m_op m) \<and> op_content (m_op m) = V (mutationKey m)"
  shows "plain_scene (apply_all E d ms sc) \<and>
     scene_view (apply_all E d ms sc) k = (if k \<in> mutationKey ` set ms then V k else scene_view sc k)"
  using assms
proof (induction ms arbitrary: sc)
  case Nil
  then show ?case by (simp add: apply_all_def)
next
  case (Cons m ms)
  have m: "plain_op (m_op m)" "op_content (m_op m) = V (mutationKey m)" using Cons.prems(2) by auto
  have "plain_scene (applyScene E d m sc)" by (rule plain_applyScene [OF Cons.prems(1) m(1)])
  from Cons.IH [OF this] Cons.prems(2) scene_view_applyScene [OF Cons.prems(1) m(1)] m(2)
  show ?case by (auto simp: apply_all_def)
qed

text \<open>Every mutation of the difference is true of the second scene.\<close>

lemma diff_true:
  assumes "plain_scene a" "plain_scene b" "m \<in> set (diffToMutations a b)"
  shows "plain_op (m_op m) \<and> op_content (m_op m) = scene_view b (mutationKey m)"
proof -
  from assms(1) have da: "distinct (map n_id (sc_nodes a))" "distinct (map e_id (sc_bridges a))"
    "distinct (map e_id (sc_ropes a))" "distinct (map l_id (sc_links a))" by (auto simp: plain_scene_def)
  from assms(2) have db: "distinct (map n_id (sc_nodes b))" "distinct (map e_id (sc_bridges b))"
    "distinct (map e_id (sc_ropes b))" "distinct (map l_id (sc_links b))"
    "e_id ` set (sc_bridges b) \<inter> e_id ` set (sc_ropes b) = {}" and plain: "list_all plain_node (sc_nodes b)"
    by (auto simp: plain_scene_def)
  from assms(3) consider
      (nu) n where "m_op m = Upsert n" "n \<in> set (sc_nodes b)"
    | (nr) i where "m_op m = Remove i" "i \<notin> n_id ` set (sc_nodes b)"
    | (bu) e where "m_op m = EdgeUpsert Bridge e" "e \<in> set (sc_bridges b)"
    | (ru) e where "m_op m = EdgeUpsert Rope e" "e \<in> set (sc_ropes b)"
    | (er) k i where "m_op m = EdgeRemove k i" "i \<notin> e_id ` set (sc_bridges b @ sc_ropes b)"
    | (lu) l where "m_op m = LinkUpsert l" "l \<in> set (sc_links b)"
    | (lr) i where "m_op m = LinkRemove i" "i \<notin> l_id ` set (sc_links b)"
    unfolding diffToMutations_def Let_def diffNodes_def diffEdges_def diffLinks_def
    by (auto simp: op_mutation_def in_diff_upserts da)
  then show ?thesis
  proof cases
    case nu
    then show ?thesis using plain lookup_member [OF db(1) nu(2)]
      by (auto simp: plain_op_def mutationKey_def node_view list_all_iff)
  next
    case nr
    then have "lookup_by n_id (sc_nodes b) i = None" by (simp add: lookup_by_None)
    with nr show ?thesis by (simp add: plain_op_def mutationKey_def node_view)
  next
    case bu
    then show ?thesis using lookup_member [OF db(2) bu(2)]
      by (simp add: plain_op_def mutationKey_def scene_view_keys)
  next
    case ru
    then have "lookup_by e_id (sc_bridges b) (e_id e) = None" using db(5) by (auto simp: lookup_by_None)
    with ru show ?thesis using lookup_member [OF db(3) ru(2)]
      by (simp add: plain_op_def mutationKey_def scene_view_keys)
  next
    case er
    then have "lookup_by e_id (sc_bridges b) i = None" "lookup_by e_id (sc_ropes b) i = None"
      by (auto simp: lookup_by_None)
    with er show ?thesis by (simp add: plain_op_def mutationKey_def scene_view_keys)
  next
    case lu
    then show ?thesis using lookup_member [OF db(4) lu(2)]
      by (simp add: plain_op_def mutationKey_def scene_view_keys)
  next
    case lr
    then have "lookup_by l_id (sc_links b) i = None" by (simp add: lookup_by_None)
    with lr show ?thesis by (simp add: plain_op_def mutationKey_def scene_view_keys)
  qed
qed

definition no_anchored_drop :: "canvas_scene \<Rightarrow> canvas_scene \<Rightarrow> bool" where
  "no_anchored_drop a b \<longleftrightarrow>
     list_all (\<lambda>n. isNonDeletableCanvasNode n \<longrightarrow> n_id n \<in> n_id ` set (sc_nodes b)) (sc_nodes a)"

lemma diff_ops:
  "set (map m_op (diffToMutations a b)) =
     set (fst (diffNodes (sc_nodes a) (sc_nodes b))) \<union> set (snd (diffNodes (sc_nodes a) (sc_nodes b)))
     \<union> (let nx = e_id ` set (sc_bridges b @ sc_ropes b) in
          set (fst (diffEdges Bridge (sc_bridges a) (sc_bridges b) nx))
          \<union> set (snd (diffEdges Bridge (sc_bridges a) (sc_bridges b) nx))
          \<union> set (fst (diffEdges Rope (sc_ropes a) (sc_ropes b) nx))
          \<union> set (snd (diffEdges Rope (sc_ropes a) (sc_ropes b) nx)))
     \<union> set (fst (diffLinks (sc_links a) (sc_links b))) \<union> set (snd (diffLinks (sc_links a) (sc_links b)))"
  by (simp add: diffToMutations_def Let_def op_mutation_def image_image comp_def) blast

text \<open>Every difference of content is covered by a mutation.\<close>

lemma op_key_in: "p \<in> set (map m_op ms) \<Longrightarrow> op_key p \<in> mutationKey ` set ms"
  by (auto simp: mutationKey_def)

lemma diff_covers_node:
  assumes "plain_scene a" "plain_scene b" "no_anchored_drop a b"
    and "lookup_by n_id (sc_nodes a) i \<noteq> lookup_by n_id (sc_nodes b) i"
  shows "CHR ''n'' # CHR '':'' # i \<in> mutationKey ` set (diffToMutations a b)"
proof (cases "lookup_by n_id (sc_nodes b) i")
  case (Some n)
  from lookup_by_Some [OF Some] have n: "n \<in> set (sc_nodes b)" "n_id n = i" by auto
  have "Upsert n \<in> set (fst (diffNodes (sc_nodes a) (sc_nodes b)))"
    using assms(1,4) n Some by (auto simp: diffNodes_def in_diff_upserts plain_scene_def)
  then have "Upsert n \<in> set (map m_op (diffToMutations a b))" unfolding diff_ops by blast
  from op_key_in [OF this] n show ?thesis by simp
next
  case None
  with assms(4) obtain n where s: "lookup_by n_id (sc_nodes a) i = Some n" by auto
  from lookup_by_Some [OF s] have n: "n \<in> set (sc_nodes a)" "n_id n = i" by auto
  with None assms(3) have "Remove i \<in> set (snd (diffNodes (sc_nodes a) (sc_nodes b)))"
    by (fastforce simp: diffNodes_def lookup_by_None no_anchored_drop_def list_all_iff)
  then have "Remove i \<in> set (map m_op (diffToMutations a b))" unfolding diff_ops by blast
  from op_key_in [OF this] show ?thesis by simp
qed

lemma diff_covers_link:
  assumes "plain_scene a" "lookup_by l_id (sc_links a) i \<noteq> lookup_by l_id (sc_links b) i"
  shows "CHR ''l'' # CHR '':'' # i \<in> mutationKey ` set (diffToMutations a b)"
proof (cases "lookup_by l_id (sc_links b) i")
  case (Some l)
  from lookup_by_Some [OF Some] have l: "l \<in> set (sc_links b)" "l_id l = i" by auto
  have "LinkUpsert l \<in> set (fst (diffLinks (sc_links a) (sc_links b)))"
    using assms l Some by (auto simp: diffLinks_def in_diff_upserts plain_scene_def)
  then have "LinkUpsert l \<in> set (map m_op (diffToMutations a b))" unfolding diff_ops by blast
  from op_key_in [OF this] l show ?thesis by simp
next
  case None
  with assms(2) obtain l where s: "lookup_by l_id (sc_links a) i = Some l" by auto
  from lookup_by_Some [OF s] have l: "l \<in> set (sc_links a)" "l_id l = i" by auto
  with None have "LinkRemove i \<in> set (snd (diffLinks (sc_links a) (sc_links b)))"
    by (auto simp: diffLinks_def lookup_by_None)
  then have "LinkRemove i \<in> set (map m_op (diffToMutations a b))" unfolding diff_ops by blast
  from op_key_in [OF this] show ?thesis by simp
qed

lemma diff_covers_edge:
  assumes "plain_scene a" "plain_scene b"
    and "scene_view a (CHR ''e'' # CHR '':'' # i) \<noteq> scene_view b (CHR ''e'' # CHR '':'' # i)"
  shows "CHR ''e'' # CHR '':'' # i \<in> mutationKey ` set (diffToMutations a b)"
proof -
  let ?nx = "e_id ` set (sc_bridges b @ sc_ropes b)"
  let ?ops = "set (map m_op (diffToMutations a b))"
  have d: "distinct (map e_id (sc_bridges a))" "distinct (map e_id (sc_ropes a))"
    using assms(1) by (auto simp: plain_scene_def)
  have disj: "e_id ` set (sc_bridges a) \<inter> e_id ` set (sc_ropes a) = {}"
    using assms(1) by (auto simp: plain_scene_def)
  have up: "EdgeUpsert Bridge e \<in> ?ops"
    if "e \<in> set (sc_bridges b)" "lookup_by e_id (sc_bridges a) (e_id e) \<noteq> Some e" for e
    unfolding diff_ops Let_def diffEdges_def fst_conv using that d by (auto simp: in_diff_upserts)
  have ur: "EdgeUpsert Rope e \<in> ?ops"
    if "e \<in> set (sc_ropes b)" "lookup_by e_id (sc_ropes a) (e_id e) \<noteq> Some e" for e
    unfolding diff_ops Let_def diffEdges_def fst_conv using that d by (auto simp: in_diff_upserts)
  have rm: "\<exists>k. EdgeRemove k (e_id e) \<in> ?ops"
    if "e \<in> set (sc_bridges a @ sc_ropes a)" "e_id e \<notin> ?nx" for e
  proof -
    have "EdgeRemove Bridge (e_id e) \<in> ?ops" if "e \<in> set (sc_bridges a)"
      unfolding diff_ops Let_def diffEdges_def snd_conv
      using that \<open>e_id e \<notin> ?nx\<close> by (auto intro!: image_eqI [of _ _ e])
    moreover have "EdgeRemove Rope (e_id e) \<in> ?ops" if "e \<in> set (sc_ropes a)"
      unfolding diff_ops Let_def diffEdges_def snd_conv
      using that \<open>e_id e \<notin> ?nx\<close> by (auto intro!: image_eqI [of _ _ e])
    ultimately show ?thesis using that(1) by auto
  qed
  show ?thesis
  proof (cases "lookup_by e_id (sc_bridges b) i")
    case (Some e)
    from lookup_by_Some [OF Some] have e: "e \<in> set (sc_bridges b)" "e_id e = i" by auto
    with assms(3) Some have "lookup_by e_id (sc_bridges a) i \<noteq> Some e"
      by (auto simp: scene_view_keys)
    from op_key_in [OF up] e this show ?thesis by fastforce
  next
    case None
    note nb = None
    show ?thesis
    proof (cases "lookup_by e_id (sc_ropes b) i")
      case (Some e)
      from lookup_by_Some [OF Some] have e: "e \<in> set (sc_ropes b)" "e_id e = i" by auto
      have "lookup_by e_id (sc_ropes a) i \<noteq> Some e"
      proof
        assume s: "lookup_by e_id (sc_ropes a) i = Some e"
        then have "i \<in> e_id ` set (sc_ropes a)" using lookup_by_Some [OF s] by blast
        then have "lookup_by e_id (sc_bridges a) i = None" using disj by (auto simp: lookup_by_None)
        with s Some nb assms(3) show False by (simp add: scene_view_keys)
      qed
      from op_key_in [OF ur] e this show ?thesis by fastforce
    next
      case None
      with nb have nx: "i \<notin> ?nx" by (auto simp: lookup_by_None)
      from assms(3) None nb have "lookup_by e_id (sc_bridges a) i \<noteq> None
          \<or> lookup_by e_id (sc_ropes a) i \<noteq> None"
        by (auto simp: scene_view_keys split: option.splits)
      then obtain e where "e \<in> set (sc_bridges a @ sc_ropes a)" "e_id e = i"
        using lookup_by_Some by fastforce
      with rm nx obtain k where "EdgeRemove k i \<in> ?ops" by blast
      from op_key_in [OF this] show ?thesis by simp
    qed
  qed
qed

lemma diff_covers:
  assumes "plain_scene a" "plain_scene b" "no_anchored_drop a b" "scene_view a k \<noteq> scene_view b k"
  shows "k \<in> mutationKey ` set (diffToMutations a b)"
proof (cases k rule: key_cases)
  case (node i)
  with assms(4) have "lookup_by n_id (sc_nodes a) i \<noteq> lookup_by n_id (sc_nodes b) i"
    by (auto simp: node_view)
  with diff_covers_node [OF assms(1-3)] node show ?thesis by blast
next
  case (edge i)
  with diff_covers_edge [OF assms(1,2)] assms(4) show ?thesis by blast
next
  case (rel i)
  with assms(4) have "lookup_by l_id (sc_links a) i \<noteq> lookup_by l_id (sc_links b) i"
    by (auto simp: scene_view_keys)
  with diff_covers_link [OF assms(1)] rel show ?thesis by blast
next
  case none
  with assms(4) show ?thesis by (simp add: scene_view_def)
qed

lemma diff_refl: "plain_scene a \<Longrightarrow> diffToMutations a a = []"
  by (auto simp: diffToMutations_def diffNodes_def diffEdges_def diffLinks_def diff_upserts_def
      by_id_lookup lookup_member plain_scene_def filter_empty_conv)

section \<open>Properties\<close>


definition empty_scene :: canvas_scene where
  "empty_scene = \<lparr>sc_nodes = [], sc_bridges = [], sc_ropes = [], sc_links = []\<rparr>"

definition edge_e1 :: bridge_link where
  "edge_e1 = \<lparr>e_id = ''e1'', e_source = ''a'', e_target = ''b''\<rparr>"

definition scene_ab :: canvas_scene where
  "scene_ab = empty_scene\<lparr>sc_nodes := [blank_node ''a'' ''sticky'', blank_node ''b'' ''sticky''],
     sc_bridges := [edge_e1]\<rparr>"

text \<open>The bridge becomes a rope and one of its nodes goes.\<close>

definition scene_b :: canvas_scene where
  "scene_b = empty_scene\<lparr>sc_nodes := [blank_node ''b'' ''sticky''], sc_ropes := [edge_e1]\<rparr>"

lemma example_scenes_plain: "plain_scene scene_ab" "plain_scene scene_b" "no_anchored_drop scene_ab scene_b"
  by (simp_all add: plain_scene_def scene_ab_def scene_b_def empty_scene_def edge_e1_def blank_node_def
      plain_node_def no_anchored_drop_def isNonDeletableCanvasNode_def)






section \<open>The publisher's guard\<close>

fun run_guard ::
  "(canvas_node \<Rightarrow> canvas_node \<Rightarrow> bool) \<Rightarrow> (canvas_mutation \<Rightarrow> nat) \<Rightarrow>
   (string \<rightharpoonup> canvas_node) \<Rightarrow> canvas_mutation list \<Rightarrow> bool list" where
  "run_guard same len refused [] = []"
| "run_guard same len refused (m # ms) =
     (let (ok, refused') = mutationGuard same len refused m in ok # run_guard same len refused' ms)"

definition refused_before ::
  "(canvas_mutation \<Rightarrow> nat) \<Rightarrow> canvas_mutation list \<Rightarrow> (string \<rightharpoonup> canvas_node) \<Rightarrow> bool" where
  "refused_before len past refused \<longleftrightarrow>
     (\<forall>i n. refused i = Some n \<longrightarrow> n_id n = i \<and>
        (\<exists>p \<in> set past. m_op p = Upsert n \<and> \<not> isCanvasMutation len p))"

lemma guard_step:
  assumes "refused_before len past refused" "mutationGuard same len refused m = (ok, refused')"
  shows "refused_before len (past @ [m]) refused' \<and> (ok \<longrightarrow> isCanvasMutation len m)
    \<and> (\<not> ok \<longrightarrow> \<not> isCanvasMutation len m \<or>
         (\<exists>n. m_op m = Upsert n \<and> (\<exists>p \<in> set past. \<exists>q. m_op p = Upsert q \<and> n_id q = n_id n
            \<and> same q n \<and> \<not> isCanvasMutation len p)))"
proof (cases "\<exists>n. m_op m = Upsert n")
  case False
  with assms show ?thesis
    by (auto simp: mutationGuard_def refused_before_def split: mutation_op.splits)
next
  case True
  then obtain n where n: "m_op m = Upsert n" by blast
  show ?thesis
  proof (cases "case refused (n_id n) of None \<Rightarrow> False | Some lst \<Rightarrow> same lst n")
    case True
    then obtain q where "refused (n_id n) = Some q" "same q n" by (auto split: option.splits)
    with assms n True show ?thesis
      by (fastforce simp: mutationGuard_def refused_before_def)
  next
    case False
    with assms n show ?thesis
      by (auto simp: mutationGuard_def refused_before_def split: if_splits) blast
  qed
qed



end
