(* ===== verification/Canvas_Reflector.thy ===== *)
theory Canvas_Reflector
  imports Canvas_Scene
begin

text \<open>
  The reflector (src/core/canvas-sync.ts): it stamps each mutation of a client with the next place
  in the total order, bounds what the client claims, and sends it to every client, the sender too.
  Its only state is the counter.
\<close>

definition reflectTargets :: "nat list \<Rightarrow> nat \<Rightarrow> nat list" where
  "reflectTargets clients sender = clients"

definition stampMutation :: "canvas_mutation \<Rightarrow> nat \<Rightarrow> canvas_mutation" where
  "stampMutation m sq =
     m\<lparr>m_seq := Some sq,
       m_src := (case m_src m of None \<Rightarrow> None | Some s \<Rightarrow> if isRefId s then Some s else None),
       m_seen := (case m_seen m of
          None \<Rightarrow> None
        | Some seen \<Rightarrow>
            if \<not> is_integer seen \<or> js_less seen (Fin 0) then None
            else if \<not> js_less seen (jsnat sq) then Some (jsint (int sq - 1))
            else Some seen)\<rparr>"

text \<open>The handler: the new counter, and the messages it sends as (client, project, mutation).\<close>

definition onCanvasMut ::
  "(canvas_mutation \<Rightarrow> nat) \<Rightarrow> nat list \<Rightarrow> nat \<Rightarrow> string \<Rightarrow> canvas_mutation \<Rightarrow> nat \<Rightarrow>
   nat \<times> (nat \<times> string \<times> canvas_mutation) list" where
  "onCanvasMut json_len clients sender projectId m sq =
     (if \<not> isRefId projectId then (sq, [])
      else if \<not> isCanvasMutation json_len m then (sq, [])
      else
        let sq' = sq + 1; stamped = stampMutation (sanitizeInboundMutation m) sq'
        in (sq', map (\<lambda>i. (i, projectId, stamped)) (reflectTargets clients sender)))"

fun run_reflector ::
  "(canvas_mutation \<Rightarrow> nat) \<Rightarrow> nat list \<Rightarrow> nat \<Rightarrow> (nat \<times> string \<times> canvas_mutation) list \<Rightarrow>
   (nat \<times> string \<times> canvas_mutation) list" where
  "run_reflector json_len clients sq [] = []"
| "run_reflector json_len clients sq ((sender, p, m) # casts) =
     (let (sq', sent) = onCanvasMut json_len clients sender p m sq
      in sent @ run_reflector json_len clients sq' casts)"

lemma sanitize_mutation [simp]:
  "mutationKey (sanitizeInboundMutation m) = mutationKey m"
  "isUpsert (sanitizeInboundMutation m) = isUpsert m"
  "m_src (sanitizeInboundMutation m) = m_src m" "m_seen (sanitizeInboundMutation m) = m_seen m"
  "op_content (m_op (sanitizeInboundMutation m)) = op_content (m_op m)"
  by (simp_all add: sanitizeInboundMutation_def mutationKey_def isUpsert_def sanitizeInboundNode_def
      shared_view_strip split: mutation_op.split)

lemma stamp_mutation [simp]:
  "m_op (stampMutation m q) = m_op m" "m_seq (stampMutation m q) = Some q"
  "mutationKey (stampMutation m q) = mutationKey m" "isUpsert (stampMutation m q) = isUpsert m"
  by (simp_all add: stampMutation_def mutationKey_def isUpsert_def)

lemma plain_sanitize: "plain_op (m_op m) \<Longrightarrow> plain_op (m_op (sanitizeInboundMutation m))"
  by (simp add: plain_op_def sanitizeInboundMutation_def plain_node_def sanitizeInboundNode_def
      strip_other_fields split: mutation_op.splits)

lemma seen_bounded:
  "m_seen (stampMutation m q) = Some s \<Longrightarrow> \<exists>i. s = jsint i \<and> i < int q \<or> s = jsint (int q - 1)"
  by (cases "m_seen m"; cases "the (m_seen m)")
    (auto simp: stampMutation_def of_int_floor_cancel split: if_splits)

lemma onCanvasMut_cases:
  "onCanvasMut json_len clients sender p m sq =
     (if isRefId p \<and> isCanvasMutation json_len m
      then (sq + 1, map (\<lambda>i. (i, p, stampMutation (sanitizeInboundMutation m) (sq + 1))) clients)
      else (sq, []))"
  by (simp add: onCanvasMut_def Let_def reflectTargets_def)

lemma run_seqs:
  "(i, p, m) \<in> set (run_reflector json_len clients sq casts) \<Longrightarrow>
   \<exists>q. m_seq m = Some q \<and> sq < q"
proof (induction casts arbitrary: sq)
  case (Cons c casts)
  obtain s p' m' where c: "c = (s, p', m')" by (cases c)
  show ?case
  proof (cases "isRefId p' \<and> isCanvasMutation json_len m'")
    case True
    with Cons.prems c consider "m = stampMutation (sanitizeInboundMutation m') (sq + 1)"
      | "(i, p, m) \<in> set (run_reflector json_len clients (sq + 1) casts)"
      by (auto simp: onCanvasMut_cases)
    then show ?thesis using Cons.IH [of "sq + 1"] by cases (auto dest: Suc_lessD)
  next
    case False
    with Cons.prems c have "(i, p, m) \<in> set (run_reflector json_len clients sq casts)"
      by (simp add: onCanvasMut_cases)
    with Cons.IH show ?thesis .
  qed
qed simp

lemma run_unique:
  "(i, p, m) \<in> set (run_reflector json_len clients sq casts) \<Longrightarrow>
   (i', p', m') \<in> set (run_reflector json_len clients sq casts) \<Longrightarrow> m_seq m = m_seq m' \<Longrightarrow>
   p = p' \<and> m = m'"
proof (induction casts arbitrary: sq)
  case (Cons c casts)
  obtain s p0 m0 where c: "c = (s, p0, m0)" by (cases c)
  show ?case
  proof (cases "isRefId p0 \<and> isCanvasMutation json_len m0")
    case True
    let ?m = "stampMutation (sanitizeInboundMutation m0) (sq + 1)"
    have "(j, q, x) \<in> set (run_reflector json_len clients sq (c # casts)) \<longleftrightarrow>
        (j \<in> set clients \<and> q = p0 \<and> x = ?m)
        \<or> (j, q, x) \<in> set (run_reflector json_len clients (sq + 1) casts)" for j q x
      using True by (auto simp: c onCanvasMut_cases)
    with Cons.prems Cons.IH [of "sq + 1"] run_seqs [of _ _ _ json_len clients "sq + 1" casts]
    show ?thesis by fastforce
  next
    case False
    with Cons.prems c Cons.IH [of sq] show ?thesis by (simp add: onCanvasMut_cases)
  qed
qed simp

text \<open>
  C11. What every client receives is safe and ordered. A mutation that passes the guard goes to every
  attached client, the sender included, with the next number; its node is stripped of everything
  executable; its claim of what the sender had seen lies below its own number, so a forged claim
  cannot outrank a removal that is ordered later; its tag is bounded. Any other mutation is sent to
  nobody and takes no number; and in a run of the reflector a number belongs to one mutation only.
\<close>

theorem reflector_orders_and_bounds:
  fixes json_len m sq
  defines "m' \<equiv> stampMutation (sanitizeInboundMutation m) (sq + 1)"
  shows "onCanvasMut json_len clients sender p m sq =
      (if isRefId p \<and> isCanvasMutation json_len m then (sq + 1, map (\<lambda>i. (i, p, m')) clients)
       else (sq, []))
    \<and> m_seq m' = Some (sq + 1) \<and> mutationKey m' = mutationKey m
    \<and> (\<forall>n. m_op m' = Upsert n \<longrightarrow> exec_clean n)
    \<and> (\<forall>s. m_seen m' = Some s \<longrightarrow> js_less s (jsnat (sq + 1)))
    \<and> (\<forall>t. m_src m' = Some t \<longrightarrow> isRefId t)
    \<and> ((i, q, x) \<in> set (run_reflector json_len clients sq casts) \<longrightarrow>
        (i', q', x') \<in> set (run_reflector json_len clients sq casts) \<longrightarrow>
        m_seq x = m_seq x' \<longrightarrow> q = q' \<and> x = x')"
proof -
  have "exec_clean n" if "m_op m' = Upsert n" for n
    using that exec_clean_strip
    by (auto simp: m'_def sanitizeInboundMutation_def sanitizeInboundNode_def split: mutation_op.splits)
  moreover have "js_less s (jsnat (sq + 1))" if "m_seen m' = Some s" for s
    using seen_bounded [OF that [unfolded m'_def]] by auto
  moreover have "isRefId t" if "m_src m' = Some t" for t
    using that by (auto simp: m'_def stampMutation_def split: option.splits if_splits)
  ultimately show ?thesis
    using run_unique [of i q x json_len clients sq casts i' q' x']
    by (auto simp: m'_def onCanvasMut_cases)
qed

theorem reflector_orders_and_bounds_witness:
  "exec_clean (stripNodeExec hostile_node)"
  using reflector_orders_and_bounds [where m = "op_mutation (Upsert hostile_node)" and sq = 7
      and json_len = "\<lambda>_. 0" and clients = "[1, 2]" and casts = "[]"]
  by (simp add: op_mutation_def sanitizeInboundMutation_def sanitizeInboundNode_def)

end
