(* ===== verification/Canvas_Convergence.thy ===== *)
theory Canvas_Convergence
  imports Canvas_Reflector
begin

text \<open>
  Several clients, one reflector: the convergence that src/shared/canvas-order.ts promises.

  The reference is the replay of the log: every mutation in the order of its number, an upsert
  dropped when its sender had not seen the removal it would undo. A client holds its ordering state,
  its scene, the casts that the reflector has not read yet and its position in the log; channels
  are first in, first out. The invariant says, key by key, what a client shows as a function of its
  own casts that are still in flight.
\<close>

section \<open>The reference\<close>

record 'v replay =
  rp_view :: "string \<Rightarrow> 'v option"
  rp_removed :: "(string \<times> nat) list"
  rp_len :: nat

definition replay_step ::
  "(mutation_op \<Rightarrow> 'v option) \<Rightarrow> 'v replay \<Rightarrow> canvas_mutation \<Rightarrow> 'v replay" where
  "replay_step cont r m =
     (let k = mutationKey m; stale = supersededByRemove (rp_removed r) m k in
      r\<lparr>rp_view := (if stale then rp_view r else (rp_view r)(k := cont (m_op m))),
        rp_removed := noteRemoval True stale m (rp_removed r),
        rp_len := Suc (rp_len r)\<rparr>)"

definition replay_all ::
  "(mutation_op \<Rightarrow> 'v option) \<Rightarrow> (string \<Rightarrow> 'v option) \<Rightarrow> canvas_mutation list \<Rightarrow> 'v replay" where
  "replay_all cont v0 lg =
     foldl (replay_step cont) \<lparr>rp_view = v0, rp_removed = [], rp_len = 0\<rparr> lg"

lemma replay_snoc: "replay_all cont v0 (lg @ [m]) = replay_step cont (replay_all cont v0 lg) m"
  by (simp add: replay_all_def)

lemma replay_len [simp]: "rp_len (replay_all cont v0 lg) = length lg"
  by (induction lg rule: rev_induct) (simp_all add: replay_snoc replay_step_def Let_def, simp add: replay_all_def)

section \<open>The removed map\<close>

lemma in_delete: "(j, r) \<in> set (AList.delete k rm) \<Longrightarrow> (j, r) \<in> set rm"
  by (induction rm) (auto split: if_splits)

lemma map_of_drop:
  assumes "distinct (map fst xs)"
  shows "map_of (drop n xs) k = None \<or> map_of (drop n xs) k = map_of xs k"
proof (cases "map_of (drop n xs) k")
  case (Some v)
  then have "(k, v) \<in> set xs" using in_set_dropD map_of_SomeD by metis
  with assms Some show ?thesis by simp
qed simp

lemma distinct_drop_keys: "distinct (map fst xs) \<Longrightarrow> distinct (map fst (drop n xs))"
  by (metis distinct_drop drop_map)

lemma noteRemoved_keys:
  assumes "distinct (map fst rm)"
  shows "distinct (map fst (noteRemoved k s rm))"
    and "map_of (noteRemoved k s rm) k = Some s"
    and "j \<noteq> k \<Longrightarrow> map_of (noteRemoved k s rm) j = None \<or> map_of (noteRemoved k s rm) j = map_of rm j"
    and "(j, r) \<in> set (noteRemoved k s rm) \<Longrightarrow> (j, r) \<in> set rm \<or> r = s"
proof -
  let ?l = "AList.delete k rm @ [(k, s)]"
  have d: "distinct (map fst ?l)"
    using assms by (auto simp: delete_keys distinct_removeAll)
  show "distinct (map fst (noteRemoved k s rm))"
    unfolding noteRemoved_def evictRemoved_drop by (rule distinct_drop_keys [OF d])
  have "length ?l - REMOVED_MAX < length ?l" by (simp add: REMOVED_MAX_def)
  then have "(k, s) \<in> set (drop (length ?l - REMOVED_MAX) ?l)"
    by (metis append_is_Nil_conv drop_append drop_eq_Nil in_set_conv_decomp last_in_set last_drop
        last_snoc leD list.distinct(1))
  moreover have "distinct (map fst (drop (length ?l - REMOVED_MAX) ?l))"
    by (rule distinct_drop_keys [OF d])
  ultimately show "map_of (noteRemoved k s rm) k = Some s"
    unfolding noteRemoved_def evictRemoved_drop by (rule map_of_is_SomeI [rotated])
  show "j \<noteq> k \<Longrightarrow> map_of (noteRemoved k s rm) j = None \<or> map_of (noteRemoved k s rm) j = map_of rm j"
    using map_of_drop [OF d, of "length ?l - REMOVED_MAX" j]
    by (simp add: noteRemoved_def evictRemoved_drop map_add_def delete_conv' split: option.splits)
  show "(j, r) \<in> set rm \<or> r = s" if "(j, r) \<in> set (noteRemoved k s rm)"
    using that in_set_dropD [of "(j, r)"] in_delete [of j r k rm]
    by (fastforce simp: noteRemoved_def evictRemoved_drop)
qed

lemma noteRemoval_keys:
  assumes "distinct (map fst rm)"
  shows "distinct (map fst (noteRemoval b st m rm))"
    and "j \<noteq> mutationKey m \<Longrightarrow>
         map_of (noteRemoval b st m rm) j = None \<or> map_of (noteRemoval b st m rm) j = map_of rm j"
    and "(j, r) \<in> set (noteRemoval b st m rm) \<Longrightarrow> (j, r) \<in> set rm \<or> r = seqOf m"
  using noteRemoved_keys [OF assms, where k = "mutationKey m" and s = "seqOf m"] assms in_delete [of j r "mutationKey m" rm]
  by (auto simp: noteRemoval_def delete_keys distinct_removeAll delete_conv' split: if_splits)

lemma noteRemoval_self:
  assumes "distinct (map fst rm)"
  shows "isUpsert m \<Longrightarrow> \<not> st \<Longrightarrow> map_of (noteRemoval True st m rm) (mutationKey m) = None"
    and "isUpsert m \<Longrightarrow> st \<Longrightarrow> noteRemoval True st m rm = rm"
  by (simp_all add: noteRemoval_def isRemove_iff_not_isUpsert delete_conv')

section \<open>What a client shows\<close>

definition may_undo :: "(string \<times> nat) list \<Rightarrow> string \<Rightarrow> canvas_mutation \<Rightarrow> bool" where
  "may_undo rm k m \<longleftrightarrow>
     (case map_of rm k of None \<Rightarrow> True | Some r \<Rightarrow> \<exists>s. m_seen m = Some (jsnat s) \<and> r \<le> s)"

text \<open>
  One key of one client: \<open>P\<close> is its casts for the key in flight, \<open>v\<close> what it shows, \<open>r\<close> the
  replay up to its position.
\<close>

definition pend_ok :: "canvas_order \<Rightarrow> string \<Rightarrow> canvas_mutation list \<Rightarrow> bool" where
  "pend_ok st k P \<longleftrightarrow>
     (case o_pending st k of None \<Rightarrow> P = [] | Some p \<Rightarrow> P \<noteq> [] \<and> p_count p = int (length P))"

definition key_inv ::
  "(mutation_op \<Rightarrow> 'v option) \<Rightarrow> canvas_mutation list \<Rightarrow> 'v option \<Rightarrow> 'v replay \<Rightarrow> canvas_order \<Rightarrow>
   string \<Rightarrow> bool" where
  "key_inv cont P v r st k \<longleftrightarrow>
     pend_ok st k P
     \<and> (P = [] \<longrightarrow> v = rp_view r k)
     \<and> (P \<noteq> [] \<longrightarrow> k \<notin> o_superseded st \<longrightarrow>
          v = cont (m_op (last P)) \<and> (isUpsert (last P) \<longrightarrow> may_undo (rp_removed r) k (last P)))
     \<and> (P \<noteq> [] \<longrightarrow> k \<in> o_superseded st \<longrightarrow> v = rp_view r k \<or> map_of (rp_removed r) k = None)
     \<and> (P \<noteq> [] \<longrightarrow> isUpsert (last P) \<longrightarrow> list_all isUpsert P)"

lemma key_invI:
  assumes "pend_ok st k P" "P = [] \<Longrightarrow> v = rp_view r k"
    and "P \<noteq> [] \<Longrightarrow> k \<notin> o_superseded st \<Longrightarrow> v = cont (m_op (last P))"
    and "P \<noteq> [] \<Longrightarrow> k \<notin> o_superseded st \<Longrightarrow> isUpsert (last P) \<Longrightarrow> may_undo (rp_removed r) k (last P)"
    and "P \<noteq> [] \<Longrightarrow> k \<in> o_superseded st \<Longrightarrow> v \<noteq> rp_view r k \<Longrightarrow> map_of (rp_removed r) k = None"
    and "P \<noteq> [] \<Longrightarrow> isUpsert (last P) \<Longrightarrow> list_all isUpsert P"
  shows "key_inv cont P v r st k"
  unfolding key_inv_def
proof (intro conjI impI)
  show "v = rp_view r k \<or> map_of (rp_removed r) k = None" if "P \<noteq> []" "k \<in> o_superseded st"
    using assms(5) [OF that] by argo
qed (rule assms; assumption)+

lemma key_invD:
  assumes "key_inv cont P v r st k"
  shows "pend_ok st k P" "P = [] \<Longrightarrow> v = rp_view r k"
    and "P \<noteq> [] \<Longrightarrow> k \<notin> o_superseded st \<Longrightarrow> v = cont (m_op (last P))"
    and "P \<noteq> [] \<Longrightarrow> k \<notin> o_superseded st \<Longrightarrow> isUpsert (last P) \<Longrightarrow> may_undo (rp_removed r) k (last P)"
    and "P \<noteq> [] \<Longrightarrow> k \<in> o_superseded st \<Longrightarrow> v \<noteq> rp_view r k \<Longrightarrow> map_of (rp_removed r) k = None"
    and "P \<noteq> [] \<Longrightarrow> isUpsert (last P) \<Longrightarrow> list_all isUpsert P"
proof -
  note K = assms [unfolded key_inv_def]
  show "pend_ok st k P" using K by (rule conjunct1)
  show "P = [] \<Longrightarrow> v = rp_view r k" using K by simp
  show "P \<noteq> [] \<Longrightarrow> k \<notin> o_superseded st \<Longrightarrow> v = cont (m_op (last P))" using K by simp
  show "P \<noteq> [] \<Longrightarrow> k \<notin> o_superseded st \<Longrightarrow> isUpsert (last P) \<Longrightarrow> may_undo (rp_removed r) k (last P)"
    using K by simp
  show "P \<noteq> [] \<Longrightarrow> k \<in> o_superseded st \<Longrightarrow> v \<noteq> rp_view r k \<Longrightarrow> map_of (rp_removed r) k = None"
    using K by simp
  show "P \<noteq> [] \<Longrightarrow> isUpsert (last P) \<Longrightarrow> list_all isUpsert P" using K by simp
qed

definition order_inv :: "'v replay \<Rightarrow> canvas_order \<Rightarrow> bool" where
  "order_inv r st \<longleftrightarrow>
     o_removed st = rp_removed r \<and> o_lastSeq st = rp_len r
     \<and> (\<forall>k h. o_seen st k = Some h \<longrightarrow> h \<le> rp_len r)
     \<and> distinct (map fst (rp_removed r)) \<and> (\<forall>(k, q) \<in> set (rp_removed r). q \<le> rp_len r)"

lemma may_undo_weaken:
  "may_undo rm k m \<Longrightarrow> map_of rm' k = None \<or> map_of rm' k = map_of rm k \<Longrightarrow> may_undo rm' k m"
  by (auto simp: may_undo_def split: option.splits)

lemma may_undo_not_stale: "may_undo rm k m \<Longrightarrow> \<not> supersededByRemove rm m k"
  by (auto simp: may_undo_def supersededByRemove_def split: option.splits)

section \<open>One step of one client\<close>

text \<open>The parts of \<open>accept\<close> for the next mutation of the log.\<close>

lemma accept_next:
  assumes "order_inv r st" "m_seq m = Some (Suc (rp_len r))"
  shows "accept now m st =
    (let k = mutationKey m; stale = supersededByRemove (rp_removed r) m k;
         st2 = (notePosition m st)\<lparr>o_removed := noteRemoval True stale m (rp_removed r)\<rparr>
     in if isOwnEcho st m then acceptOwn True stale k st2 else acceptPeer now True stale m st2)"
proof -
  have cur: "isCurrent st m"
    using assms by (auto simp: isCurrent_def order_inv_def seqOf_def le_Suc_eq split: option.splits
        dest!: spec [of _ "mutationKey m"])
  have np: "o_removed (notePosition m st) = o_removed st" "o_src (notePosition m st) = o_src st"
    by (simp_all add: notePosition_def Let_def)
  have "isOwnEcho (notePosition m st\<lparr>o_removed := x\<rparr>) m = isOwnEcho st m" for x
    by (simp add: isOwnEcho_def np split: option.split)
  then show ?thesis
    using assms cur by (simp add: accept_def Let_def np order_inv_def)
qed

lemma notePosition_next:
  assumes "order_inv r st" "m_seq m = Some (Suc (rp_len r))"
  shows "o_lastSeq (notePosition m st) = Suc (rp_len r)"
    and "o_seen (notePosition m st) = (o_seen st)(mutationKey m \<mapsto> Suc (rp_len r))"
    and "o_pending (notePosition m st) = o_pending st"
    and "o_superseded (notePosition m st) = o_superseded st"
    and "o_src (notePosition m st) = o_src st"
proof -
  have "(case o_seen st (mutationKey m) of None \<Rightarrow> 0 | Some h \<Rightarrow> h) < Suc (rp_len r)"
    using assms(1) by (auto simp: order_inv_def le_Suc_eq split: option.splits
        dest!: spec [of _ "mutationKey m"])
  with assms show "o_lastSeq (notePosition m st) = Suc (rp_len r)"
    "o_seen (notePosition m st) = (o_seen st)(mutationKey m \<mapsto> Suc (rp_len r))"
    by (simp_all add: notePosition_def Let_def seqOf_def order_inv_def)
  show "o_pending (notePosition m st) = o_pending st"
    "o_superseded (notePosition m st) = o_superseded st" "o_src (notePosition m st) = o_src st"
    by (simp_all add: notePosition_def Let_def)
qed

lemma accept_positions:
  assumes "order_inv r st" "m_seq m = Some (Suc (rp_len r))"
  shows "order_inv (replay_step cont r m) (snd (accept now m st))"
    and "o_src (snd (accept now m st)) = o_src st"
proof -
  let ?stale = "supersededByRemove (rp_removed r) m (mutationKey m)"
  let ?st2 = "(notePosition m st)\<lparr>o_removed := noteRemoval True ?stale m (rp_removed r)\<rparr>"
  have d: "distinct (map fst (rp_removed r))" using assms(1) by (simp add: order_inv_def)
  have own: "o_removed (snd (acceptOwn c s k x)) = o_removed x"
    "o_lastSeq (snd (acceptOwn c s k x)) = o_lastSeq x" "o_seen (snd (acceptOwn c s k x)) = o_seen x"
    "o_src (snd (acceptOwn c s k x)) = o_src x" for c s k x
    by (simp_all add: acceptOwn_def Let_def split: option.split)
  have sup: "o_removed (snd (suppressing now k x)) = o_removed x"
    "o_lastSeq (snd (suppressing now k x)) = o_lastSeq x" "o_seen (snd (suppressing now k x)) = o_seen x"
    "o_src (snd (suppressing now k x)) = o_src x" for k x
    by (simp_all add: suppressing_def split: option.split)
  have peer: "o_removed (snd (acceptPeer now c s m x)) = o_removed x"
    "o_lastSeq (snd (acceptPeer now c s m x)) = o_lastSeq x"
    "o_seen (snd (acceptPeer now c s m x)) = o_seen x" "o_src (snd (acceptPeer now c s m x)) = o_src x" for c s x
    using sup [of "mutationKey m" x] by (auto simp: acceptPeer_def Let_def split: prod.splits)
  have st2: "o_lastSeq ?st2 = Suc (rp_len r)"
    "o_seen ?st2 = (o_seen st)(mutationKey m \<mapsto> Suc (rp_len r))"
    using notePosition_next [OF assms] by simp_all
  have "o_removed (snd (accept now m st)) = o_removed ?st2"
    "o_lastSeq (snd (accept now m st)) = o_lastSeq ?st2" "o_seen (snd (accept now m st)) = o_seen ?st2"
    by (simp_all add: accept_next [OF assms] Let_def own peer)
  with st2 assms(1) noteRemoval_keys [OF d, where b = True and st = ?stale and m = m] assms(2)
  show "order_inv (replay_step cont r m) (snd (accept now m st))"
    by (auto simp: order_inv_def replay_step_def Let_def seqOf_def le_Suc_eq) fastforce+
  show "o_src (snd (accept now m st)) = o_src st"
    using notePosition_next(5) [OF assms] by (simp add: accept_next [OF assms] Let_def own peer)
qed

lemma replay_step_fields:
  "rp_view (replay_step cont r m) j =
     (if j = mutationKey m \<and> \<not> supersededByRemove (rp_removed r) m j then cont (m_op m) else rp_view r j)"
  "rp_removed (replay_step cont r m) =
     noteRemoval True (supersededByRemove (rp_removed r) m (mutationKey m)) m (rp_removed r)"
  by (auto simp: replay_step_def Let_def)

lemma removal_never_stale: "supersededByRemove rm m k \<Longrightarrow> isUpsert m"
  by (simp add: supersededByRemove_def)

text \<open>An own cast comes back.\<close>

lemma own_verdict:
  assumes "order_inv r st" "m_seq m = Some (Suc (rp_len r))" "isOwnEcho st m"
    and "o_pending st (mutationKey m) = Some p"
  shows "fst (accept now m st) \<longleftrightarrow> mutationKey m \<in> o_superseded st
           \<and> \<not> supersededByRemove (rp_removed r) m (mutationKey m)"
    and "p_count p \<le> 1 \<Longrightarrow> o_pending (snd (accept now m st)) (mutationKey m) = None"
    and "1 < p_count p \<Longrightarrow> o_pending (snd (accept now m st)) (mutationKey m)
           = Some (p\<lparr>p_count := p_count p - 1\<rparr>)
         \<and> o_superseded (snd (accept now m st)) = o_superseded st"
  using notePosition_next [OF assms(1,2)] assms(3,4)
  by (auto simp: accept_next [OF assms(1,2)] Let_def acceptOwn_def)

lemma key_inv_own:
  assumes "order_inv r st" "m_seq m = Some (Suc (rp_len r))" "isOwnEcho st m"
    and "key_inv cont (m # ys) v r st (mutationKey m)"
  shows "key_inv cont ys (if fst (accept now m st) then cont (m_op m) else v)
           (replay_step cont r m) (snd (accept now m st)) (mutationKey m)"
proof -
  let ?k = "mutationKey m"
  let ?stale = "supersededByRemove (rp_removed r) m ?k"
  let ?v = "if fst (accept now m st) then cont (m_op m) else v"
  note K = assms(4) [unfolded key_inv_def pend_ok_def]
  from K obtain p where p: "o_pending st ?k = Some p" "p_count p = int (length (m # ys))"
    by (auto split: option.splits)
  note V = own_verdict [OF assms(1-3) p(1)]
  have d: "distinct (map fst (rp_removed r))" using assms(1) by (simp add: order_inv_def)
  have R: "rp_view (replay_step cont r m) ?k = (if ?stale then rp_view r ?k else cont (m_op m))"
    by (simp add: replay_step_fields)
  show ?thesis
  proof (cases ys)
    case Nil
    then have "o_pending (snd (accept now m st)) ?k = None" using V(2) p(2) by simp
    moreover have "?v = rp_view (replay_step cont r m) ?k"
    proof (cases "?k \<in> o_superseded st")
      case True
      then have "v = rp_view r ?k \<or> map_of (rp_removed r) ?k = None" using K by simp
      then have "?stale \<Longrightarrow> v = rp_view r ?k" by (auto simp: supersededByRemove_def)
      then show ?thesis using V(1) [of now] True R by auto
    next
      case False
      then have v: "v = cont (m_op m)" and u: "isUpsert m \<Longrightarrow> may_undo (rp_removed r) ?k m"
        using K Nil by auto
      have "\<not> ?stale" using u may_undo_not_stale removal_never_stale by blast
      then show ?thesis using V(1) [of now] False R v by simp
    qed
    ultimately show ?thesis using Nil by (simp add: key_inv_def pend_ok_def)
  next
    case (Cons y zs)
    then have c: "o_pending (snd (accept now m st)) ?k = Some (p\<lparr>p_count := p_count p - 1\<rparr>)"
      "o_superseded (snd (accept now m st)) = o_superseded st"
      using V(3) p(2) by simp_all
    have up: "list_all isUpsert ys \<and> isUpsert m" if "isUpsert (last ys)"
      using K that Cons by simp
    have rm: "map_of (rp_removed (replay_step cont r m)) ?k = None
        \<or> rp_removed (replay_step cont r m) = rp_removed r" if "isUpsert m"
      unfolding replay_step_fields using noteRemoval_self [OF d that, of ?stale] by (cases ?stale) auto
    show ?thesis
    proof (cases "?k \<in> o_superseded st")
      case True
      then have "v = rp_view r ?k \<or> map_of (rp_removed r) ?k = None" using K by simp
      then have "?v = rp_view (replay_step cont r m) ?k"
        using V(1) [of now] True R by (auto simp: supersededByRemove_def)
      then show ?thesis using c p(2) up Cons True by (simp add: key_inv_def pend_ok_def)
    next
      case False
      then have v: "v = cont (m_op (last ys))"
        and u: "isUpsert (last ys) \<Longrightarrow> may_undo (rp_removed r) ?k (last ys)"
        using K Cons by auto
      have "may_undo (rp_removed (replay_step cont r m)) ?k (last ys)" if "isUpsert (last ys)"
        using rm up [OF that] u [OF that] by (auto simp: may_undo_def)
      then show ?thesis using V(1) [of now] c p(2) up Cons False v by (simp add: key_inv_def pend_ok_def)
    qed
  qed
qed

text \<open>A peer's mutation of a key.\<close>

lemma suppressing_result:
  "o_pending (snd (suppressing now k st)) j =
     (if j = k then map_option (\<lambda>p. p\<lparr>p_stale := p_stale (the (o_pending (snd (suppressing now k st)) k))\<rparr>)
                      (o_pending st k)
      else o_pending st j)"
  "o_superseded (snd (suppressing now k st)) = o_superseded st"
  "fst (suppressing now k st) \<Longrightarrow> snd (suppressing now k st) = st \<and> o_pending st k \<noteq> None"
  by (auto simp: suppressing_def split: option.splits if_splits)

lemma peer_verdict:
  assumes "order_inv r st" "m_seq m = Some (Suc (rp_len r))" "\<not> isOwnEcho st m"
  defines "k \<equiv> mutationKey m"
  shows "supersededByRemove (rp_removed r) m k \<Longrightarrow>
           \<not> fst (accept now m st) \<and> o_pending (snd (accept now m st)) = o_pending st
           \<and> o_superseded (snd (accept now m st)) = o_superseded st"
    and "\<not> supersededByRemove (rp_removed r) m k \<Longrightarrow> \<not> fst (accept now m st) \<Longrightarrow>
           isUpsert m \<and> o_pending st k \<noteq> None \<and> o_pending (snd (accept now m st)) = o_pending st
           \<and> o_superseded (snd (accept now m st)) = o_superseded st"
    and "fst (accept now m st) \<Longrightarrow>
           \<not> supersededByRemove (rp_removed r) m k
           \<and> map_option p_count (o_pending (snd (accept now m st)) j) = map_option p_count (o_pending st j)
           \<and> o_superseded (snd (accept now m st)) =
               (if o_pending st k = None then o_superseded st else insert k (o_superseded st))"
proof -
  let ?st2 = "(notePosition m st)\<lparr>o_removed := noteRemoval True
      (supersededByRemove (rp_removed r) m k) m (rp_removed r)\<rparr>"
  have st2: "o_pending ?st2 = o_pending st" "o_superseded ?st2 = o_superseded st"
    using notePosition_next [OF assms(1,2)] by simp_all
  have acc: "accept now m st = acceptPeer now True (supersededByRemove (rp_removed r) m k) m ?st2"
    using assms(3) by (simp add: accept_next [OF assms(1,2)] Let_def k_def)
  show "supersededByRemove (rp_removed r) m k \<Longrightarrow>
           \<not> fst (accept now m st) \<and> o_pending (snd (accept now m st)) = o_pending st
           \<and> o_superseded (snd (accept now m st)) = o_superseded st"
    using notePosition_next [OF assms(1,2)] by (simp add: acc acceptPeer_def)
  obtain held st' where h: "(if \<not> isRemove m then suppressing now k ?st2 else (False, ?st2)) = (held, st')"
    by fastforce
  have st': "map_option p_count (o_pending st' j) = map_option p_count (o_pending st j)"
    "o_superseded st' = o_superseded st" "(o_pending st' k = None) = (o_pending st k = None)" for j
  proof -
    have s: "st' = snd (suppressing now k ?st2) \<or> st' = ?st2"
      using h by (metis snd_conv)
    show "map_option p_count (o_pending st' j) = map_option p_count (o_pending st j)"
      using s suppressing_result(1) [of now k ?st2 j] st2
      by (cases "o_pending st k") auto
    show "o_superseded st' = o_superseded st"
      using s suppressing_result(2) [of now k ?st2] st2 by auto
    show "(o_pending st' k = None) = (o_pending st k = None)"
      using s suppressing_result(1) [of now k ?st2 k] st2 by auto
  qed
  have held: "isUpsert m \<and> o_pending st k \<noteq> None \<and> st' = ?st2" if "held"
    using h that suppressing_result(3) [of now k ?st2] st2
    by (auto simp: isRemove_iff_not_isUpsert split: if_splits)
  show "isUpsert m \<and> o_pending st k \<noteq> None \<and> o_pending (snd (accept now m st)) = o_pending st
           \<and> o_superseded (snd (accept now m st)) = o_superseded st"
    if "\<not> supersededByRemove (rp_removed r) m k" "\<not> fst (accept now m st)"
  proof -
    have "held" using that h by (auto simp: acc acceptPeer_def Let_def k_def split: if_splits prod.splits)
    moreover from this that h have "snd (accept now m st) = st'"
      by (auto simp: acc acceptPeer_def Let_def k_def split: if_splits prod.splits)
    ultimately show ?thesis using held st2 by simp
  qed
  show "\<not> supersededByRemove (rp_removed r) m k
           \<and> map_option p_count (o_pending (snd (accept now m st)) j) = map_option p_count (o_pending st j)
           \<and> o_superseded (snd (accept now m st)) =
               (if o_pending st k = None then o_superseded st else insert k (o_superseded st))"
    if ok: "fst (accept now m st)"
  proof -
    have ns: "\<not> supersededByRemove (rp_removed r) m k"
      using ok by (auto simp: acc acceptPeer_def)
    have nh: "\<not> held"
      using ok h by (auto simp: acc acceptPeer_def Let_def k_def split: if_splits prod.splits)
    have "snd (accept now m st) = (if o_pending st' k \<noteq> None
        then st'\<lparr>o_superseded := insert k (o_superseded st')\<rparr> else st')"
      using ns nh h by (auto simp: acc acceptPeer_def Let_def k_def split: if_splits prod.splits)
    with ns st' show ?thesis by auto
  qed
qed

lemma pending_case_count:
  "map_option p_count (o_pending st' k) = map_option p_count (o_pending st k) \<Longrightarrow>
   pend_ok st' k P = pend_ok st k P"
  by (auto simp: pend_ok_def split: option.splits)

lemma pend_ok_None: "pend_ok st k P \<Longrightarrow> P = [] \<longleftrightarrow> o_pending st k = None"
  by (auto simp: pend_ok_def split: option.splits)

lemma key_inv_peer:
  assumes "order_inv r st" "m_seq m = Some (Suc (rp_len r))" "\<not> isOwnEcho st m"
    and "key_inv cont P v r st (mutationKey m)"
  shows "key_inv cont P (if fst (accept now m st) then cont (m_op m) else v)
           (replay_step cont r m) (snd (accept now m st)) (mutationKey m)"
proof -
  let ?k = "mutationKey m"
  let ?stale = "supersededByRemove (rp_removed r) m ?k"
  note K = key_invD [OF assms(4)]
  note V = peer_verdict [OF assms(1-3)]
  have d: "distinct (map fst (rp_removed r))" using assms(1) by (simp add: order_inv_def)
  have R: "rp_view (replay_step cont r m) ?k = (if ?stale then rp_view r ?k else cont (m_op m))"
    by (simp add: replay_step_fields)
  show ?thesis
  proof (cases ?stale)
    case True
    then have "rp_removed (replay_step cont r m) = rp_removed r"
      using noteRemoval_self(2) [OF d removal_never_stale [OF True]] by (simp add: replay_step_fields)
    with V(1) [OF True, of now] R True K show ?thesis
      by (intro key_invI) (simp_all add: pend_ok_def)
  next
    case ns: False
    show ?thesis
    proof (cases "fst (accept now m st)")
      case False
      note h = V(2) [OF ns False]
      then have "map_of (rp_removed (replay_step cont r m)) ?k = None"
        using noteRemoval_self(1) [OF d, of m] ns by (simp add: replay_step_fields)
      moreover have "P \<noteq> []" using h pend_ok_None [OF K(1)] by auto
      ultimately show ?thesis using h False K(1,3,6)
        by (intro key_invI) (simp_all add: pend_ok_def may_undo_def)
    next
      case True
      note a = V(3) [OF True, of ?k]
      have "P \<noteq> [] \<longleftrightarrow> o_pending st ?k \<noteq> None" using pend_ok_None [OF K(1)] by simp
      then have sup: "P \<noteq> [] \<Longrightarrow> ?k \<in> o_superseded (snd (accept now m st))" using a by auto
      have v: "(if fst (accept now m st) then cont (m_op m) else v) = rp_view (replay_step cont r m) ?k"
        using True ns R by simp
      have "pend_ok (snd (accept now m st)) ?k P"
        using pending_case_count [of "snd (accept now m st)" ?k st P] a K(1) by blast
      then show ?thesis unfolding v
        by (rule key_invI) (simp_all add: sup K(6))
    qed
  qed
qed

text \<open>A mutation of another key.\<close>

lemma accept_other_key:
  assumes "order_inv r st" "m_seq m = Some (Suc (rp_len r))" "k \<noteq> mutationKey m"
  shows "o_pending (snd (accept now m st)) k = o_pending st k
    \<and> (k \<in> o_superseded (snd (accept now m st)) \<longleftrightarrow> k \<in> o_superseded st)"
proof -
  let ?s = "supersededByRemove (rp_removed r) m (mutationKey m)"
  let ?st2 = "(notePosition m st)\<lparr>o_removed := noteRemoval True ?s m (rp_removed r)\<rparr>"
  note np = notePosition_next [OF assms(1,2)]
  have own: "o_pending (snd (acceptOwn c s (mutationKey m) x)) k = o_pending x k
      \<and> (k \<in> o_superseded (snd (acceptOwn c s (mutationKey m) x)) \<longleftrightarrow> k \<in> o_superseded x)" for c s x
    using assms(3) by (simp add: acceptOwn_def Let_def split: option.split)
  have peer: "o_pending (snd (acceptPeer now c s m x)) k = o_pending x k
      \<and> (k \<in> o_superseded (snd (acceptPeer now c s m x)) \<longleftrightarrow> k \<in> o_superseded x)" for c s x
    using assms(3) suppressing_result(1) [of now "mutationKey m" x k]
      suppressing_result(2) [of now "mutationKey m" x]
    by (cases "isRemove m"; cases "suppressing now (mutationKey m) x")
      (simp_all add: acceptPeer_def Let_def)
  show ?thesis
    using own [of True ?s ?st2] peer [of True ?s ?st2] np
    by (simp add: accept_next [OF assms(1,2)] Let_def)
qed

lemma key_inv_other:
  assumes "order_inv r st" "m_seq m = Some (Suc (rp_len r))" "k \<noteq> mutationKey m"
    and "key_inv cont P v r st k"
  shows "key_inv cont P v (replay_step cont r m) (snd (accept now m st)) k"
proof -
  have d: "distinct (map fst (rp_removed r))" using assms(1) by (simp add: order_inv_def)
  have w: "map_of (rp_removed (replay_step cont r m)) k = None
      \<or> map_of (rp_removed (replay_step cont r m)) k = map_of (rp_removed r) k"
    using noteRemoval_keys(2) [OF d assms(3)] by (simp add: replay_step_fields)
  have v: "rp_view (replay_step cont r m) k = rp_view r k"
    using assms(3) by (simp add: replay_step_fields)
  have o: "o_pending (snd (accept now m st)) k = o_pending st k"
    "(k \<in> o_superseded (snd (accept now m st))) = (k \<in> o_superseded st)"
    using accept_other_key [OF assms(1-3)] by auto
  have u: "may_undo (rp_removed r) k x \<Longrightarrow> may_undo (rp_removed (replay_step cont r m)) k x" for x
    using may_undo_weaken w by blast
  have n: "map_of (rp_removed r) k = None \<Longrightarrow> map_of (rp_removed (replay_step cont r m)) k = None"
    using w by auto
  note K = key_invD [OF assms(4)]
  show ?thesis
  proof (rule key_invI)
    show "pend_ok (snd (accept now m st)) k P" using K(1) by (simp add: pend_ok_def o(1))
  qed (simp_all add: o(2) v K(2,3,6) u [OF K(4)] n [OF K(5)])
qed

text \<open>A local edit, and what the reflector does to a cast.\<close>

lemma key_inv_local:
  assumes "order_inv r st" "mutationKey m = k" "m_seen m = Some (jsnat (o_lastSeq st))"
    and "isUpsert m \<Longrightarrow> list_all isUpsert P" and "key_inv cont P v r st k"
  shows "key_inv cont (P @ [m]) (cont (m_op m)) r (onLocal now m st) k"
proof -
  have "may_undo (rp_removed r) k m"
    using assms(1,3) map_of_SomeD by (fastforce simp: may_undo_def order_inv_def split: option.splits)
  then show ?thesis
    using assms(2,4) key_invD(1) [OF assms(5)]
    by (intro key_invI) (auto simp: pend_ok_def onLocal_def Let_def split: option.splits)
qed

lemma onLocal_other:
  "mutationKey m \<noteq> k \<Longrightarrow> key_inv cont P v r (onLocal now m st) k = key_inv cont P v r st k"
  "order_inv r (onLocal now m st) = order_inv r st"
  "o_src (onLocal now m st) = o_src st"
  by (simp_all add: key_inv_def pend_ok_def onLocal_def Let_def order_inv_def)

definition cast_sig ::
  "(mutation_op \<Rightarrow> 'v option) \<Rightarrow> canvas_mutation \<Rightarrow> 'v option \<times> bool \<times> jsnum option" where
  "cast_sig cont m = (cont (m_op m), isUpsert m, m_seen m)"

lemma key_inv_sig:
  assumes "map (cast_sig cont) P = map (cast_sig cont) Q" "key_inv cont P v r st k"
  shows "key_inv cont Q v r st k"
proof -
  have len: "length P = length Q" using assms(1) by (metis length_map)
  then have e: "P = [] \<longleftrightarrow> Q = []" by auto
  have l: "P \<noteq> [] \<Longrightarrow> cast_sig cont (last P) = cast_sig cont (last Q)"
    using assms(1) e by (metis last_map)
  have u: "list_all isUpsert P = list_all isUpsert Q"
  proof -
    have "map isUpsert X = map (fst \<circ> snd) (map (cast_sig cont) X)" for X
      by (simp add: cast_sig_def comp_def)
    then have "map isUpsert P = map isUpsert Q" using assms(1) by metis
    moreover have "list_all isUpsert X = list_all (\<lambda>b. b) (map isUpsert X)" for X
      by (simp add: list.pred_map comp_def)
    ultimately show ?thesis by simp
  qed
  have m: "may_undo rm k x = may_undo rm k y" if "cast_sig cont x = cast_sig cont y" for rm x y
    using that by (auto simp: may_undo_def cast_sig_def split: option.splits)
  have lst: "cont (m_op (last P)) = cont (m_op (last Q))" "isUpsert (last P) = isUpsert (last Q)"
    "may_undo rm k (last P) = may_undo rm k (last Q)" if "P \<noteq> []" for rm
  proof -
    show "cont (m_op (last P)) = cont (m_op (last Q))" "isUpsert (last P) = isUpsert (last Q)"
      using l [OF that] by (simp_all add: cast_sig_def)
    show "may_undo rm k (last P) = may_undo rm k (last Q)" by (rule m [OF l [OF that]])
  qed
  show ?thesis
  proof (cases "P = []")
    case True
    with assms(2) e show ?thesis by simp
  next
    case False
    note K = key_invD [OF assms(2)]
    have "pend_ok st k Q" using K(1) len e by (auto simp: pend_ok_def split: option.splits)
    then show ?thesis
      by (rule key_invI) (use False e in \<open>simp_all add: lst [OF False, symmetric] u [symmetric] K\<close>)
  qed
qed

section \<open>The interface of a canvas\<close>

text \<open>
  What the ordering relies on: a canvas is a map from keys to contents, and applying a mutation sets
  the content of its key. The lemmas hold for every canvas with this law.
\<close>

locale keyed_canvas =
  fixes app :: "canvas_mutation \<Rightarrow> 'c \<Rightarrow> 'c"
    and view :: "'c \<Rightarrow> string \<Rightarrow> 'v option"
    and cont :: "mutation_op \<Rightarrow> 'v option"
    and wf :: "'c \<Rightarrow> bool"
    and ok :: "mutation_op \<Rightarrow> bool"
  assumes view_app: "wf c \<Longrightarrow> ok (m_op m) \<Longrightarrow>
      view (app m c) k = (if k = mutationKey m then cont (m_op m) else view c k)"
    and wf_app: "wf c \<Longrightarrow> ok (m_op m) \<Longrightarrow> wf (app m c)"
begin

definition shows_as :: "(string \<Rightarrow> canvas_mutation list) \<Rightarrow> 'c \<Rightarrow> 'v replay \<Rightarrow> canvas_order \<Rightarrow> bool" where
  "shows_as P c r st \<longleftrightarrow> wf c \<and> order_inv r st \<and> (\<forall>k. key_inv cont (P k) (view c k) r st k)"

lemma deliver:
  assumes "shows_as P c r st" "m_seq m = Some (Suc (rp_len r))" "ok (m_op m)"
    and own: "isOwnEcho st m \<Longrightarrow> P (mutationKey m) = m # Q (mutationKey m)"
    and peer: "\<not> isOwnEcho st m \<Longrightarrow> Q (mutationKey m) = P (mutationKey m)"
    and other: "\<And>k. k \<noteq> mutationKey m \<Longrightarrow> Q k = P k"
  shows "shows_as Q (if fst (accept now m st) then app m c else c) (replay_step cont r m)
           (snd (accept now m st))"
proof -
  let ?c = "if fst (accept now m st) then app m c else c"
  from assms(1) have w: "wf c" and oi: "order_inv r st"
    and K: "key_inv cont (P k) (view c k) r st k" for k
    by (auto simp: shows_as_def)
  have view: "view ?c k = (if fst (accept now m st) \<and> k = mutationKey m then cont (m_op m) else view c k)" for k
    using view_app [OF w assms(3)] by simp
  have "key_inv cont (Q k) (view ?c k) (replay_step cont r m) (snd (accept now m st)) k" for k
  proof (cases "k = mutationKey m")
    case True
    show ?thesis
    proof (cases "isOwnEcho st m")
      case t: True
      have "key_inv cont (m # Q k) (view c k) r st k" using K [of k] own [OF t] True by simp
      from key_inv_own [OF oi assms(2) t this [unfolded True]] show ?thesis
        unfolding view True by simp
    next
      case f: False
      from key_inv_peer [OF oi assms(2) f K [of "mutationKey m"]] peer [OF f] show ?thesis
        unfolding view True by simp
    qed
  next
    case False
    from key_inv_other [OF oi assms(2) False K] show ?thesis
      unfolding view using other [OF False] False by simp
  qed
  moreover have "wf ?c" using w wf_app [OF w assms(3)] by simp
  ultimately show ?thesis
    using accept_positions(1) [OF oi assms(2)] by (simp add: shows_as_def)
qed

lemma edit:
  assumes "shows_as P c r st" "m_seen m = Some (jsnat (o_lastSeq st))"
    and "isUpsert m \<Longrightarrow> list_all isUpsert (P (mutationKey m))"
    and "wf c'" "\<And>k. view c' k = (if k = mutationKey m then cont (m_op m) else view c k)"
    and "Q (mutationKey m) = P (mutationKey m) @ [m]" "\<And>k. k \<noteq> mutationKey m \<Longrightarrow> Q k = P k"
  shows "shows_as Q c' r (onLocal now m st)"
proof -
  from assms(1) have oi: "order_inv r st"
    and K: "key_inv cont (P k) (view c k) r st k" for k
    by (auto simp: shows_as_def)
  have "key_inv cont (Q k) (view c' k) r (onLocal now m st) k" for k
  proof (cases "k = mutationKey m")
    case True
    from key_inv_local [OF oi refl assms(2,3) K [of "mutationKey m"]] show ?thesis
      by (simp add: True assms(5,6))
  next
    case False
    then show ?thesis using K [of k] assms(5,7) by (simp add: onLocal_other(1))
  qed
  then show ?thesis using oi assms(4) by (simp add: shows_as_def onLocal_other(2))
qed

lemma relabel:
  assumes "shows_as P c r st" "\<And>k. map (cast_sig cont) (P k) = map (cast_sig cont) (Q k)"
  shows "shows_as Q c r st"
  using assms(1) key_inv_sig [OF assms(2)] by (simp add: shows_as_def)

lemma quiet:
  assumes "shows_as P c r st" "\<And>k. P k = []"
  shows "view c = rp_view r"
proof
  fix k
  have "key_inv cont (P k) (view c k) r st k" using assms(1) by (simp add: shows_as_def)
  from key_invD(2) [OF this] assms(2) show "view c k = rp_view r k" by simp
qed

end

interpretation scenes: keyed_canvas "applyScene E d" scene_view op_content plain_scene plain_op
  for E d
  by unfold_locales (simp_all add: scene_view_applyScene plain_applyScene)

section \<open>The system\<close>

record client =
  cl_order :: canvas_order
  cl_scene :: canvas_scene
  cl_out :: "canvas_mutation list"
  cl_pos :: nat

record sync_system =
  sy_log :: "canvas_mutation list"
  sy_clients :: "client list"

text \<open>A cast: the operation with the publisher's tag and its causal position.\<close>

definition cast_of :: "client \<Rightarrow> mutation_op \<Rightarrow> canvas_mutation" where
  "cast_of c p = stamp (cl_order c) ((op_mutation p)\<lparr>m_src := Some (o_src (cl_order c))\<rparr>)"

definition local_edit :: "int \<Rightarrow> mutation_op \<Rightarrow> canvas_scene \<Rightarrow> client \<Rightarrow> client" where
  "local_edit now p sc c =
     c\<lparr>cl_order := onLocal now (cast_of c p) (cl_order c), cl_scene := sc,
       cl_out := cl_out c @ [cast_of c p]\<rparr>"

text \<open>The receiving side: the verdict, and the scene it leads to.\<close>

definition receive :: "js_env \<Rightarrow> string option \<Rightarrow> int \<Rightarrow> canvas_mutation \<Rightarrow> client \<Rightarrow> client" where
  "receive E d now m c =
     c\<lparr>cl_order := snd (accept now m (cl_order c)),
       cl_scene := (if fst (accept now m (cl_order c)) then applyScene E d m (cl_scene c)
                    else cl_scene c),
       cl_pos := Suc (cl_pos c)\<rparr>"

definition in_flight :: "canvas_mutation list \<Rightarrow> client \<Rightarrow> string \<Rightarrow> canvas_mutation list" where
  "in_flight lg c k =
     filter (\<lambda>m. mutationKey m = k \<and> m_src m = Some (o_src (cl_order c)))
       (drop (cl_pos c) lg @ cl_out c)"

text \<open>
  The steps. With the discipline, a client does not upsert a key while a removal of its own for that
  key is unacknowledged; the clock readings are arbitrary, so every verdict of the time bound occurs.
\<close>

inductive sync_step :: "js_env \<Rightarrow> string option \<Rightarrow> bool \<Rightarrow> sync_system \<Rightarrow> sync_system \<Rightarrow> bool"
  for E d discipline where
  edit: "i < length (sy_clients s) \<Longrightarrow> c = sy_clients s ! i \<Longrightarrow> plain_op p \<Longrightarrow> plain_scene sc \<Longrightarrow>
    (\<And>k. scene_view sc k = (if k = op_key p then op_content p else scene_view (cl_scene c) k)) \<Longrightarrow>
    (discipline \<Longrightarrow> op_is_upsert p \<Longrightarrow> list_all isUpsert (in_flight (sy_log s) c (op_key p))) \<Longrightarrow>
    sync_step E d discipline s (s\<lparr>sy_clients := (sy_clients s)[i := local_edit now p sc c]\<rparr>)"
| reflect: "i < length (sy_clients s) \<Longrightarrow> c = sy_clients s ! i \<Longrightarrow> cl_out c = m # ms \<Longrightarrow>
    sync_step E d discipline s
      (s\<lparr>sy_log := sy_log s @ [stampMutation (sanitizeInboundMutation m) (length (sy_log s) + 1)],
         sy_clients := (sy_clients s)[i := c\<lparr>cl_out := ms\<rparr>]\<rparr>)"
| deliver: "i < length (sy_clients s) \<Longrightarrow> c = sy_clients s ! i \<Longrightarrow> cl_pos c < length (sy_log s) \<Longrightarrow>
    sync_step E d discipline s
      (s\<lparr>sy_clients := (sy_clients s)[i := receive E d now (sy_log s ! cl_pos c) c]\<rparr>)"

text \<open>Every client starts on the canvas that the file holds, under a tag of its own.\<close>

definition sync_init :: "sync_system \<Rightarrow> bool" where
  "sync_init s \<longleftrightarrow>
     sy_log s = []
     \<and> distinct (map (\<lambda>c. o_src (cl_order c)) (sy_clients s))
     \<and> (\<forall>c \<in> set (sy_clients s).
          isRefId (o_src (cl_order c))
          \<and> cl_order c = createCanvasOrder (o_src (cl_order c)) (o_ttlMs (cl_order c))
          \<and> plain_scene (cl_scene c) \<and> cl_out c = [] \<and> cl_pos c = 0
          \<and> (\<forall>c' \<in> set (sy_clients s). scene_view (cl_scene c) = scene_view (cl_scene c')))"

definition quiescent :: "sync_system \<Rightarrow> bool" where
  "quiescent s \<longleftrightarrow> (\<forall>c \<in> set (sy_clients s). cl_out c = [] \<and> cl_pos c = length (sy_log s))"

section \<open>The invariant of the system\<close>

definition client_inv ::
  "(string \<Rightarrow> content option) \<Rightarrow> canvas_mutation list \<Rightarrow> client \<Rightarrow> bool" where
  "client_inv v0 lg c \<longleftrightarrow>
     cl_pos c \<le> length lg
     \<and> isRefId (o_src (cl_order c))
     \<and> scenes.shows_as (in_flight lg c) (cl_scene c) (replay_all op_content v0 (take (cl_pos c) lg))
         (cl_order c)
     \<and> (\<forall>m \<in> set (cl_out c). m_src m = Some (o_src (cl_order c)) \<and> plain_op (m_op m)
          \<and> (\<exists>q \<le> length lg. m_seen m = Some (jsnat q)))"

definition sync_inv :: "(string \<Rightarrow> content option) \<Rightarrow> sync_system \<Rightarrow> bool" where
  "sync_inv v0 s \<longleftrightarrow>
     distinct (map (\<lambda>c. o_src (cl_order c)) (sy_clients s))
     \<and> (\<forall>j < length (sy_log s). m_seq (sy_log s ! j) = Some (Suc j) \<and> plain_op (m_op (sy_log s ! j)))
     \<and> (\<forall>c \<in> set (sy_clients s). client_inv v0 (sy_log s) c)"

lemma op_mutation_simps [simp]:
  "m_op (op_mutation p) = p" "m_src (op_mutation p) = None"
  "m_seq (op_mutation p) = None" "m_seen (op_mutation p) = None"
  by (simp_all add: op_mutation_def)

lemma cast_of_simps [simp]:
  "m_op (cast_of c p) = p" "m_src (cast_of c p) = Some (o_src (cl_order c))"
  "m_seen (cast_of c p) = Some (jsnat (o_lastSeq (cl_order c)))"
  "mutationKey (cast_of c p) = op_key p" "isUpsert (cast_of c p) = op_is_upsert p"
  by (simp_all add: cast_of_def stamp_def mutationKey_def isUpsert_def)

lemma local_edit_simps [simp]:
  "o_src (cl_order (local_edit now p sc c)) = o_src (cl_order c)"
  "cl_pos (local_edit now p sc c) = cl_pos c" "cl_scene (local_edit now p sc c) = sc"
  "cl_order (local_edit now p sc c) = onLocal now (cast_of c p) (cl_order c)"
  "cl_out (local_edit now p sc c) = cl_out c @ [cast_of c p]"
  by (simp_all add: local_edit_def onLocal_other(3))

lemma client_inv_edit:
  assumes inv: "client_inv v0 lg c" and "plain_op p" "plain_scene sc"
    and eff: "\<And>k. scene_view sc k = (if k = op_key p then op_content p else scene_view (cl_scene c) k)"
    and dis: "op_is_upsert p \<Longrightarrow> list_all isUpsert (in_flight lg c (op_key p))"
  shows "client_inv v0 lg (local_edit now p sc c)"
proof -
  let ?r = "replay_all op_content v0 (take (cl_pos c) lg)"
  let ?m = "cast_of c p"
  from inv have s: "scenes.shows_as (in_flight lg c) (cl_scene c) ?r (cl_order c)"
    and pos: "cl_pos c \<le> length lg" by (auto simp: client_inv_def)
  then have last: "o_lastSeq (cl_order c) = cl_pos c"
    by (simp add: scenes.shows_as_def order_inv_def)
  have fl: "in_flight lg (local_edit now p sc c) k = in_flight lg c k @ (if k = op_key p then [?m] else [])" for k
    by (simp add: in_flight_def onLocal_other(3))
  have "scenes.shows_as (in_flight lg (local_edit now p sc c)) sc ?r (onLocal now ?m (cl_order c))"
    by (rule scenes.edit [OF s]) (use assms fl in simp_all)
  with inv assms(2) last pos show ?thesis by (auto simp: client_inv_def onLocal_other(3))
qed

lemma cast_sig_reflected:
  assumes "m_seen m = Some (jsnat q)" "q \<le> n"
  shows "cast_sig op_content (stampMutation (sanitizeInboundMutation m) (n + 1)) = cast_sig op_content m"
  using assms by (simp add: cast_sig_def) (simp add: stampMutation_def of_int_floor_cancel Ints_of_nat)

lemma stamp_src: "m_src m = Some t \<Longrightarrow> isRefId t \<Longrightarrow> m_src (stampMutation m n) = Some t"
  by (simp add: stampMutation_def)

lemma client_inv_reflect_own:
  assumes inv: "client_inv v0 lg c" and out: "cl_out c = m # ms"
  shows "client_inv v0 (lg @ [stampMutation (sanitizeInboundMutation m) (length lg + 1)])
           (c\<lparr>cl_out := ms\<rparr>)"
proof -
  let ?m = "stampMutation (sanitizeInboundMutation m) (length lg + 1)"
  let ?r = "replay_all op_content v0 (take (cl_pos c) lg)"
  from inv have s: "scenes.shows_as (in_flight lg c) (cl_scene c) ?r (cl_order c)"
    and pos: "cl_pos c \<le> length lg" and ref: "isRefId (o_src (cl_order c))"
    by (auto simp: client_inv_def)
  from inv out obtain q where m: "m_src m = Some (o_src (cl_order c))" "m_seen m = Some (jsnat q)"
    "q \<le> length lg" by (auto simp: client_inv_def)
  have sg: "cast_sig op_content ?m = cast_sig op_content m" by (rule cast_sig_reflected [OF m(2,3)])
  have src: "m_src ?m = Some (o_src (cl_order c))" using stamp_src [of "sanitizeInboundMutation m"] m(1) ref by simp
  have "map (cast_sig op_content) (in_flight lg c k)
      = map (cast_sig op_content) (in_flight (lg @ [?m]) (c\<lparr>cl_out := ms\<rparr>) k)" for k
    using pos sg src m(1) out by (simp add: in_flight_def)
  then have "scenes.shows_as (in_flight (lg @ [?m]) (c\<lparr>cl_out := ms\<rparr>)) (cl_scene c) ?r (cl_order c)"
    by (rule scenes.relabel [OF s])
  with inv out pos show ?thesis by (auto simp: client_inv_def le_SucI)
qed

lemma client_inv_reflect_peer:
  assumes inv: "client_inv v0 lg c" and "m_src m \<noteq> Some (o_src (cl_order c))"
  shows "client_inv v0 (lg @ [m]) c"
proof -
  have "in_flight (lg @ [m]) c = in_flight lg c"
    using assms by (auto simp: in_flight_def client_inv_def)
  with inv show ?thesis by (auto simp: client_inv_def le_SucI)
qed

lemma client_inv_deliver:
  assumes inv: "client_inv v0 lg c" and pos: "cl_pos c < length lg"
    and m: "m_seq (lg ! cl_pos c) = Some (Suc (cl_pos c))" "plain_op (m_op (lg ! cl_pos c))"
  shows "client_inv v0 lg (receive E d now (lg ! cl_pos c) c)"
proof -
  let ?m = "lg ! cl_pos c"
  let ?r = "replay_all op_content v0 (take (cl_pos c) lg)"
  let ?c = "receive E d now ?m c"
  from inv have s: "scenes.shows_as (in_flight lg c) (cl_scene c) ?r (cl_order c)"
    and ref: "isRefId (o_src (cl_order c))" by (auto simp: client_inv_def)
  have seq: "m_seq ?m = Some (Suc (rp_len ?r))" using m(1) pos by simp
  have oi: "order_inv ?r (cl_order c)" using s by (simp add: scenes.shows_as_def)
  have src: "o_src (cl_order ?c) = o_src (cl_order c)"
    using accept_positions(2) [OF oi seq] by (simp add: receive_def)
  have own: "isOwnEcho (cl_order c) ?m \<longleftrightarrow> m_src ?m = Some (o_src (cl_order c))"
    using ref by (auto simp: isOwnEcho_def isRefId_def split: option.splits)
  have "drop (cl_pos c) lg = ?m # drop (Suc (cl_pos c)) lg" using pos by (simp add: Cons_nth_drop_Suc)
  then have fl: "in_flight lg c k = (if k = mutationKey ?m \<and> m_src ?m = Some (o_src (cl_order c)) then [?m] else [])
      @ in_flight lg ?c k" for k
    by (auto simp: in_flight_def src) (auto simp: receive_def)
  have "scenes.shows_as (in_flight lg ?c)
      (if fst (accept now ?m (cl_order c)) then applyScene E d ?m (cl_scene c) else cl_scene c)
      (replay_step op_content ?r ?m) (snd (accept now ?m (cl_order c)))"
    by (rule scenes.deliver [OF s seq m(2)]) (use own fl in simp_all)
  moreover have "replay_step op_content ?r ?m = replay_all op_content v0 (take (Suc (cl_pos c)) lg)"
    using pos by (simp add: take_Suc_conv_app_nth replay_snoc)
  ultimately show ?thesis
    using inv pos src by (auto simp: client_inv_def receive_def)
qed

lemma map_src_update:
  "i < length cs \<Longrightarrow> f c' = f (cs ! i) \<Longrightarrow> map f (cs[i := c']) = map f cs"
  by (metis list_update_id map_update)

lemma sync_inv_step:
  assumes "sync_step E d True s s'" "sync_inv v0 s"
  shows "sync_inv v0 s'"
  using assms(1)
proof cases
  case (edit i c p sc now)
  have c: "c \<in> set (sy_clients s)" using edit by simp
  with assms(2) have ci: "client_inv v0 (sy_log s) c" by (simp add: sync_inv_def)
  have "client_inv v0 (sy_log s) (local_edit now p sc c)"
    by (rule client_inv_edit [OF ci]) (use edit in simp_all)
  moreover have "map (\<lambda>c. o_src (cl_order c)) ((sy_clients s)[i := local_edit now p sc c])
      = map (\<lambda>c. o_src (cl_order c)) (sy_clients s)"
    using edit(2,3) by (intro map_src_update) (simp_all add: onLocal_other(3))
  ultimately show ?thesis
    using assms(2) edit(1) set_update_subset_insert [of "sy_clients s" i "local_edit now p sc c"]
    by (auto simp: sync_inv_def)
next
  case (reflect i c m ms)
  let ?m = "stampMutation (sanitizeInboundMutation m) (length (sy_log s) + 1)"
  have c: "c \<in> set (sy_clients s)" using reflect by simp
  with assms(2) have ci: "client_inv v0 (sy_log s) c" by (simp add: sync_inv_def)
  have own: "client_inv v0 (sy_log s @ [?m]) (c\<lparr>cl_out := ms\<rparr>)"
    by (rule client_inv_reflect_own [OF ci reflect(4)])
  have mp: "m_src m = Some (o_src (cl_order c))" "plain_op (m_op m)"
    using ci reflect(4) by (auto simp: client_inv_def)
  have src: "m_src ?m = Some (o_src (cl_order c))"
    using stamp_src [of "sanitizeInboundMutation m"] mp(1) ci by (simp add: client_inv_def)
  have others: "client_inv v0 (sy_log s @ [?m]) c'" if mem: "c' \<in> set ((sy_clients s)[i := c\<lparr>cl_out := ms\<rparr>])" for c'
  proof -
    obtain j where j: "j < length (sy_clients s)" "c' = (sy_clients s)[i := c\<lparr>cl_out := ms\<rparr>] ! j"
      using mem by (metis in_set_conv_nth length_list_update)
    show ?thesis
    proof (cases "j = i")
      case True
      then show ?thesis using j own by simp
    next
      case False
      then have c': "c' = sy_clients s ! j" using j by simp
      have dist: "distinct (map (\<lambda>c. o_src (cl_order c)) (sy_clients s))"
        using assms(2) by (simp add: sync_inv_def)
      have "(map (\<lambda>c. o_src (cl_order c)) (sy_clients s) ! j
          = map (\<lambda>c. o_src (cl_order c)) (sy_clients s) ! i) = (j = i)"
        by (rule nth_eq_iff_index_eq [OF dist]) (use j(1) reflect(2) in simp_all)
      with False have "map (\<lambda>c. o_src (cl_order c)) (sy_clients s) ! j
          \<noteq> map (\<lambda>c. o_src (cl_order c)) (sy_clients s) ! i" by simp
      then have "m_src ?m \<noteq> Some (o_src (cl_order c'))"
        using src c' j(1) reflect(2,3) by simp
      with client_inv_reflect_peer assms(2) c' j(1) show ?thesis by (simp add: sync_inv_def)
    qed
  qed
  have "m_seq ((sy_log s @ [?m]) ! j) = Some (Suc j) \<and> plain_op (m_op ((sy_log s @ [?m]) ! j))"
    if "j < length (sy_log s @ [?m])" for j
    using that assms(2) plain_sanitize [OF mp(2)]
    by (cases "j = length (sy_log s)") (auto simp: sync_inv_def nth_append)
  moreover have "map (\<lambda>c. o_src (cl_order c)) ((sy_clients s)[i := c\<lparr>cl_out := ms\<rparr>])
      = map (\<lambda>c. o_src (cl_order c)) (sy_clients s)"
    using reflect(2,3) by (intro map_src_update) simp_all
  ultimately show ?thesis
    using assms(2) reflect(1) others by (simp add: sync_inv_def)
next
  case (deliver i c now)
  have c: "c \<in> set (sy_clients s)" using deliver by simp
  with assms(2) have ci: "client_inv v0 (sy_log s) c" by (simp add: sync_inv_def)
  let ?c = "receive E d now (sy_log s ! cl_pos c) c"
  have m: "m_seq (sy_log s ! cl_pos c) = Some (Suc (cl_pos c))" "plain_op (m_op (sy_log s ! cl_pos c))"
    using assms(2) deliver(4) by (simp_all add: sync_inv_def)
  have di: "client_inv v0 (sy_log s) ?c" by (rule client_inv_deliver [OF ci deliver(4) m])
  have oi: "order_inv (replay_all op_content v0 (take (cl_pos c) (sy_log s))) (cl_order c)"
    using ci by (simp add: client_inv_def scenes.shows_as_def)
  have "m_seq (sy_log s ! cl_pos c)
      = Some (Suc (rp_len (replay_all op_content v0 (take (cl_pos c) (sy_log s)))))"
    using m(1) deliver(4) by simp
  from accept_positions(2) [OF oi this]
  have "map (\<lambda>c. o_src (cl_order c)) ((sy_clients s)[i := ?c])
      = map (\<lambda>c. o_src (cl_order c)) (sy_clients s)"
    using deliver(2,3) by (intro map_src_update) (simp_all add: receive_def)
  then show ?thesis
    using assms(2) deliver(1) di set_update_subset_insert [of "sy_clients s" i ?c]
    by (auto simp: sync_inv_def)
qed

lemma sync_inv_init:
  assumes "sync_init s"
  shows "\<exists>v0. sync_inv v0 s \<and> (\<forall>c \<in> set (sy_clients s). scene_view (cl_scene c) = v0)"
proof (cases "sy_clients s")
  case Nil
  with assms show ?thesis by (auto simp: sync_inv_def sync_init_def)
next
  case (Cons c0 cs)
  let ?v = "scene_view (cl_scene c0)"
  have v: "scene_view (cl_scene c) = ?v" if "c \<in> set (sy_clients s)" for c
    using assms that Cons by (auto simp: sync_init_def)
  have "client_inv ?v (sy_log s) c" if "c \<in> set (sy_clients s)" for c
  proof -
    have c: "cl_order c = createCanvasOrder (o_src (cl_order c)) (o_ttlMs (cl_order c))"
      "plain_scene (cl_scene c)" "cl_out c = []" "cl_pos c = 0" "isRefId (o_src (cl_order c))"
      "sy_log s = []"
      using assms that by (auto simp: sync_init_def)
    have o: "o_pending (cl_order c) = Map.empty" "o_removed (cl_order c) = []"
      "o_lastSeq (cl_order c) = 0" "o_seen (cl_order c) = Map.empty"
      by (subst c(1), simp add: createCanvasOrder_def)+
    show ?thesis
      using c v [OF that]
      by (auto simp: client_inv_def scenes.shows_as_def key_inv_def pend_ok_def order_inv_def
          in_flight_def replay_all_def o)
  qed
  with assms v show ?thesis by (auto simp: sync_inv_def sync_init_def)
qed

section \<open>Convergence\<close>

lemma sync_inv_reach:
  "(sync_step E d True)\<^sup>*\<^sup>* s s' \<Longrightarrow> sync_inv v0 s \<Longrightarrow> sync_inv v0 s'"
  by (induction rule: rtranclp_induct) (blast intro: sync_inv_step)+

lemma quiet_view:
  assumes "sync_inv v0 s" "quiescent s" "c \<in> set (sy_clients s)"
  shows "scene_view (cl_scene c) = rp_view (replay_all op_content v0 (sy_log s))"
proof -
  have "client_inv v0 (sy_log s) c" "cl_out c = []" "cl_pos c = length (sy_log s)"
    using assms by (auto simp: sync_inv_def quiescent_def)
  then show ?thesis
    using scenes.quiet [of "in_flight (sy_log s) c"] by (fastforce simp: client_inv_def in_flight_def)
qed


section \<open>Runs\<close>

text \<open>The steps as functions, for concrete runs.\<close>

definition do_edit :: "nat \<Rightarrow> int \<Rightarrow> mutation_op \<Rightarrow> canvas_scene \<Rightarrow> sync_system \<Rightarrow> sync_system" where
  "do_edit i now p sc s =
     s\<lparr>sy_clients := (sy_clients s)[i := local_edit now p sc (sy_clients s ! i)]\<rparr>"

definition do_reflect :: "nat \<Rightarrow> sync_system \<Rightarrow> sync_system" where
  "do_reflect i s =
     (let c = sy_clients s ! i in
      s\<lparr>sy_log := sy_log s @ [stampMutation (sanitizeInboundMutation (hd (cl_out c))) (length (sy_log s) + 1)],
        sy_clients := (sy_clients s)[i := c\<lparr>cl_out := tl (cl_out c)\<rparr>]\<rparr>)"

definition do_deliver :: "js_env \<Rightarrow> string option \<Rightarrow> nat \<Rightarrow> int \<Rightarrow> sync_system \<Rightarrow> sync_system" where
  "do_deliver E d i now s =
     (let c = sy_clients s ! i in
      s\<lparr>sy_clients := (sy_clients s)[i := receive E d now (sy_log s ! cl_pos c) c]\<rparr>)"

lemma step_do_edit:
  "i < length (sy_clients s) \<Longrightarrow> plain_op p \<Longrightarrow> plain_scene sc \<Longrightarrow>
   (\<And>k. scene_view sc k = (if k = op_key p then op_content p else scene_view (cl_scene (sy_clients s ! i)) k)) \<Longrightarrow>
   (b \<Longrightarrow> op_is_upsert p \<Longrightarrow> list_all isUpsert (in_flight (sy_log s) (sy_clients s ! i) (op_key p))) \<Longrightarrow>
   sync_step E d b s (do_edit i now p sc s)"
  unfolding do_edit_def by (rule sync_step.edit) auto

lemma step_do_reflect:
  "i < length (sy_clients s) \<Longrightarrow> cl_out (sy_clients s ! i) \<noteq> [] \<Longrightarrow> sync_step E d b s (do_reflect i s)"
  unfolding do_reflect_def Let_def by (rule sync_step.reflect) auto

lemma step_do_deliver:
  "i < length (sy_clients s) \<Longrightarrow> cl_pos (sy_clients s ! i) < length (sy_log s) \<Longrightarrow>
   sync_step E d b s (do_deliver E d i now s)"
  unfolding do_deliver_def Let_def by (rule sync_step.deliver) auto

definition client_on :: "canvas_scene \<Rightarrow> string \<Rightarrow> client" where
  "client_on sc tag =
     \<lparr>cl_order = createCanvasOrder tag PENDING_TTL_MS, cl_scene = sc, cl_out = [], cl_pos = 0\<rparr>"

definition two_clients :: "canvas_scene \<Rightarrow> sync_system" where
  "two_clients sc = \<lparr>sy_log = [], sy_clients = [client_on sc ''a'', client_on sc ''b'']\<rparr>"

lemma two_clients_init: "plain_scene sc \<Longrightarrow> sync_init (two_clients sc)"
  by (simp add: sync_init_def two_clients_def client_on_def createCanvasOrder_def isRefId_def
      REF_MAX_LEN_def)

definition edge_scene :: canvas_scene where
  "edge_scene = empty_scene\<lparr>sc_bridges := [edge_e1]\<rparr>"

lemma edge_scene_view:
  "plain_scene edge_scene" "plain_scene empty_scene"
  "scene_view edge_scene k = (if k = ''e:e1'' then Some (EdgeContent Bridge edge_e1) else None)"
  "scene_view empty_scene k = None"
proof -
  show "plain_scene edge_scene" "plain_scene empty_scene"
    by (simp_all add: plain_scene_def edge_scene_def empty_scene_def)
  show "scene_view empty_scene k = None" by (simp add: scene_view_def empty_scene_def)
  show "scene_view edge_scene k = (if k = ''e:e1'' then Some (EdgeContent Bridge edge_e1) else None)"
  proof (cases k rule: key_cases)
    case (node i)
    then show ?thesis by (simp add: node_view edge_scene_def empty_scene_def)
  next
    case (edge i)
    then show ?thesis by (simp add: scene_view_keys edge_scene_def empty_scene_def edge_e1_def)
  next
    case (rel i)
    then show ?thesis by (simp add: scene_view_keys edge_scene_def empty_scene_def)
  next
    case none
    then show ?thesis by (auto simp: scene_view_def starts_with_def)
  qed
qed

text \<open>Client a draws an edge; both see it.\<close>

definition run_draw :: sync_system where
  "run_draw =
     do_deliver example_env None 1 0 (do_deliver example_env None 0 0 (do_reflect 0
       (do_edit 0 0 (EdgeUpsert Bridge edge_e1) edge_scene (two_clients empty_scene))))"

lemma run_draw_reach: "(sync_step example_env None True)\<^sup>*\<^sup>* (two_clients empty_scene) run_draw"
proof -
  let ?s1 = "do_edit 0 0 (EdgeUpsert Bridge edge_e1) edge_scene (two_clients empty_scene)"
  let ?s2 = "do_reflect 0 ?s1"
  let ?s3 = "do_deliver example_env None 0 0 ?s2"
  have "sync_step example_env None True (two_clients empty_scene) ?s1"
    by (rule step_do_edit)
      (simp_all add: two_clients_def client_on_def edge_scene_view plain_op_def edge_e1_def in_flight_def)
  moreover have "sync_step example_env None True ?s1 ?s2"
    by (rule step_do_reflect) (simp_all add: do_edit_def two_clients_def)
  moreover have "sync_step example_env None True ?s2 ?s3"
    by (rule step_do_deliver)
      (simp_all add: do_reflect_def do_edit_def two_clients_def client_on_def local_edit_def Let_def)
  moreover have "sync_step example_env None True ?s3 run_draw"
    unfolding run_draw_def
    by (rule step_do_deliver)
      (simp_all add: do_deliver_def do_reflect_def do_edit_def two_clients_def client_on_def local_edit_def Let_def)
  ultimately show ?thesis by (meson rtranclp.rtrancl_refl rtranclp.rtrancl_into_rtrancl)
qed


text \<open>Client a deletes an edge and takes it back before the reflector has answered.\<close>

definition run_undo :: sync_system where
  "run_undo =
     do_deliver example_env None 1 0 (do_deliver example_env None 1 0
       (do_deliver example_env None 0 0 (do_deliver example_env None 0 0
         (do_reflect 0 (do_reflect 0
           (do_edit 0 0 (EdgeUpsert Bridge edge_e1) edge_scene
             (do_edit 0 0 (EdgeRemove Bridge ''e1'') empty_scene (two_clients edge_scene))))))))"

lemma run_undo_reach: "(sync_step example_env None False)\<^sup>*\<^sup>* (two_clients edge_scene) run_undo"
proof -
  let ?E = example_env
  let ?s1 = "do_edit 0 0 (EdgeRemove Bridge ''e1'') empty_scene (two_clients edge_scene)"
  let ?s2 = "do_edit 0 0 (EdgeUpsert Bridge edge_e1) edge_scene ?s1"
  let ?s3 = "do_reflect 0 ?s2" let ?s4 = "do_reflect 0 ?s3"
  let ?s5 = "do_deliver ?E None 0 0 ?s4" let ?s6 = "do_deliver ?E None 0 0 ?s5"
  let ?s7 = "do_deliver ?E None 1 0 ?s6"
  note defs = do_deliver_def do_reflect_def do_edit_def two_clients_def client_on_def local_edit_def
    receive_def Let_def
  have "sync_step ?E None False (two_clients edge_scene) ?s1"
    by (rule step_do_edit) (simp_all add: defs edge_scene_view plain_op_def)
  moreover have "sync_step ?E None False ?s1 ?s2"
    by (rule step_do_edit) (simp_all add: defs edge_scene_view plain_op_def edge_e1_def)
  moreover have "sync_step ?E None False ?s2 ?s3" by (rule step_do_reflect) (simp_all add: defs)
  moreover have "sync_step ?E None False ?s3 ?s4" by (rule step_do_reflect) (simp_all add: defs)
  moreover have "sync_step ?E None False ?s4 ?s5" by (rule step_do_deliver) (simp_all add: defs)
  moreover have "sync_step ?E None False ?s5 ?s6" by (rule step_do_deliver) (simp_all add: defs)
  moreover have "sync_step ?E None False ?s6 ?s7" by (rule step_do_deliver) (simp_all add: defs)
  moreover have "sync_step ?E None False ?s7 run_undo"
    unfolding run_undo_def by (rule step_do_deliver) (simp_all add: defs)
  ultimately show ?thesis by (meson rtranclp.rtrancl_refl rtranclp.rtrancl_into_rtrancl)
qed

text \<open>
  C12. The condition of the convergence property is needed. A client that removes an edge and draws it
  again before its removal is acknowledged casts an upsert whose causal position lies before its own
  removal: every peer drops it as a stale one while the client keeps it, and with everything
  delivered the two canvases differ for good.
\<close>

theorem undo_before_ack_diverges:
  "\<exists>s0 s. sync_init s0 \<and> (sync_step example_env None False)\<^sup>*\<^sup>* s0 s \<and> quiescent s
     \<and> (\<exists>c \<in> set (sy_clients s). \<exists>c' \<in> set (sy_clients s).
           scene_view (cl_scene c) \<noteq> scene_view (cl_scene c'))"
proof (intro exI conjI)
  show "sync_init (two_clients edge_scene)" by (rule two_clients_init [OF edge_scene_view(1)])
  show "(sync_step example_env None False)\<^sup>*\<^sup>* (two_clients edge_scene) run_undo" by (rule run_undo_reach)
  show "quiescent run_undo"
    by (simp add: quiescent_def run_undo_def do_deliver_def do_reflect_def do_edit_def two_clients_def
        client_on_def local_edit_def receive_def Let_def)
  have "scene_view (cl_scene (sy_clients run_undo ! 0)) ''e:e1'' \<noteq> None" by code_simp
  moreover have "scene_view (cl_scene (sy_clients run_undo ! 1)) ''e:e1'' = None" by code_simp
  moreover have "length (sy_clients run_undo) = 2"
    by (simp add: run_undo_def do_deliver_def do_reflect_def do_edit_def two_clients_def Let_def)
  ultimately show "\<exists>c \<in> set (sy_clients run_undo). \<exists>c' \<in> set (sy_clients run_undo).
      scene_view (cl_scene c) \<noteq> scene_view (cl_scene c')"
    by (metis nth_mem one_less_numeral_iff pos2 semiring_norm(76))
qed

end
