(* ===== verification/Canvas_Publish.thy ===== *)
theory Canvas_Publish
  imports Canvas_Scene
begin

text \<open>
  The emitting side of the shared canvas (src/shared/canvas-publish.ts): successive snapshots of the
  scene become the stream of mutations that peers receive, with a throttle for drag frames, a gate for
  a client without peers and a memory of the casts that were refused.

  A snapshot is a value or a thunk; a thunk is a pure function of no argument, as the source demands,
  and is kept unresolved where the source keeps it so. \<open>shouldPublish()\<close> is an argument of every
  operation, and \<open>send\<close> is a function of the caller's state whose flag says whether the cast
  happened. The timer is armed or not; its firing is an event of its own.
\<close>

section \<open>Refused casts\<close>

definition rebaseList ::
  "('a \<Rightarrow> string) \<Rightarrow> 'a list \<Rightarrow> 'a list \<Rightarrow> string set \<Rightarrow> string \<Rightarrow> 'a list" where
  "rebaseList f prev nxt refused prefix =
     concat (map (\<lambda>n. if prefix @ f n \<notin> refused then [n]
                    else (case by_id f prev (f n) of Some before \<Rightarrow> [before] | None \<Rightarrow> [])) nxt)
     @ filter (\<lambda>n. prefix @ f n \<in> refused \<and> f n \<notin> f ` set nxt) prev"

definition rebaseRefused :: "canvas_scene \<Rightarrow> canvas_scene \<Rightarrow> string set \<Rightarrow> canvas_scene" where
  "rebaseRefused prev nxt refused =
     \<lparr>sc_nodes = rebaseList n_id (sc_nodes prev) (sc_nodes nxt) refused ''n:'',
      sc_bridges = rebaseList e_id (sc_bridges prev) (sc_bridges nxt) refused ''e:'',
      sc_ropes = rebaseList e_id (sc_ropes prev) (sc_ropes nxt) refused ''e:'',
      sc_links = rebaseList l_id (sc_links prev) (sc_links nxt) refused ''l:''\<rparr>"

section \<open>The publisher\<close>

datatype snap_value = SceneValue canvas_scene | NodesValue "canvas_node list"

datatype canvas_snapshot = Ready snap_value | Thunk "unit \<Rightarrow> snap_value"

fun asScene :: "snap_value \<Rightarrow> canvas_scene" where
  "asScene (SceneValue sc) = sc"
| "asScene (NodesValue ns) = \<lparr>sc_nodes = ns, sc_bridges = [], sc_ropes = [], sc_links = []\<rparr>"

definition EMPTY_SCENE :: canvas_scene where
  "EMPTY_SCENE = \<lparr>sc_nodes = [], sc_bridges = [], sc_ropes = [], sc_links = []\<rparr>"

record publisher =
  pb_src :: "string option"
  pb_last :: canvas_scene
  pb_lastLazy :: "(unit \<Rightarrow> canvas_scene) option"
  pb_pending :: "canvas_snapshot option"
  pb_timer :: bool

definition createCanvasPublisher :: "string option \<Rightarrow> publisher" where
  "createCanvasPublisher src =
     \<lparr>pb_src = src, pb_last = EMPTY_SCENE, pb_lastLazy = None, pb_pending = None, pb_timer = False\<rparr>"

fun resolve :: "canvas_snapshot \<Rightarrow> canvas_scene" where
  "resolve (Ready v) = asScene v"
| "resolve (Thunk g) = asScene (g ())"

definition baseline :: "publisher \<Rightarrow> canvas_scene \<times> publisher" where
  "baseline pb =
     (case pb_lastLazy pb of
        Some g \<Rightarrow> (g (), pb\<lparr>pb_last := g (), pb_lastLazy := None\<rparr>)
      | None \<Rightarrow> (pb_last pb, pb))"

fun setBaseline :: "canvas_snapshot \<Rightarrow> publisher \<Rightarrow> publisher" where
  "setBaseline (Thunk g) pb = pb\<lparr>pb_lastLazy := Some (\<lambda>_. asScene (g ()))\<rparr>"
| "setBaseline (Ready v) pb = pb\<lparr>pb_last := asScene v, pb_lastLazy := None\<rparr>"

text \<open>The tag of the publisher, when it has one.\<close>

definition tagged :: "string option \<Rightarrow> canvas_mutation \<Rightarrow> canvas_mutation" where
  "tagged src m =
     (case src of None \<Rightarrow> m | Some s \<Rightarrow> if s = [] then m else m\<lparr>m_src := Some s\<rparr>)"

type_synonym 's sender = "'s \<Rightarrow> canvas_mutation \<Rightarrow> bool \<times> 's"

fun cast_all ::
  "'s sender \<Rightarrow> string option \<Rightarrow> canvas_mutation list \<Rightarrow> 's \<Rightarrow> string set \<Rightarrow> 's \<times> string set" where
  "cast_all send src [] s refused = (s, refused)"
| "cast_all send src (m # ms) s refused =
     (let (ok, s') = send s (tagged src m)
      in cast_all send src ms s' (if ok then refused else insert (mutationKey m) refused))"

definition emit ::
  "'s sender \<Rightarrow> bool \<Rightarrow> canvas_snapshot \<Rightarrow> publisher \<times> 's \<Rightarrow> publisher \<times> 's" where
  "emit send peers snapshot st =
     (let (pb, s) = st in
      if \<not> peers then (setBaseline snapshot pb, s)
      else
        let (prev, pb1) = baseline pb;
            nxt = resolve snapshot;
            (s', refused) = cast_all send (pb_src pb1) (diffToMutations prev nxt) s {}
        in (pb1\<lparr>pb_last := (if refused \<noteq> {} then rebaseRefused prev nxt refused else nxt),
                pb_lastLazy := None\<rparr>, s'))"

definition onTimer :: "'s sender \<Rightarrow> bool \<Rightarrow> publisher \<times> 's \<Rightarrow> publisher \<times> 's" where
  "onTimer send peers st =
     (let (pb, s) = st; pb1 = pb\<lparr>pb_timer := False\<rparr> in
      case pb_pending pb1 of
        None \<Rightarrow> (pb1, s)
      | Some nxt \<Rightarrow> emit send peers nxt (pb1\<lparr>pb_pending := None\<rparr>, s))"

definition publish ::
  "'s sender \<Rightarrow> bool \<Rightarrow> canvas_snapshot \<Rightarrow> bool \<Rightarrow> publisher \<times> 's \<Rightarrow> publisher \<times> 's" where
  "publish send peers nxt throttle st =
     (let (pb, s) = st in
      if \<not> peers then (setBaseline nxt (pb\<lparr>pb_timer := False, pb_pending := None\<rparr>), s)
      else if throttle then
        if pb_timer pb then (pb\<lparr>pb_pending := Some nxt\<rparr>, s)
        else let (pb1, s1) = emit send peers nxt (pb, s) in (pb1\<lparr>pb_timer := True\<rparr>, s1)
      else emit send peers nxt (pb\<lparr>pb_timer := False, pb_pending := None\<rparr>, s))"

definition adopt :: "canvas_snapshot \<Rightarrow> publisher \<Rightarrow> publisher" where
  "adopt nxt pb = (setBaseline nxt pb)\<lparr>pb_pending := None\<rparr>"

definition flush :: "'s sender \<Rightarrow> bool \<Rightarrow> publisher \<times> 's \<Rightarrow> publisher \<times> 's" where
  "flush send peers st =
     (let (pb, s) = st; pb1 = pb\<lparr>pb_timer := False\<rparr> in
      case pb_pending pb1 of
        Some nxt \<Rightarrow> emit send peers nxt (pb1\<lparr>pb_pending := None\<rparr>, s)
      | None \<Rightarrow> (pb1, s))"

definition dispose :: "publisher \<Rightarrow> publisher" where
  "dispose pb = pb\<lparr>pb_timer := False, pb_pending := None\<rparr>"

section \<open>What may go on the wire\<close>

definition isEphemeralNodeId :: "string \<Rightarrow> string set \<Rightarrow> bool" where
  "isEphemeralNodeId i ephemeralIds \<longleftrightarrow>
     i \<in> ephemeralIds \<or> starts_with ''loop-'' i \<or> starts_with ''xproj-'' i"

definition publishableStates :: "canvas_node list \<Rightarrow> string set \<Rightarrow> canvas_node list" where
  "publishableStates states ephemeralIds =
     stripSharedNodeExec (filter (\<lambda>n. \<not> isEphemeralNodeId (n_id n) ephemeralIds) states)"

fun endpointLive :: "string set \<Rightarrow> endpoint \<Rightarrow> bool" where
  "endpointLive live (NodeEnd i) = (i \<in> live)"
| "endpointLive live _ = True"

definition publishableScene :: "canvas_scene \<Rightarrow> string set \<Rightarrow> canvas_scene" where
  "publishableScene scene ephemeralIds =
     (let nodes = publishableStates (sc_nodes scene) ephemeralIds;
          live = set (map n_id nodes);
          keep = (\<lambda>e. e_source e \<in> live \<and> e_target e \<in> live);
          keepLink = (\<lambda>l. endpointLive live (l_source l) \<and> endpointLive live (l_target l))
      in \<lparr>sc_nodes = nodes, sc_bridges = filter keep (sc_bridges scene),
          sc_ropes = filter keep (sc_ropes scene), sc_links = filter keepLink (sc_links scene)\<rparr>)"

section \<open>The rebased baseline\<close>

lemma lookup_filter_key:
  "lookup_by f (filter (\<lambda>x. P (f x)) xs) i = (if P i then lookup_by f xs i else None)"
  by (induction xs) auto

lemma lookup_absent: "k \<notin> f ` set xs \<Longrightarrow> lookup_by f xs k = None"
  by (simp add: lookup_by_None)

lemma lookup_kept_part:
  "lookup_by f (concat (map (\<lambda>n. if p @ f n \<notin> R then [n]
       else (case lookup_by f prev (f n) of Some b \<Rightarrow> [b] | None \<Rightarrow> [])) nxt)) i
   = (if p @ i \<in> R then if i \<in> f ` set nxt then lookup_by f prev i else None else lookup_by f nxt i)"
proof (induction nxt)
  case (Cons x xs)
  show ?case
  proof (cases "lookup_by f prev (f x)")
    case None
    with Cons show ?thesis by auto
  next
    case (Some b)
    moreover have "f b = f x" using lookup_by_Some [OF Some] by simp
    ultimately show ?thesis using Cons by auto
  qed
qed simp

lemma rebaseList_lookup:
  assumes "distinct (map f prev)"
  shows "rebaseList f prev nxt R p = concat (map (\<lambda>n. if p @ f n \<notin> R then [n]
       else (case lookup_by f prev (f n) of Some b \<Rightarrow> [b] | None \<Rightarrow> [])) nxt)
     @ filter (\<lambda>n. p @ f n \<in> R \<and> f n \<notin> f ` set nxt) prev"
proof -
  have "by_id f prev = lookup_by f prev" by (rule ext) (rule by_id_lookup [OF assms])
  then show ?thesis by (simp only: rebaseList_def)
qed

lemma lookup_rebaseList:
  assumes "distinct (map f prev)"
  shows "lookup_by f (rebaseList f prev nxt R p) i
    = (if p @ i \<in> R then lookup_by f prev i else lookup_by f nxt i)"
  using lookup_filter_key [of f "\<lambda>j. p @ j \<in> R \<and> j \<notin> f ` set nxt" prev i]
  unfolding rebaseList_lookup [OF assms] lookup_by_append lookup_kept_part
  by (cases "i \<in> f ` set nxt") (auto simp: lookup_absent split: option.split)

lemma kept_part_ids:
  "map f (concat (map (\<lambda>n. if p @ f n \<notin> R then [n]
       else (case lookup_by f prev (f n) of Some b \<Rightarrow> [b] | None \<Rightarrow> [])) nxt))
   = filter (\<lambda>i. p @ i \<notin> R \<or> lookup_by f prev i \<noteq> None) (map f nxt)"
proof (induction nxt)
  case (Cons x xs)
  have "f b = j" if "lookup_by f prev j = Some b" for b j using lookup_by_Some [OF that] by simp
  with Cons show ?case by (auto  split: option.splits)
qed simp

lemma distinct_rebaseList:
  assumes "distinct (map f prev)" "distinct (map f nxt)"
  shows "distinct (map f (rebaseList f prev nxt R p))"
proof -
  have "set (filter (\<lambda>i. p @ i \<notin> R \<or> lookup_by f prev i \<noteq> None) (map f nxt)) \<subseteq> f ` set nxt" by auto
  moreover have "set (map f (filter (\<lambda>n. p @ f n \<in> R \<and> f n \<notin> f ` set nxt) prev)) \<inter> f ` set nxt = {}"
    by auto
  moreover have "map f (rebaseList f prev nxt R p)
      = filter (\<lambda>i. p @ i \<notin> R \<or> lookup_by f prev i \<noteq> None) (map f nxt)
        @ map f (filter (\<lambda>n. p @ f n \<in> R \<and> f n \<notin> f ` set nxt) prev)"
    unfolding rebaseList_lookup [OF assms(1)] map_append kept_part_ids ..
  ultimately show ?thesis
    using assms by (auto simp: distinct_map_filter simp del: set_map set_filter)
qed

lemma mem_rebaseList:
  assumes "distinct (map f prev)" "distinct (map f nxt)"
  shows "x \<in> set (rebaseList f prev nxt R p) \<longleftrightarrow>
    (if p @ f x \<in> R then x \<in> set prev else x \<in> set nxt)"
proof -
  have "x \<in> set xs \<longleftrightarrow> lookup_by f xs (f x) = Some x" if "distinct (map f xs)" for xs
    using lookup_member [OF that] lookup_by_Some [of f xs "f x" x] by blast
  with assms distinct_rebaseList [OF assms] lookup_rebaseList [OF assms(1)] show ?thesis by simp
qed

lemma rebase_upserts:
  assumes "distinct (map f prev)" "distinct (map f nxt)"
  shows "diff_upserts f (rebaseList f prev nxt R p) nxt
    = filter (\<lambda>x. p @ f x \<in> R) (diff_upserts f prev nxt)"
  using assms distinct_rebaseList [OF assms]
  by (auto simp: diff_upserts_def by_id_lookup lookup_rebaseList lookup_member intro!: filter_cong)

lemma rebase_removes:
  assumes "distinct (map f prev)" "f ` set nxt \<subseteq> N"
  shows "filter (\<lambda>x. f x \<notin> N \<and> Q x) (rebaseList f prev nxt R p)
    = filter (\<lambda>x. p @ f x \<in> R) (filter (\<lambda>x. f x \<notin> N \<and> Q x) prev)"
proof -
  let ?kept = "concat (map (\<lambda>n. if p @ f n \<notin> R then [n]
      else (case lookup_by f prev (f n) of Some b \<Rightarrow> [b] | None \<Rightarrow> [])) nxt)"
  have "set (map f ?kept) \<subseteq> f ` set nxt" unfolding kept_part_ids by auto
  then have "filter (\<lambda>x. f x \<notin> N \<and> Q x) ?kept = []"
    unfolding filter_empty_conv set_map using assms(2) by blast
  moreover have "filter (\<lambda>x. f x \<notin> N \<and> Q x) (filter (\<lambda>n. p @ f n \<in> R \<and> f n \<notin> f ` set nxt) prev)
      = filter (\<lambda>x. p @ f x \<in> R) (filter (\<lambda>x. f x \<notin> N \<and> Q x) prev)"
    unfolding filter_filter using assms(2) by (intro filter_cong) blast+
  ultimately show ?thesis unfolding rebaseList_lookup [OF assms(1)] by simp
qed

lemma plain_sceneD:
  assumes "plain_scene a"
  shows "distinct (map n_id (sc_nodes a))" "distinct (map e_id (sc_bridges a))"
    "distinct (map e_id (sc_ropes a))" "distinct (map l_id (sc_links a))"
    "list_all plain_node (sc_nodes a)" "e_id ` set (sc_bridges a) \<inter> e_id ` set (sc_ropes a) = {}"
  using assms by (auto simp: plain_scene_def)

lemma rebase_sections:
  "sc_nodes (rebaseRefused a b R) = rebaseList n_id (sc_nodes a) (sc_nodes b) R ''n:''"
  "sc_bridges (rebaseRefused a b R) = rebaseList e_id (sc_bridges a) (sc_bridges b) R ''e:''"
  "sc_ropes (rebaseRefused a b R) = rebaseList e_id (sc_ropes a) (sc_ropes b) R ''e:''"
  "sc_links (rebaseRefused a b R) = rebaseList l_id (sc_links a) (sc_links b) R ''l:''"
  by (simp_all add: rebaseRefused_def)

lemma plain_rebase:
  assumes a: "plain_scene a" and b: "plain_scene b"
  shows "plain_scene (rebaseRefused a b R)"
proof -
  note da = plain_sceneD [OF a] and db = plain_sceneD [OF b]
  have "e_id ` set (sc_bridges (rebaseRefused a b R)) \<inter> e_id ` set (sc_ropes (rebaseRefused a b R)) = {}"
  proof -
    have False if "x \<in> set (sc_bridges (rebaseRefused a b R))" "y \<in> set (sc_ropes (rebaseRefused a b R))"
        "e_id x = e_id y" for x y
      using that da(6) db(6)
      by (auto simp: rebase_sections mem_rebaseList [OF da(2) db(2)] mem_rebaseList [OF da(3) db(3)]
          split: if_splits)
    then show ?thesis by blast
  qed
  moreover have "list_all plain_node (sc_nodes (rebaseRefused a b R))"
    using da(5) db(5) by (auto simp: list_all_iff rebase_sections mem_rebaseList [OF da(1) db(1)]
        split: if_splits)
  ultimately show ?thesis
    by (simp add: plain_scene_def rebase_sections distinct_rebaseList [OF da(1) db(1)]
        distinct_rebaseList [OF da(2) db(2)] distinct_rebaseList [OF da(3) db(3)]
        distinct_rebaseList [OF da(4) db(4)])
qed

lemma view_rebase:
  assumes a: "plain_scene a" and b: "plain_scene b"
  shows "scene_view (rebaseRefused a b R) k = (if k \<in> R then scene_view a k else scene_view b k)"
proof (cases k rule: key_cases)
  case none
  then show ?thesis by (simp add: scene_view_def)
qed (simp_all add: node_view scene_view_keys rebase_sections lookup_rebaseList plain_sceneD [OF a]
    split: option.split)

section \<open>What a refusal leaves owed\<close>

lemma op_mutation_key: "mutationKey (op_mutation p) = op_key p"
  by (simp add: mutationKey_def op_mutation_def)

lemma rebase_diff:
  assumes a: "plain_scene a" and b: "plain_scene b"
  shows "diffToMutations (rebaseRefused a b R) b
    = filter (\<lambda>m. mutationKey m \<in> R) (diffToMutations a b)"
proof -
  note da = plain_sceneD [OF a] and db = plain_sceneD [OF b]
  let ?nx = "e_id ` set (sc_bridges b @ sc_ropes b)"
  have sub: "e_id ` set (sc_bridges b) \<subseteq> ?nx" "e_id ` set (sc_ropes b) \<subseteq> ?nx" by auto
  note un = rebase_upserts [OF da(1) db(1)] rebase_upserts [OF da(2) db(2)]
    rebase_upserts [OF da(3) db(3)] rebase_upserts [OF da(4) db(4)]
  note rn = rebase_removes [OF da(1) subset_refl, where Q = "\<lambda>n. \<not> isNonDeletableCanvasNode n"]
    rebase_removes [OF da(2) sub(1), where Q = "\<lambda>_. True", unfolded simp_thms]
    rebase_removes [OF da(3) sub(2), where Q = "\<lambda>_. True", unfolded simp_thms]
    rebase_removes [OF da(4) subset_refl, where Q = "\<lambda>_. True", unfolded simp_thms]
  show ?thesis
    unfolding diffToMutations_def Let_def diffNodes_def diffEdges_def diffLinks_def rebase_sections
      fst_conv snd_conv un rn map_append filter_append map_map comp_def filter_map
      op_mutation_key op_key.simps
    by simp
qed

lemma diff_keys_distinct_content:
  assumes "plain_scene a" "plain_scene b" "scene_view s = scene_view a" "plain_scene s"
    and "no_anchored_drop a b"
  shows "plain_scene (apply_all E d (filter (\<lambda>m. mutationKey m \<notin> R) (diffToMutations a b)) s)
    \<and> scene_view (apply_all E d (filter (\<lambda>m. mutationKey m \<notin> R) (diffToMutations a b)) s)
        = scene_view (rebaseRefused a b R)"
proof -
  let ?ms = "filter (\<lambda>m. mutationKey m \<notin> R) (diffToMutations a b)"
  have "plain_scene (apply_all E d ?ms s) \<and> scene_view (apply_all E d ?ms s) k
      = (if k \<in> mutationKey ` set ?ms then scene_view b k else scene_view s k)" for k
    by (rule apply_all_agreed [OF assms(4)]) (use diff_true [OF assms(1,2)] in auto)
  moreover have "k \<in> mutationKey ` set ?ms" if "k \<notin> R" "scene_view a k \<noteq> scene_view b k" for k
    using diff_covers [OF assms(1,2,5) that(2)] that(1) by auto
  ultimately show ?thesis
    by (intro conjI ext) (auto simp: view_rebase [OF assms(1,2)] assms(3) split: if_splits)
qed



section \<open>Runs\<close>

text \<open>A mutation is applied by what it says, not by its stamps.\<close>

definition apply_ops :: "js_env \<Rightarrow> string option \<Rightarrow> mutation_op list \<Rightarrow> canvas_scene \<Rightarrow> canvas_scene" where
  "apply_ops E d ps sc = apply_all E d (map op_mutation ps) sc"

lemma applyScene_op: "applyScene E d (op_mutation (m_op m)) sc = applyScene E d m sc"
  by (simp add: applyScene_def applyCanvasMutation_def applyEdgeMutation_def applyLinkMutation_def
      op_mutation_def split: mutation_op.split)

lemma apply_ops_all: "apply_ops E d (map m_op ms) sc = apply_all E d ms sc"
  by (induction ms arbitrary: sc) (simp_all add: apply_ops_def apply_all_def applyScene_op)

lemma apply_ops_append: "apply_ops E d (ps @ qs) sc = apply_ops E d qs (apply_ops E d ps sc)"
  by (simp add: apply_ops_def apply_all_def)

lemma tagged_simps [simp]: "m_op (tagged src m) = m_op m" "mutationKey (tagged src m) = mutationKey m"
  by (simp_all add: tagged_def mutationKey_def split: option.split)

lemma distinct_prefixed: "distinct (map (\<lambda>x. p @ f x) xs) \<longleftrightarrow> distinct (map f xs)"
proof -
  have "map (\<lambda>x. p @ f x) xs = map ((@) p) (map f xs)" by simp
  then show ?thesis by (simp only: distinct_map inj_on_def) auto
qed

lemma diff_keys_distinct:
  assumes a: "plain_scene a" and b: "plain_scene b"
  shows "distinct (map mutationKey (diffToMutations a b))"
proof -
  note da = plain_sceneD [OF a] and db = plain_sceneD [OF b]
  note flt = distinct_map_filter [OF da(1)] distinct_map_filter [OF da(2)] distinct_map_filter [OF da(3)]
    distinct_map_filter [OF da(4)] distinct_map_filter [OF db(1)] distinct_map_filter [OF db(2)]
    distinct_map_filter [OF db(3)] distinct_map_filter [OF db(4)]
  have ea: "e_id x \<noteq> e_id y" if "x \<in> set (sc_bridges a)" "y \<in> set (sc_ropes a)" for x y
    using that da(6) by auto
  have eb: "e_id x \<noteq> e_id y" if "x \<in> set (sc_bridges b)" "y \<in> set (sc_ropes b)" for x y
    using that db(6) by auto
  show ?thesis
    unfolding diffToMutations_def Let_def diffNodes_def diffEdges_def diffLinks_def diff_upserts_def
      fst_conv snd_conv map_append map_map comp_def op_mutation_key op_key.simps distinct_append
      distinct_prefixed
    by (intro conjI flt) (use ea eb in \<open>auto simp: image_iff ball_Un simp del: not_Some_eq\<close>)
qed

text \<open>
  What the publisher needs of \<open>send\<close>: an accepted cast is on the wire, as the operation that it is,
  and a refused one is not.
\<close>

locale caster =
  fixes send :: "'s sender" and wire :: "'s \<Rightarrow> mutation_op list"
  assumes accepted: "send s m = (True, s') \<Longrightarrow> wire s' = wire s @ [m_op m]"
    and refused: "send s m = (False, s') \<Longrightarrow> wire s' = wire s"
begin

lemma cast_all_wire:
  "cast_all send src ms s R = (s', R') \<Longrightarrow> distinct (map mutationKey ms) \<Longrightarrow>
   R \<inter> mutationKey ` set ms = {} \<Longrightarrow>
   wire s' = wire s @ map m_op (filter (\<lambda>m. mutationKey m \<notin> R') ms)
   \<and> R \<subseteq> R' \<and> R' \<subseteq> R \<union> mutationKey ` set ms"
proof (induction ms arbitrary: s R)
  case (Cons m ms)
  obtain ok s1 where snd: "send s (tagged src m) = (ok, s1)" by fastforce
  let ?R = "if ok then R else insert (mutationKey m) R"
  have run: "cast_all send src ms s1 ?R = (s', R')" using Cons.prems(1) snd by simp
  have "?R \<inter> mutationKey ` set ms = {}" using Cons.prems(2,3) by auto
  from Cons.IH [OF run _ this] Cons.prems(2)
  have ih: "wire s' = wire s1 @ map m_op (filter (\<lambda>m. mutationKey m \<notin> R') ms)"
    "?R \<subseteq> R'" "R' \<subseteq> ?R \<union> mutationKey ` set ms" by auto
  show ?case
  proof (cases ok)
    case True
    with ih Cons.prems(2,3) have "mutationKey m \<notin> R'" by auto
    with True ih accepted [of s "tagged src m" s1] snd show ?thesis by auto
  next
    case False
    with ih have "mutationKey m \<in> R'" by auto
    with False ih refused [of s "tagged src m" s1] snd show ?thesis by auto
  qed
qed simp

end

datatype pub_event = Publish canvas_snapshot bool | Fire | Flush

text \<open>The timer fires only while it is armed.\<close>

fun pub_step :: "'s sender \<Rightarrow> pub_event \<Rightarrow> publisher \<times> 's \<Rightarrow> publisher \<times> 's" where
  "pub_step send (Publish snap throttle) st = publish send True snap throttle st"
| "pub_step send Fire st = (if pb_timer (fst st) then onTimer send True st else st)"
| "pub_step send Flush st = flush send True st"

definition pub_run :: "'s sender \<Rightarrow> pub_event list \<Rightarrow> publisher \<times> 's \<Rightarrow> publisher \<times> 's" where
  "pub_run send evs st = foldl (\<lambda>st ev. pub_step send ev st) st evs"

text \<open>A scene without the nodes that the receivers treat apart.\<close>

definition pub_scene :: "canvas_scene \<Rightarrow> bool" where
  "pub_scene sc \<longleftrightarrow> plain_scene sc \<and> list_all (\<lambda>n. \<not> isNonDeletableCanvasNode n) (sc_nodes sc)"

fun good_event :: "pub_event \<Rightarrow> bool" where
  "good_event (Publish snap _) = pub_scene (resolve snap)"
| "good_event _ = True"

definition base_of :: "publisher \<Rightarrow> canvas_scene" where
  "base_of pb = fst (baseline pb)"

text \<open>
  The invariant of a run: a peer that started from the first baseline and applied what is on the wire
  shows the baseline, and a coalesced frame is waiting only while the timer is armed.
\<close>

definition pub_inv ::
  "js_env \<Rightarrow> string option \<Rightarrow> canvas_scene \<Rightarrow> mutation_op list \<Rightarrow> publisher \<Rightarrow> bool" where
  "pub_inv E d sc0 ps pb \<longleftrightarrow>
     pub_scene (base_of pb) \<and> plain_scene (apply_ops E d ps sc0)
     \<and> scene_view (apply_ops E d ps sc0) = scene_view (base_of pb)
     \<and> (\<forall>snap. pb_pending pb = Some snap \<longrightarrow> pub_scene (resolve snap) \<and> pb_timer pb)"

lemma base_of_simps [simp]:
  "base_of (pb\<lparr>pb_timer := t\<rparr>) = base_of pb" "base_of (pb\<lparr>pb_pending := q\<rparr>) = base_of pb"
  "base_of (setBaseline snap pb) = resolve snap"
  "base_of (pb\<lparr>pb_last := sc, pb_lastLazy := None\<rparr>) = sc"
proof -
  show "base_of (pb\<lparr>pb_timer := t\<rparr>) = base_of pb" "base_of (pb\<lparr>pb_pending := q\<rparr>) = base_of pb"
    by (simp_all add: base_of_def baseline_def split: option.split)
  show "base_of (setBaseline snap pb) = resolve snap"
    by (cases snap) (simp_all add: base_of_def baseline_def)
  show "base_of (pb\<lparr>pb_last := sc, pb_lastLazy := None\<rparr>) = sc"
    by (simp add: base_of_def baseline_def)
qed

lemma setBaseline_simps [simp]:
  "pb_pending (setBaseline snap pb) = pb_pending pb" "pb_timer (setBaseline snap pb) = pb_timer pb"
  by (cases snap; simp)+

lemma pub_scene_rebase:
  assumes "pub_scene a" "pub_scene b"
  shows "pub_scene (rebaseRefused a b R)"
proof -
  have "plain_scene a" "plain_scene b" using assms by (auto simp: pub_scene_def)
  note da = plain_sceneD [OF this(1)] and db = plain_sceneD [OF this(2)] and pr = plain_rebase [OF this, of R]
  with assms show ?thesis
    by (auto simp: pub_scene_def list_all_iff rebase_sections mem_rebaseList [OF da(1) db(1)]
        split: if_splits)
qed

context caster
begin

lemma emit_inv:
  assumes inv: "pub_inv E d sc0 (wire s) pb" and nx: "pub_scene (resolve snap)"
    and e: "emit send True snap (pb, s) = (pb', s')"
  shows "pub_inv E d sc0 (wire s') (pb'\<lparr>pb_pending := None\<rparr>)"
    and "pb_timer pb' = pb_timer pb" "pb_pending pb' = pb_pending pb"
    and "(\<And>s m. fst (send s m)) \<Longrightarrow> base_of pb' = resolve snap"
proof -
  obtain prev pb1 where b: "baseline pb = (prev, pb1)" by fastforce
  then have prev: "prev = base_of pb" by (simp add: base_of_def)
  have keep: "pb_timer pb1 = pb_timer pb" "pb_pending pb1 = pb_pending pb"
    using b by (auto simp: baseline_def split: option.splits)
  let ?b = "resolve snap"
  obtain R where c: "cast_all send (pb_src pb1) (diffToMutations prev ?b) s {} = (s', R)"
    and pb': "pb' = pb1\<lparr>pb_last := (if R \<noteq> {} then rebaseRefused prev ?b R else ?b),
                        pb_lastLazy := None\<rparr>"
    using e b by (auto simp: emit_def Let_def split: prod.splits)
  have prevs: "pub_scene prev" "plain_scene prev" "plain_scene ?b"
    using inv nx prev by (auto simp: pub_inv_def pub_scene_def)
  have w: "wire s' = wire s @ map m_op (filter (\<lambda>m. mutationKey m \<notin> R) (diffToMutations prev ?b))"
    using cast_all_wire [OF c diff_keys_distinct [OF prevs(2,3)]] by auto
  have nd: "no_anchored_drop prev ?b" using prevs(1) by (auto simp: no_anchored_drop_def pub_scene_def list_all_iff)
  let ?sc = "apply_ops E d (wire s) sc0"
  have "plain_scene ?sc" "scene_view ?sc = scene_view prev" using inv prev by (auto simp: pub_inv_def)
  note d = diff_keys_distinct_content [OF prevs(2,3) this(2,1) nd, of E d R]
  have base: "base_of pb' = (if R \<noteq> {} then rebaseRefused prev ?b R else ?b)" by (simp add: pb')
  moreover have "scene_view (rebaseRefused prev ?b {}) = scene_view ?b"
    by (rule ext) (simp add: view_rebase [OF prevs(2,3)])
  ultimately show "pub_inv E d sc0 (wire s') (pb'\<lparr>pb_pending := None\<rparr>)"
    using d nx pub_scene_rebase [OF prevs(1) nx]
    by (simp add: pub_inv_def w apply_ops_append apply_ops_all)
  show "pb_timer pb' = pb_timer pb" "pb_pending pb' = pb_pending pb" using keep by (simp_all add: pb')
  show "base_of pb' = resolve snap" if ok: "\<And>s m. fst (send s m)"
  proof -
    have "cast_all send src ms s R0 = (t, R1) \<Longrightarrow> R1 = R0" for src ms s R0 t R1
    proof (induction ms arbitrary: s)
      case (Cons m ms)
      obtain s1 where "send s (tagged src m) = (True, s1)"
        using ok [of s "tagged src m"] by (cases "send s (tagged src m)") auto
      with Cons show ?case by auto
    qed simp
    from this [OF c] base show ?thesis by simp
  qed
qed

end

context caster
begin

lemma publish_inv:
  assumes "pub_inv E d sc0 (wire s) pb" "pub_scene (resolve snap)"
    and "publish send True snap throttle (pb, s) = (pb', s')"
  shows "pub_inv E d sc0 (wire s') pb'"
    and "(\<And>s m. fst (send s m)) \<Longrightarrow>
      (case pb_pending pb' of Some w \<Rightarrow> resolve w | None \<Rightarrow> base_of pb') = resolve snap"
proof -
  have inv': "pub_inv E d sc0 (wire s) (pb\<lparr>pb_timer := False, pb_pending := None\<rparr>)"
    using assms(1) by (simp add: pub_inv_def)
  have goal: "pub_inv E d sc0 (wire s') pb' \<and> ((\<forall>s m. fst (send s m)) \<longrightarrow>
      (case pb_pending pb' of Some w \<Rightarrow> resolve w | None \<Rightarrow> base_of pb') = resolve snap)"
  proof (cases "throttle \<and> pb_timer pb")
    case True
    with assms show ?thesis by (auto simp: publish_def pub_inv_def)
  next
    case no_wait: False
    show ?thesis
    proof (cases throttle)
      case True
      with no_wait assms(1) have none: "pb_pending pb = None" "\<not> pb_timer pb"
        by (auto simp: pub_inv_def)
      obtain pb1 s1 where e: "emit send True snap (pb, s) = (pb1, s1)" by fastforce
      with True none assms(3) have p: "pb' = pb1\<lparr>pb_timer := True\<rparr>" "s' = s1"
        by (auto simp: publish_def)
      note em = emit_inv [OF assms(1,2) e]
      from em(3) none have "pb_pending pb1 = None" by simp
      with em(1,4) p show ?thesis by (auto simp: pub_inv_def)
    next
      case False
      with assms(3) have e: "emit send True snap (pb\<lparr>pb_timer := False, pb_pending := None\<rparr>, s) = (pb', s')"
        by (simp add: publish_def)
      note em = emit_inv [OF inv' assms(2) e]
      from em(3) have "pb_pending pb' = None" by simp
      with em(1,4) show ?thesis by (auto simp: pub_inv_def)
    qed
  qed
  then show "pub_inv E d sc0 (wire s') pb'" by blast
  show "(case pb_pending pb' of Some w \<Rightarrow> resolve w | None \<Rightarrow> base_of pb') = resolve snap"
    if "\<And>s m. fst (send s m)" using goal that by blast
qed

text \<open>The timer and a flush do the same to a waiting frame.\<close>

lemma settle_inv:
  assumes inv: "pub_inv E d sc0 (wire s) pb" and f: "flush send True (pb, s) = (pb', s')"
  shows "pub_inv E d sc0 (wire s') pb'" "pb_pending pb' = None" "\<not> pb_timer pb'"
    and "(\<And>s m. fst (send s m)) \<Longrightarrow>
      base_of pb' = (case pb_pending pb of Some w \<Rightarrow> resolve w | None \<Rightarrow> base_of pb)"
proof -
  have inv': "pub_inv E d sc0 (wire s) (pb\<lparr>pb_timer := False, pb_pending := None\<rparr>)"
    using inv by (simp add: pub_inv_def)
  have goal: "pub_inv E d sc0 (wire s') pb' \<and> pb_pending pb' = None \<and> \<not> pb_timer pb' \<and>
      ((\<forall>s m. fst (send s m)) \<longrightarrow>
       base_of pb' = (case pb_pending pb of Some w \<Rightarrow> resolve w | None \<Rightarrow> base_of pb))"
  proof (cases "pb_pending pb")
    case None
    with f inv show ?thesis by (auto simp: flush_def pub_inv_def)
  next
    case (Some w)
    with inv have w: "pub_scene (resolve w)" by (simp add: pub_inv_def)
    from Some f have e: "emit send True w (pb\<lparr>pb_timer := False, pb_pending := None\<rparr>, s) = (pb', s')"
      by (simp add: flush_def)
    note em = emit_inv [OF inv' w e]
    from em(2,3) have "pb_pending pb' = None" "\<not> pb_timer pb'" by simp_all
    with em(1,4) Some show ?thesis by (auto simp: pub_inv_def)
  qed
  then show "pub_inv E d sc0 (wire s') pb'" "pb_pending pb' = None" "\<not> pb_timer pb'" by blast+
  show "base_of pb' = (case pb_pending pb of Some w \<Rightarrow> resolve w | None \<Rightarrow> base_of pb)"
    if "\<And>s m. fst (send s m)" using goal that by blast
qed

lemma onTimer_flush: "onTimer send p st = flush send p st"
  by (cases st) (simp add: onTimer_def flush_def Let_def split: option.split)

lemma pub_run_inv:
  assumes "pub_inv E d sc0 (wire s) pb" "list_all good_event evs" "pub_run send evs (pb, s) = (pb', s')"
  shows "pub_inv E d sc0 (wire s') pb'"
  using assms
proof (induction evs arbitrary: pb s)
  case Nil
  then show ?case by (simp add: pub_run_def)
next
  case (Cons ev evs)
  obtain pb1 s1 where st: "pub_step send ev (pb, s) = (pb1, s1)" by fastforce
  have "pub_inv E d sc0 (wire s1) pb1"
  proof (cases ev)
    case (Publish snap throttle)
    with st Cons.prems(2) show ?thesis by (auto intro: publish_inv(1) [OF Cons.prems(1)])
  next
    case Fire
    with st show ?thesis
      using settle_inv(1) [OF Cons.prems(1)] Cons.prems(1) by (auto simp: onTimer_flush split: if_splits)
  next
    case Flush
    with st show ?thesis using settle_inv(1) [OF Cons.prems(1)] by simp
  qed
  from Cons.IH [OF this] Cons.prems(2,3) st show ?case by (simp add: pub_run_def)
qed

end

section \<open>Properties\<close>

text \<open>A transport that keeps what it is given and takes what \<open>ok\<close> accepts.\<close>

definition log_send :: "(canvas_mutation \<Rightarrow> bool) \<Rightarrow> canvas_mutation list sender" where
  "log_send ok s m = (ok m, if ok m then s @ [m] else s)"

interpretation logged: caster "log_send ok" "map m_op" for ok
  by unfold_locales (auto simp: log_send_def split: if_splits)

lemma solo_publish:
  "publish send False snap throttle (pb, s)
     = (setBaseline snap (pb\<lparr>pb_timer := False, pb_pending := None\<rparr>), s)"
  by (simp add: publish_def)


lemma example_pub_scenes: "pub_scene scene_ab" "pub_scene scene_b" "pub_scene empty_scene"
  by (simp_all add: pub_scene_def plain_scene_def scene_ab_def scene_b_def empty_scene_def edge_e1_def
      blank_node_def plain_node_def isNonDeletableCanvasNode_def)


text \<open>
  C33. Two things that the publisher does and its documentation denies. Adopting a peer's change throws
  away a drag frame that is waiting for the timer although the adopted scene already contains it: the
  edit is never cast, by the timer, by a flush or by publishing the same scene again. And the throttle
  is no bound on the rate: after the timer has sent a waiting frame it is not armed again, so the next
  frame is cast at once, whatever time has passed.
\<close>

theorem publisher_gaps:
  assumes "plain_scene b" "pb_timer pb"
  shows "(let waiting = publish send True (Ready (SceneValue b)) True (pb, s);
              adopted = adopt (Ready (SceneValue b)) (fst waiting)
          in pb_pending (fst waiting) = Some (Ready (SceneValue b)) \<and> snd waiting = s
             \<and> snd (pub_run send [Fire, Flush, Publish (Ready (SceneValue b)) throttle] (adopted, s)) = s)
    \<and> pub_run send [Fire, Publish f2 True] (pb\<lparr>pb_pending := Some f1\<rparr>, s)
      = (let (pb2, s2) = emit send True f2
               (emit send True f1 (pb\<lparr>pb_timer := False, pb_pending := None\<rparr>, s))
         in (pb2\<lparr>pb_timer := True\<rparr>, s2))"
proof (rule conjI)
  show "let waiting = publish send True (Ready (SceneValue b)) True (pb, s);
              adopted = adopt (Ready (SceneValue b)) (fst waiting)
          in pb_pending (fst waiting) = Some (Ready (SceneValue b)) \<and> snd waiting = s
             \<and> snd (pub_run send [Fire, Flush, Publish (Ready (SceneValue b)) throttle] (adopted, s)) = s"
    using assms diff_refl [OF assms(1)]
    by (simp add: Let_def publish_def adopt_def pub_run_def onTimer_def flush_def emit_def baseline_def)
next
  obtain pb1 s1 where e: "emit send True f1 (pb\<lparr>pb_timer := False, pb_pending := None\<rparr>, s) = (pb1, s1)"
    by fastforce
  have "pb_timer pb1 = False"
    using e by (auto simp: emit_def baseline_def Let_def split: prod.splits option.splits)
  then show "pub_run send [Fire, Publish f2 True] (pb\<lparr>pb_pending := Some f1\<rparr>, s)
      = (let (pb2, s2) = emit send True f2
               (emit send True f1 (pb\<lparr>pb_timer := False, pb_pending := None\<rparr>, s))
         in (pb2\<lparr>pb_timer := True\<rparr>, s2))"
    using e assms(2) by (simp add: pub_run_def onTimer_def publish_def Let_def)
qed

theorem publisher_gaps_witness:
  "snd (pub_run (log_send (\<lambda>_. True)) [Fire, Flush, Publish (Ready (SceneValue scene_b)) False]
     (adopt (Ready (SceneValue scene_b)) (fst (publish (log_send (\<lambda>_. True)) True
        (Ready (SceneValue scene_b)) True
        ((createCanvasPublisher None)\<lparr>pb_timer := True\<rparr>, []))), [])) = []"
  using publisher_gaps [OF example_scenes_plain(2), of "(createCanvasPublisher None)\<lparr>pb_timer := True\<rparr>"
      "log_send (\<lambda>_. True)" "[]" False] by (simp add: Let_def)


definition card_scene :: canvas_scene where
  "card_scene = empty_scene\<lparr>
     sc_nodes := [(blank_node ''a'' ''terminal'')\<lparr>n_shell := Some ''zsh''\<rparr>, blank_node ''loop-a'' ''agent''],
     sc_ropes := [\<lparr>e_id = ''r'', e_source = ''a'', e_target = ''loop-a''\<rparr>]\<rparr>"


end
