(* ===== verification/Canvas_Cast.thy ===== *)
theory Canvas_Cast
  imports Canvas_Publish Canvas_Order
begin

text \<open>
  The publisher joined to the ordering state: the \<open>send\<close> callback of
  src/renderer/canvas/Canvas.tsx, which stamps a mutation, asks the reflector's own predicate, records
  the cast as pending and hands it to the session of the active project.
\<close>

record cast_state =
  ca_order :: canvas_order
  ca_refused :: "string \<rightharpoonup> canvas_node"
  ca_project :: "string option"
  ca_now :: int
  ca_note :: bool
  ca_sent :: "(string \<times> canvas_mutation) list"

definition castMutation ::
  "(canvas_node \<Rightarrow> canvas_node \<Rightarrow> bool) \<Rightarrow> (canvas_mutation \<Rightarrow> nat) \<Rightarrow> cast_state sender" where
  "castMutation same json_len cs m =
     (case ca_project cs of
        None \<Rightarrow> (False, cs)
      | Some project \<Rightarrow>
          if project = [] then (False, cs)
          else
            let stamped = stamp (ca_order cs) m;
                (ok, refused) = mutationGuard same json_len (ca_refused cs) stamped;
                cs1 = cs\<lparr>ca_refused := refused\<rparr>
            in if \<not> ok then (False, cs1\<lparr>ca_note := True\<rparr>)
               else (True, cs1\<lparr>ca_order := onLocal (ca_now cs) stamped (ca_order cs),
                               ca_sent := ca_sent cs @ [(project, stamped)]\<rparr>))"

lemma castMutation_cases:
  obtains (refused) cs1 where "castMutation same json_len cs m = (False, cs1)"
      "ca_order cs1 = ca_order cs" "ca_sent cs1 = ca_sent cs"
  | (sent) cs1 project where "castMutation same json_len cs m = (True, cs1)"
      "isCanvasMutation json_len (stamp (ca_order cs) m)"
      "ca_order cs1 = onLocal (ca_now cs) (stamp (ca_order cs) m) (ca_order cs)"
      "ca_sent cs1 = ca_sent cs @ [(project, stamp (ca_order cs) m)]"
proof (cases "\<exists>project. ca_project cs = Some project \<and> project \<noteq> []")
  case True
  then obtain project where p: "ca_project cs = Some project" "project \<noteq> []" by blast
  obtain ok g where g: "mutationGuard same json_len (ca_refused cs) (stamp (ca_order cs) m) = (ok, g)"
    by fastforce
  show ?thesis
  proof (cases ok)
    case True
    with g have "isCanvasMutation json_len (stamp (ca_order cs) m)"
      by (auto simp: mutationGuard_def split: mutation_op.splits if_splits)
    moreover let ?cs = "cs\<lparr>ca_refused := g,
        ca_order := onLocal (ca_now cs) (stamp (ca_order cs) m) (ca_order cs),
        ca_sent := ca_sent cs @ [(project, stamp (ca_order cs) m)]\<rparr>"
    have "castMutation same json_len cs m = (True, ?cs)"
      using True p g by (simp add: castMutation_def Let_def)
    ultimately show ?thesis by (intro sent [of ?cs project]) simp_all
  next
    case False
    with p g show ?thesis
      by (intro refused [of "cs\<lparr>ca_refused := g, ca_note := True\<rparr>"]) (simp_all add: castMutation_def Let_def)
  qed
next
  case False
  then show ?thesis by (intro refused) (auto simp: castMutation_def split: option.splits)
qed

definition sent_ops :: "cast_state \<Rightarrow> mutation_op list" where
  "sent_ops cs = map (\<lambda>pm. m_op (snd pm)) (ca_sent cs)"

lemma m_op_stamp [simp]: "m_op (stamp st m) = m_op m"
  by (simp add: stamp_def)

interpretation wired: caster "castMutation same json_len" sent_ops for same json_len
proof
  fix s m s'
  show "castMutation same json_len s m = (True, s') \<Longrightarrow> sent_ops s' = sent_ops s @ [m_op m]"
    by (cases rule: castMutation_cases [of same json_len s m]) (auto simp: sent_ops_def)
  show "castMutation same json_len s m = (False, s') \<Longrightarrow> sent_ops s' = sent_ops s"
    by (cases rule: castMutation_cases [of same json_len s m]) (auto simp: sent_ops_def)
qed

section \<open>What every cast keeps\<close>

lemma cast_all_keeps:
  assumes "\<And>s m. P s \<Longrightarrow> P (snd (send s m))"
  shows "P s \<Longrightarrow> P (fst (cast_all send src ms s R))"
proof (induction ms arbitrary: s R)
  case (Cons m ms)
  obtain ok s1 where "send s (tagged src m) = (ok, s1)" by fastforce
  with Cons assms [of s "tagged src m"] show ?case by simp
qed simp

lemma pub_run_keeps:
  assumes step: "\<And>s m. P s \<Longrightarrow> P (snd (send s m))"
  shows "P s \<Longrightarrow> P (snd (pub_run send evs (pb, s)))"
proof (induction evs arbitrary: pb s)
  case Nil
  then show ?case by (simp add: pub_run_def)
next
  case (Cons ev evs)
  have e: "P (snd (emit send True snap (pb, s)))" if "P s" for snap pb s
    using cast_all_keeps [of P send, OF step that]
    by (simp add: emit_def Let_def split: prod.splits) (metis fst_conv)
  obtain pb1 s1 where st: "pub_step send ev (pb, s) = (pb1, s1)" by fastforce
  have "P s1"
  proof (cases ev)
    case (Publish snap throttle)
    with st e Cons.prems show ?thesis
      by (auto simp: publish_def Let_def split: if_splits prod.splits) (metis snd_conv)+
  next
    case Fire
    with st e Cons.prems show ?thesis
      by (auto simp: onTimer_def Let_def split: if_splits option.splits) (metis snd_conv)
  next
    case Flush
    with st e Cons.prems show ?thesis
      by (auto simp: flush_def Let_def split: option.splits) (metis snd_conv)
  qed
  from Cons.IH [OF this] st show ?case by (simp add: pub_run_def)
qed

definition casts_of :: "string \<Rightarrow> cast_state \<Rightarrow> nat" where
  "casts_of k cs = length (filter (\<lambda>pm. mutationKey (snd pm) = k) (ca_sent cs))"

definition cast_ok :: "(canvas_mutation \<Rightarrow> nat) \<Rightarrow> cast_state \<Rightarrow> bool" where
  "cast_ok json_len cs \<longleftrightarrow>
     (\<forall>k. (case o_pending (ca_order cs) k of None \<Rightarrow> 0 | Some p \<Rightarrow> p_count p) = int (casts_of k cs))
     \<and> list_all (\<lambda>pm. isCanvasMutation json_len (snd pm)
         \<and> m_seen (snd pm) = Some (jsnat (o_lastSeq (ca_order cs)))) (ca_sent cs)"

lemma mutationKey_stamp [simp]: "mutationKey (stamp st m) = mutationKey m"
  by (simp add: stamp_def)

lemma cast_ok_step:
  assumes "cast_ok json_len cs"
  shows "cast_ok json_len (snd (castMutation same json_len cs m))"
proof (cases rule: castMutation_cases [of same json_len cs m])
  case (refused cs1)
  with assms show ?thesis by (simp add: cast_ok_def casts_of_def)
next
  case (sent cs1 project)
  have "(case o_pending (ca_order cs1) k of None \<Rightarrow> 0 | Some p \<Rightarrow> p_count p) = int (casts_of k cs1)" for k
  proof -
    have "(case o_pending (ca_order cs) k of None \<Rightarrow> 0 | Some p \<Rightarrow> p_count p) = int (casts_of k cs)"
      using assms by (simp add: cast_ok_def)
    moreover have "casts_of k cs1 = (if mutationKey m = k then casts_of k cs + 1 else casts_of k cs)"
      by (simp add: casts_of_def sent(4))
    moreover have "o_pending (ca_order cs1) k = (if mutationKey m \<noteq> k then o_pending (ca_order cs) k
        else Some (case o_pending (ca_order cs) k of
            Some p \<Rightarrow> p\<lparr>p_count := p_count p + 1, p_since := ca_now cs, p_stale := False\<rparr>
          | None \<Rightarrow> \<lparr>p_count = 1, p_since = ca_now cs, p_stale = False\<rparr>))"
      by (auto simp: sent(3) onLocal_def Let_def)
    ultimately show ?thesis by (cases "o_pending (ca_order cs) k") simp_all
  qed
  moreover have "o_lastSeq (ca_order cs1) = o_lastSeq (ca_order cs)"
    by (simp add: sent onLocal_def Let_def)
  moreover have "m_seen (stamp (ca_order cs) m) = Some (jsnat (o_lastSeq (ca_order cs)))"
    by (simp add: stamp_def)
  ultimately show ?thesis using assms sent(1,2,4) by (simp add: cast_ok_def)
qed

definition fresh_cast :: "string \<Rightarrow> string option \<Rightarrow> int \<Rightarrow> cast_state" where
  "fresh_cast src project now =
     \<lparr>ca_order = createCanvasOrder src PENDING_TTL_MS, ca_refused = Map.empty, ca_project = project,
      ca_now = now, ca_note = False, ca_sent = []\<rparr>"



end
