(* ===== verification/Unlock_Ladder.thy ===== *)
theory Unlock_Ladder
  imports Prelude "HOL-Library.AList" "HOL-Library.Multiset" "HOL-Library.State_Monad"
begin

text \<open>
  The unlock ladder (src/core/unlock-ladder.ts): three rungs of questions that may end the wait of a
  lockout, the challenges that one peer holds, and the two budgets that all peers of an account
  share.

  Randomness is a list of dice that the generators consume (\<open>roll m\<close> is \<open>rand(m)\<close>; every value below
  \<open>m\<close> can occur), threaded by the state monad of the library. The clock is read once per operation
  and is an argument, in milliseconds, as is the answer of \<open>schoolMode()\<close>. Tokens of reservations
  (\<open>Symbol()\<close>) are numbers that are never used twice. The Chinese names are lists of code points.
\<close>

section \<open>Constants and shapes\<close>

definition DIMSUM_MAX_FAILS :: nat where "DIMSUM_MAX_FAILS = 5"
definition MATH_QUESTION_COUNT :: nat where "MATH_QUESTION_COUNT = 10"
definition WHACK_DURATION_MS :: nat where "WHACK_DURATION_MS = 15000"
definition WHACK_REQUIRED_HITS :: nat where "WHACK_REQUIRED_HITS = 8"
definition WHACK_MOLE_COUNT :: nat where "WHACK_MOLE_COUNT = 14"
definition LADDER_TTL_MS :: int where "LADDER_TTL_MS = 5 * 60 * 1000"
definition LADDER_BUDGET :: nat where "LADDER_BUDGET = 3"
definition LADDER_BUDGET_WINDOW_MS :: int where "LADDER_BUDGET_WINDOW_MS = 60 * 60 * 1000"
definition MAX_LADDER_CHALLENGES_PER_PEER :: nat where "MAX_LADDER_CHALLENGES_PER_PEER = 8"
definition MAX_LADDER_CHALLENGES_GLOBAL :: nat where "MAX_LADDER_CHALLENGES_GLOBAL = 256"

record dim_sum_name =
  d_id :: string
  d_en :: string
  d_zhHant :: "nat list"

definition DIM_SUM_NAMES :: "dim_sum_name list" where
  "DIM_SUM_NAMES =
    [\<lparr>d_id = ''har-gow'', d_en = ''Shrimp dumpling'', d_zhHant = [0x8766, 0x9903]\<rparr>,
     \<lparr>d_id = ''siu-mai'', d_en = ''Pork & shrimp dumpling'', d_zhHant = [0x71D2, 0x8CE3]\<rparr>,
     \<lparr>d_id = ''char-siu-bao'', d_en = ''BBQ pork bun'', d_zhHant = [0x53C9, 0x71D2, 0x5305]\<rparr>,
     \<lparr>d_id = ''egg-tart'', d_en = ''Egg tart'', d_zhHant = [0x86CB, 0x64BB]\<rparr>,
     \<lparr>d_id = ''turnip-cake'', d_en = ''Turnip cake'', d_zhHant = [0x863F, 0x8514, 0x7CD5]\<rparr>,
     \<lparr>d_id = ''cheung-fun'', d_en = ''Rice noodle roll'', d_zhHant = [0x8178, 0x7C89]\<rparr>,
     \<lparr>d_id = ''spring-roll'', d_en = ''Spring roll'', d_zhHant = [0x6625, 0x5377]\<rparr>,
     \<lparr>d_id = ''sesame-ball'', d_en = ''Sesame ball'', d_zhHant = [0x714E, 0x5806]\<rparr>,
     \<lparr>d_id = ''lo-mai-gai'', d_en = ''Sticky rice in lotus leaf'', d_zhHant = [0x7CEF, 0x7C73, 0x96DE]\<rparr>]"

datatype ladder_rung = Dimsum | Math | Whack

record whack_mole =
  mole_cell :: nat
  mole_showAtMs :: nat
  mole_hideAtMs :: nat

text \<open>A sum as it is shown, \<open>a + b\<close>, \<open>a - b\<close> or \<open>a * b\<close>.\<close>

datatype math_question = Plus nat nat | Minus nat nat | Times nat nat

datatype ladder_challenge =
    DimSumChallenge (ch_nonce: string) (ch_prompt: "nat list") (ch_choices: "string list") (ch_triesLeft: int)
  | MathChallenge (ch_nonce: string) (ch_questions: "math_question list")
  | WhackChallenge (ch_nonce: string) (ch_gridSize: nat) (ch_durationMs: nat) (ch_requiredHits: nat)
      (ch_moles: "whack_mole list")

record whack_hit =
  hit_cell :: jsnum
  hit_atMs :: jsnum

text \<open>An answer; a payload that is not an array, and a hit that is not an object, is \<open>None\<close>.\<close>

datatype ladder_answer =
    DimSumAnswer (an_nonce: string) string
  | MathAnswer (an_nonce: string) "jsnum list option"
  | WhackAnswer (an_nonce: string) "whack_hit option list option"

fun an_kind :: "ladder_answer \<Rightarrow> ladder_rung" where
  "an_kind (DimSumAnswer _ _) = Dimsum"
| "an_kind (MathAnswer _ _) = Math"
| "an_kind (WhackAnswer _ _) = Whack"

text \<open>The texts of the verdicts, each with the numbers it quotes.\<close>

datatype ladder_message =
    ClimbOver | ChallengeExpired | KindMismatch | DimsumCorrect | DimsumMisses nat
  | DimsumTriesLeft int | MathCorrect | MathWrong | RoundNotFinished | MolesCleared nat
  | MolesShort nat nat | NoShortcutsLeft

record ladder_verdict =
  v_cleared :: bool
  v_next :: "ladder_rung option"
  v_exhausted :: bool
  v_message :: ladder_message

section \<open>The shared budgets\<close>

record ladder_shared =
  sh_clears :: "int list"
  sh_reservations :: "(nat \<times> int) list"
  sh_nextToken :: nat

definition shared_start :: ladder_shared where
  "shared_start = \<lparr>sh_clears = [], sh_reservations = [], sh_nextToken = 0\<rparr>"

definition budget_left :: "int \<Rightarrow> ladder_shared \<Rightarrow> nat \<times> ladder_shared" where
  "budget_left now sh =
     (let cutoff = now - LADDER_BUDGET_WINDOW_MS;
          clears = filter (\<lambda>t. t > cutoff) (sh_clears sh)
      in (LADDER_BUDGET - length clears, sh\<lparr>sh_clears := clears\<rparr>))"

definition tryRecord :: "int \<Rightarrow> ladder_shared \<Rightarrow> bool \<times> ladder_shared" where
  "tryRecord now sh =
     (let (left, sh1) = budget_left now sh in
      if left = 0 then (False, sh1) else (True, sh1\<lparr>sh_clears := sh_clears sh1 @ [now]\<rparr>))"

definition sweepReservations :: "int \<Rightarrow> ladder_shared \<Rightarrow> ladder_shared" where
  "sweepReservations now sh =
     sh\<lparr>sh_reservations := filter (\<lambda>(token, expiresAt). \<not> expiresAt \<le> now) (sh_reservations sh)\<rparr>"

definition challengesAvailable :: "int \<Rightarrow> ladder_shared \<Rightarrow> bool \<times> ladder_shared" where
  "challengesAvailable now sh =
     (let sh1 = sweepReservations now sh
      in (length (sh_reservations sh1) < MAX_LADDER_CHALLENGES_GLOBAL, sh1))"

definition tryReserve :: "int \<Rightarrow> int \<Rightarrow> ladder_shared \<Rightarrow> nat option \<times> ladder_shared" where
  "tryReserve expiresAt now sh =
     (let (free, sh1) = challengesAvailable now sh in
      if \<not> free then (None, sh1)
      else (Some (sh_nextToken sh1),
            sh1\<lparr>sh_reservations := sh_reservations sh1 @ [(sh_nextToken sh1, expiresAt)],
                sh_nextToken := Suc (sh_nextToken sh1)\<rparr>))"

definition release :: "nat \<Rightarrow> ladder_shared \<Rightarrow> ladder_shared" where
  "release token sh = sh\<lparr>sh_reservations := AList.delete token (sh_reservations sh)\<rparr>"

definition hasReservation :: "nat \<Rightarrow> ladder_shared \<Rightarrow> bool" where
  "hasReservation token sh \<longleftrightarrow> map_of (sh_reservations sh) token \<noteq> None"

section \<open>The ladder of one peer\<close>

record issued =
  is_rung :: ladder_rung
  is_expiresAt :: int
  is_issuedAt :: int
  is_dimsumAnswer :: "string option"
  is_mathAnswers :: "int list option"
  is_moles :: "whack_mole list option"
  is_gridSize :: "nat option"
  is_reservation :: nat

record ladder =
  ld_issued :: "(string \<times> issued) list"
  ld_dimsumFails :: nat
  ld_exhausted :: bool

definition ladder_start :: ladder where
  "ladder_start = \<lparr>ld_issued = [], ld_dimsumFails = 0, ld_exhausted = False\<rparr>"

definition nextLockoutMs :: "int \<Rightarrow> int \<Rightarrow> int \<Rightarrow> int" where
  "nextLockoutMs consecutiveLockouts baseMs capMs =
     (let n = max 0 consecutiveLockouts; factor = 2 ^ nat (min n 20) in min capMs (baseMs * factor))"

definition deleteIssued :: "string \<Rightarrow> ladder \<times> ladder_shared \<Rightarrow> ladder \<times> ladder_shared" where
  "deleteIssued nonce st =
     (let (ld, sh) = st in
      case map_of (ld_issued ld) nonce of
        None \<Rightarrow> (ld, sh)
      | Some r \<Rightarrow> (ld\<lparr>ld_issued := AList.delete nonce (ld_issued ld)\<rparr>, release (is_reservation r) sh))"

definition clearIssued :: "ladder \<times> ladder_shared \<Rightarrow> ladder \<times> ladder_shared" where
  "clearIssued st = foldl (\<lambda>st nonce. deleteIssued nonce st) st (map fst (ld_issued (fst st)))"

definition sweepIssued :: "int \<Rightarrow> ladder \<times> ladder_shared \<Rightarrow> ladder \<times> ladder_shared" where
  "sweepIssued now st =
     foldl (\<lambda>st (nonce, r). if is_expiresAt r \<le> now \<or> \<not> hasReservation (is_reservation r) (snd st)
                            then deleteIssued nonce st else st) st (ld_issued (fst st))"

definition resetLadder :: "ladder \<times> ladder_shared \<Rightarrow> ladder \<times> ladder_shared" where
  "resetLadder st =
     (let (ld, sh) = clearIssued st in (ld\<lparr>ld_dimsumFails := 0, ld_exhausted := False\<rparr>, sh))"

definition firstRung :: "bool \<Rightarrow> ladder_rung" where
  "firstRung school = (if school then Math else Dimsum)"

text \<open>Whether a ladder may be offered; asking drops the clears that have left the window.\<close>

definition ladderAvailable :: "int \<Rightarrow> ladder \<times> ladder_shared \<Rightarrow> bool \<times> (ladder \<times> ladder_shared)" where
  "ladderAvailable now st =
     (let (ld, sh) = st in
      if ld_exhausted ld then (False, (ld, sh))
      else let (left, sh1) = budget_left now sh in (left > 0, (ld, sh1)))"

definition storeIssued ::
  "int \<Rightarrow> string \<Rightarrow> issued \<Rightarrow> ladder \<times> ladder_shared \<Rightarrow> bool \<times> (ladder \<times> ladder_shared)" where
  "storeIssued now nonce r st =
     (let st1 = (if map_of (ld_issued (fst st)) nonce \<noteq> None then deleteIssued nonce st else st);
          (ld, sh) = st1; (reservation, sh1) = tryReserve (is_expiresAt r) now sh
      in case reservation of
           None \<Rightarrow> (False, (ld, sh1))
         | Some token \<Rightarrow>
             (True, (ld\<lparr>ld_issued := AList.update nonce (r\<lparr>is_reservation := token\<rparr>) (ld_issued ld)\<rparr>, sh1)))"

section \<open>Generators\<close>

definition roll :: "nat \<Rightarrow> (nat list, nat) state" where
  "roll m = State (\<lambda>dice. case dice of [] \<Rightarrow> (0, []) | d # ds \<Rightarrow> (d mod m, ds))"

definition without :: "nat \<Rightarrow> 'a list \<Rightarrow> 'a list" where
  "without i xs = take i xs @ drop (Suc i) xs"

primrec drawDistractors :: "nat \<Rightarrow> dim_sum_name list \<Rightarrow> (nat list, string list) state" where
  "drawDistractors 0 pool = State_Monad.return []"
| "drawDistractors (Suc n) pool =
     (if pool = [] then State_Monad.return []
      else do {
        i \<leftarrow> roll (length pool);
        rest \<leftarrow> drawDistractors n (without i pool);
        State_Monad.return (d_en (pool ! i) # rest)
      })"

definition swap_at :: "nat \<Rightarrow> nat \<Rightarrow> 'a list \<Rightarrow> 'a list" where
  "swap_at i j xs = xs[i := xs ! j, j := xs ! i]"

primrec shuffleFrom :: "nat \<Rightarrow> 'a list \<Rightarrow> (nat list, 'a list) state" where
  "shuffleFrom 0 out = State_Monad.return out"
| "shuffleFrom (Suc i) out = do {
     j \<leftarrow> roll (Suc i + 1);
     shuffleFrom i (swap_at (Suc i) j out)
   }"

definition shuffle :: "'a list \<Rightarrow> (nat list, 'a list) state" where
  "shuffle xs = shuffleFrom (length xs - 1) xs"

primrec nonce_chars :: "nat \<Rightarrow> (nat list, string) state" where
  "nonce_chars 0 = State_Monad.return []"
| "nonce_chars (Suc n) = do {
     d \<leftarrow> roll 36;
     rest \<leftarrow> nonce_chars n;
     State_Monad.return (''abcdefghijklmnopqrstuvwxyz0123456789'' ! d # rest)
   }"

definition newNonce :: "(nat list, string) state" where
  "newNonce = nonce_chars 24"

definition mathQuestion :: "(nat list, math_question \<times> int) state" where
  "mathQuestion = do {
     kind \<leftarrow> roll 3;
     if kind = 0 then do {
       a0 \<leftarrow> roll 20; b0 \<leftarrow> roll 20;
       let a = a0 + 1; let b = b0 + 1;
       State_Monad.return (Plus a b, int a + int b)
     } else if kind = 1 then do {
       a0 \<leftarrow> roll 20;
       let a = a0 + 5;
       b \<leftarrow> roll a;
       State_Monad.return (Minus a b, int a - int b)
     } else do {
       a0 \<leftarrow> roll 9; b0 \<leftarrow> roll 9;
       let a = a0 + 2; let b = b0 + 2;
       State_Monad.return (Times a b, int a * int b)
     }
   }"

primrec mathQuestions :: "nat \<Rightarrow> (nat list, (math_question \<times> int) list) state" where
  "mathQuestions 0 = State_Monad.return []"
| "mathQuestions (Suc n) = do {
     q \<leftarrow> mathQuestion;
     qs \<leftarrow> mathQuestions n;
     State_Monad.return (q # qs)
   }"

text \<open>The moles from slot \<open>i\<close> on, \<open>n\<close> of them.\<close>

primrec drawMoles :: "nat \<Rightarrow> nat \<Rightarrow> nat \<Rightarrow> nat \<Rightarrow> (nat list, whack_mole list) state" where
  "drawMoles slot gridSize 0 i = State_Monad.return []"
| "drawMoles slot gridSize (Suc n) i = do {
     d \<leftarrow> roll (max 1 (slot div 2));
     let showAtMs = i * slot + d;
     cell \<leftarrow> roll (gridSize * gridSize);
     rest \<leftarrow> drawMoles slot gridSize n (Suc i);
     State_Monad.return
       (\<lparr>mole_cell = cell, mole_showAtMs = showAtMs, mole_hideAtMs = showAtMs + 1200\<rparr> # rest)
   }"

definition dimsumRound :: "(nat list, dim_sum_name \<times> string list) state" where
  "dimsumRound = do {
     p \<leftarrow> roll (length DIM_SUM_NAMES);
     let pick = DIM_SUM_NAMES ! p;
     distractors \<leftarrow> drawDistractors 3 (filter (\<lambda>d. d_id d \<noteq> d_id pick) DIM_SUM_NAMES);
     choices \<leftarrow> shuffle (d_en pick # distractors);
     State_Monad.return (pick, choices)
   }"

section \<open>Handing out a challenge\<close>

lemma deleteIssued_shorter:
  "ld_issued ld = e # rest \<Longrightarrow>
   length (ld_issued (fst (deleteIssued (fst e) (ld, sh)))) < Suc (length rest)"
  by (cases e) (simp add: deleteIssued_def length_delete_le le_imp_less_Suc)

text \<open>The loop that drops the oldest challenge of the peer while it holds too many.\<close>

function trimIssued :: "ladder \<times> ladder_shared \<Rightarrow> ladder \<times> ladder_shared" where
  "trimIssued st =
     (if length (ld_issued (fst st)) \<ge> MAX_LADDER_CHALLENGES_PER_PEER
      then (case ld_issued (fst st) of [] \<Rightarrow> st | e # es \<Rightarrow> trimIssued (deleteIssued (fst e) st))
      else st)"
  by pat_completeness auto
termination
  by (relation "measure (\<lambda>st. length (ld_issued (fst st)))")
    (auto simp: deleteIssued_shorter [of _ "(_, _)", simplified])

declare trimIssued.simps [simp del]

definition blank_issued :: "ladder_rung \<Rightarrow> int \<Rightarrow> issued" where
  "blank_issued r at_ms =
     \<lparr>is_rung = r, is_expiresAt = at_ms + LADDER_TTL_MS, is_issuedAt = at_ms, is_dimsumAnswer = None,
      is_mathAnswers = None, is_moles = None, is_gridSize = None, is_reservation = 0\<rparr>"

definition issueRung ::
  "int \<Rightarrow> ladder_rung \<Rightarrow> ladder \<times> ladder_shared \<Rightarrow>
   (nat list, ladder_challenge option \<times> (ladder \<times> ladder_shared)) state" where
  "issueRung now r st = do {
     nonce \<leftarrow> newNonce;
     (case r of
        Dimsum \<Rightarrow> do {
          (pick, choices) \<leftarrow> dimsumRound;
          let (stored, st1) = storeIssued now nonce
                ((blank_issued Dimsum now)\<lparr>is_dimsumAnswer := Some (d_en pick)\<rparr>) st;
          State_Monad.return
            (if \<not> stored then None
             else Some (DimSumChallenge nonce (d_zhHant pick) choices
                          (int DIMSUM_MAX_FAILS - int (ld_dimsumFails (fst st1)))), st1)
        }
      | Math \<Rightarrow> do {
          qs \<leftarrow> mathQuestions MATH_QUESTION_COUNT;
          let (stored, st1) = storeIssued now nonce
                ((blank_issued Math now)\<lparr>is_mathAnswers := Some (map snd qs)\<rparr>) st;
          State_Monad.return (if \<not> stored then None else Some (MathChallenge nonce (map fst qs)), st1)
        }
      | Whack \<Rightarrow> do {
          let gridSize = 3;
          moles \<leftarrow> drawMoles (WHACK_DURATION_MS div WHACK_MOLE_COUNT) gridSize WHACK_MOLE_COUNT 0;
          let (stored, st1) = storeIssued now nonce
                ((blank_issued Whack now)\<lparr>is_moles := Some moles, is_gridSize := Some gridSize\<rparr>) st;
          State_Monad.return
            (if \<not> stored then None
             else Some (WhackChallenge nonce gridSize WHACK_DURATION_MS WHACK_REQUIRED_HITS moles), st1)
        })
   }"

definition issue ::
  "int \<Rightarrow> bool \<Rightarrow> ladder_rung option \<Rightarrow> ladder \<times> ladder_shared \<Rightarrow>
   (nat list, ladder_challenge option \<times> (ladder \<times> ladder_shared)) state" where
  "issue now school rung st =
     (let (ok, st1) = ladderAvailable now st in
      if \<not> ok then State_Monad.return (None, st1)
      else
        let asked = (case rung of None \<Rightarrow> firstRung school | Some r \<Rightarrow> r);
            r = (if asked = Dimsum \<and> school then Math else asked);
            st2 = sweepIssued now st1;
            (free, sh3) = challengesAvailable now (snd st2);
            st3 = (fst st2, sh3)
        in if \<not> free then State_Monad.return (None, st3) else issueRung now r (trimIssued st3))"

section \<open>Grading\<close>

definition math_right :: "int list \<Rightarrow> jsnum list \<Rightarrow> bool" where
  "math_right expected given \<longleftrightarrow>
     length given = length expected \<and> list_all2 (\<lambda>v g. g = jsint v) expected given"

text \<open>The mole that a hit takes: up, in that cell, at that moment, and not taken yet.\<close>

definition mole_for :: "whack_mole list \<Rightarrow> nat set \<Rightarrow> nat \<Rightarrow> rat \<Rightarrow> nat option" where
  "mole_for moles used cell at_ms =
     find_index (\<lambda>(idx, m). idx \<notin> used \<and> mole_cell m = cell
                   \<and> at_ms \<ge> of_nat (mole_showAtMs m) \<and> at_ms \<le> of_nat (mole_hideAtMs m))
       (enumerate 0 moles)"

text \<open>The time and the cell of a hit, when both are in range.\<close>

fun hit_at :: "nat \<Rightarrow> whack_hit option \<Rightarrow> (rat \<times> nat) option" where
  "hit_at grid None = None"
| "hit_at grid (Some h) =
     (case hit_atMs h of
        Fin t \<Rightarrow>
          if t < 0 \<or> t > of_nat WHACK_DURATION_MS then None
          else (case hit_cell h of
                  Fin c \<Rightarrow> if of_int \<lfloor>c\<rfloor> = c \<and> \<not> c < 0 \<and> \<not> c \<ge> of_nat (grid * grid)
                           then Some (t, nat \<lfloor>c\<rfloor>) else None
                | _ \<Rightarrow> None)
      | _ \<Rightarrow> None)"

fun count_hits :: "nat \<Rightarrow> whack_mole list \<Rightarrow> nat set \<Rightarrow> whack_hit option list \<Rightarrow> nat" where
  "count_hits grid moles used [] = 0"
| "count_hits grid moles used (h # hs) =
     (case hit_at grid h of
        None \<Rightarrow> count_hits grid moles used hs
      | Some (t, c) \<Rightarrow>
          (case mole_for moles used c t of
             None \<Rightarrow> count_hits grid moles used hs
           | Some i \<Rightarrow> Suc (count_hits grid moles (insert i used) hs)))"

definition verdict :: "ladder_rung option \<Rightarrow> ladder_message \<Rightarrow> ladder_verdict" where
  "verdict nxt msg = \<lparr>v_cleared = False, v_next = nxt, v_exhausted = False, v_message = msg\<rparr>"

definition over :: "ladder_message \<Rightarrow> ladder_verdict" where
  "over msg = \<lparr>v_cleared = False, v_next = None, v_exhausted = True, v_message = msg\<rparr>"

definition exhaust :: "ladder \<times> ladder_shared \<Rightarrow> ladder \<times> ladder_shared" where
  "exhaust st = clearIssued ((fst st)\<lparr>ld_exhausted := True\<rparr>, snd st)"

definition clearLadder ::
  "int \<Rightarrow> ladder_message \<Rightarrow> ladder \<times> ladder_shared \<Rightarrow> ladder_verdict \<times> (ladder \<times> ladder_shared)" where
  "clearLadder now msg st =
     (let (recorded, sh) = tryRecord now (snd st) in
      if \<not> recorded then (over NoShortcutsLeft, exhaust (fst st, sh))
      else (\<lparr>v_cleared = True, v_next = None, v_exhausted = False, v_message = msg\<rparr>,
            resetLadder (fst st, sh)))"

fun grade ::
  "int \<Rightarrow> issued \<Rightarrow> ladder_answer \<Rightarrow> ladder \<times> ladder_shared \<Rightarrow>
   ladder_verdict \<times> (ladder \<times> ladder_shared)" where
  "grade now r (DimSumAnswer _ choice) st =
     (if Some choice = is_dimsumAnswer r then clearLadder now DimsumCorrect st
      else
        let fails = ld_dimsumFails (fst st) + 1; st1 = ((fst st)\<lparr>ld_dimsumFails := fails\<rparr>, snd st) in
        if fails \<ge> DIMSUM_MAX_FAILS then (verdict (Some Math) (DimsumMisses DIMSUM_MAX_FAILS), st1)
        else (verdict (Some Dimsum) (DimsumTriesLeft (int DIMSUM_MAX_FAILS - int fails)), st1))"
| "grade now r (MathAnswer _ answers) st =
     (let expected = (case is_mathAnswers r of None \<Rightarrow> [] | Some xs \<Rightarrow> xs);
          given = (case answers of None \<Rightarrow> [] | Some xs \<Rightarrow> xs)
      in if math_right expected given then clearLadder now MathCorrect st
         else (verdict (Some Whack) MathWrong, st))"
| "grade now r (WhackAnswer _ answered) st =
     (let moles = (case is_moles r of None \<Rightarrow> [] | Some ms \<Rightarrow> ms);
          grid = (case is_gridSize r of None \<Rightarrow> 3 | Some g \<Rightarrow> g);
          elapsed = now - is_issuedAt r
      in if elapsed < int WHACK_DURATION_MS then (verdict (Some Whack) RoundNotFinished, st)
         else
           let hits = (case answered of None \<Rightarrow> [] | Some hs \<Rightarrow> hs);
               good = count_hits grid moles {} hits
           in if good \<ge> WHACK_REQUIRED_HITS then clearLadder now (MolesCleared good) st
              else (over (MolesShort good WHACK_REQUIRED_HITS), exhaust st))"

definition verify ::
  "int \<Rightarrow> bool \<Rightarrow> ladder_answer \<Rightarrow> ladder \<times> ladder_shared \<Rightarrow>
   ladder_verdict \<times> (ladder \<times> ladder_shared)" where
  "verify now school answer st =
     (let st1 = sweepIssued now st in
      if ld_exhausted (fst st1) then (over ClimbOver, clearIssued st1)
      else
        case map_of (ld_issued (fst st1)) (an_nonce answer) of
          None \<Rightarrow> (verdict (Some (firstRung school)) ChallengeExpired, st1)
        | Some r \<Rightarrow>
            let st2 = clearIssued st1 in
            if is_rung r \<noteq> an_kind answer then (verdict (Some (is_rung r)) KindMismatch, st2)
            else grade now r answer st2)"

section \<open>Peers of one account\<close>

record ladder_world =
  w_peers :: "nat \<Rightarrow> ladder"
  w_shared :: ladder_shared

definition world_start :: ladder_world where
  "world_start = \<lparr>w_peers = (\<lambda>_. ladder_start), w_shared = shared_start\<rparr>"

datatype ladder_event =
    Issue nat bool "ladder_rung option" "nat list"
  | Verify nat bool ladder_answer
  | NewLockout nat

definition put_peer :: "nat \<Rightarrow> ladder \<times> ladder_shared \<Rightarrow> ladder_world \<Rightarrow> ladder_world" where
  "put_peer p st w = w\<lparr>w_peers := (w_peers w)(p := fst st), w_shared := snd st\<rparr>"

text \<open>One event at a time; the flag says whether a wait was cleared.\<close>

fun ladder_step :: "int \<Rightarrow> ladder_event \<Rightarrow> ladder_world \<Rightarrow> bool \<times> ladder_world" where
  "ladder_step now (Issue p school rung dice) w =
     (let ((c, st), dice') = run_state (issue now school rung (w_peers w p, w_shared w)) dice
      in (False, put_peer p st w))"
| "ladder_step now (Verify p school answer) w =
     (let (v, st) = verify now school answer (w_peers w p, w_shared w)
      in (v_cleared v, put_peer p st w))"
| "ladder_step now (NewLockout p) w = (False, put_peer p (resetLadder (w_peers w p, w_shared w)) w)"

text \<open>A run keeps the times of the waits that were cleared.\<close>

fun ladder_run :: "(int \<times> ladder_event) list \<Rightarrow> int list \<times> ladder_world \<Rightarrow> int list \<times> ladder_world" where
  "ladder_run [] hw = hw"
| "ladder_run ((now, ev) # evs) hw =
     (let (cleared, w') = ladder_step now ev (snd hw)
      in ladder_run evs (if cleared then fst hw @ [now] else fst hw, w'))"

section \<open>The account budget\<close>

lemma deleteIssued_clears [simp]: "sh_clears (snd (deleteIssued n st)) = sh_clears (snd st)"
  by (cases st) (simp add: deleteIssued_def release_def split: option.split)

lemma deleteIssued_flags [simp]:
  "ld_exhausted (fst (deleteIssued n st)) = ld_exhausted (fst st)"
  "ld_dimsumFails (fst (deleteIssued n st)) = ld_dimsumFails (fst st)"
  by (cases st; simp add: deleteIssued_def split: option.split)+

lemma fold_deleteIssued_clears:
  "sh_clears (snd (foldl (\<lambda>st n. deleteIssued n st) st ns)) = sh_clears (snd st)
   \<and> ld_exhausted (fst (foldl (\<lambda>st n. deleteIssued n st) st ns)) = ld_exhausted (fst st)"
  by (induction ns arbitrary: st) simp_all

lemma clearIssued_clears [simp]:
  "sh_clears (snd (clearIssued st)) = sh_clears (snd st)"
  "ld_exhausted (fst (clearIssued st)) = ld_exhausted (fst st)"
  by (simp_all add: clearIssued_def fold_deleteIssued_clears)

lemma fold_sweep_clears:
  "sh_clears (snd (foldl (\<lambda>st (n, r). if is_expiresAt r \<le> now \<or> \<not> hasReservation (is_reservation r) (snd st)
       then deleteIssued n st else st) st es)) = sh_clears (snd st)
   \<and> ld_exhausted (fst (foldl (\<lambda>st (n, r). if is_expiresAt r \<le> now
         \<or> \<not> hasReservation (is_reservation r) (snd st)
       then deleteIssued n st else st) st es)) = ld_exhausted (fst st)"
  by (induction es arbitrary: st) (auto split: prod.splits)

lemma sweepIssued_clears [simp]:
  "sh_clears (snd (sweepIssued now st)) = sh_clears (snd st)"
  "ld_exhausted (fst (sweepIssued now st)) = ld_exhausted (fst st)"
  unfolding sweepIssued_def by (simp_all add: fold_sweep_clears)

lemma resetLadder_clears [simp]: "sh_clears (snd (resetLadder st)) = sh_clears (snd st)"
  using clearIssued_clears(1) [of st]
  by (cases "clearIssued st") (simp add: resetLadder_def del: clearIssued_clears)

lemma exhaust_clears [simp]: "sh_clears (snd (exhaust st)) = sh_clears (snd st)"
  by (simp add: exhaust_def)

lemma trimIssued_clears [simp]: "sh_clears (snd (trimIssued st)) = sh_clears (snd st)"
proof (induction st rule: trimIssued.induct)
  case (1 st)
  then show ?case by (subst trimIssued.simps) (simp split: list.split)
qed

lemma challengesAvailable_clears:
  "challengesAvailable now sh = (free, sh1) \<Longrightarrow> sh_clears sh1 = sh_clears sh"
  by (auto simp: challengesAvailable_def sweepReservations_def Let_def)

lemma tryReserve_clears: "tryReserve e now sh = (t, sh1) \<Longrightarrow> sh_clears sh1 = sh_clears sh"
  by (auto simp: tryReserve_def Let_def split: prod.splits if_splits dest: challengesAvailable_clears)

lemma storeIssued_clears: "storeIssued now n r st = (ok, st1) \<Longrightarrow> sh_clears (snd st1) = sh_clears (snd st)"
proof -
  assume s: "storeIssued now n r st = (ok, st1)"
  obtain ld sh where d: "(if map_of (ld_issued (fst st)) n \<noteq> None then deleteIssued n st else st) = (ld, sh)"
    by fastforce
  have "sh_clears sh = sh_clears (snd st)"
    using d deleteIssued_clears [of n st] by (auto split: if_splits simp del: deleteIssued_clears)
  then show ?thesis
    using s d by (auto simp: storeIssued_def Let_def split: prod.splits option.splits dest: tryReserve_clears)
qed

lemma issueRung_store:
  assumes "run_state (issueRung now r st) dice = ((c, st1), dice1)"
  obtains nonce rec ok where "storeIssued now nonce rec st = (ok, st1)" "(c = None) = (\<not> ok)"
    "is_expiresAt rec = now + LADDER_TTL_MS"
proof -
  obtain nonce d1 where n: "run_state newNonce dice = (nonce, d1)" by fastforce
  show ?thesis
  proof (cases r)
    case Dimsum
    obtain pick choices d2 where p: "run_state dimsumRound d1 = ((pick, choices), d2)"
      by (cases "run_state dimsumRound d1") auto
    let ?r = "(blank_issued Dimsum now)\<lparr>is_dimsumAnswer := Some (d_en pick)\<rparr>"
    obtain ok s1 where s: "storeIssued now nonce ?r st = (ok, s1)" by (rule prod.exhaust)
    with assms n p Dimsum have "s1 = st1" "(c = None) = (\<not> ok)"
      by (auto simp: issueRung_def split: if_splits)
    with s show ?thesis by (intro that [of nonce ?r ok]) (simp_all add: blank_issued_def)
  next
    case Math
    obtain qs d2 where p: "run_state (mathQuestions MATH_QUESTION_COUNT) d1 = (qs, d2)" by fastforce
    let ?r = "(blank_issued Math now)\<lparr>is_mathAnswers := Some (map snd qs)\<rparr>"
    obtain ok s1 where s: "storeIssued now nonce ?r st = (ok, s1)" by (rule prod.exhaust)
    with assms n p Math have "s1 = st1" "(c = None) = (\<not> ok)"
      by (auto simp: issueRung_def split: if_splits)
    with s show ?thesis by (intro that [of nonce ?r ok]) (simp_all add: blank_issued_def)
  next
    case Whack
    obtain ms d2 where p: "run_state (drawMoles (WHACK_DURATION_MS div WHACK_MOLE_COUNT) 3
        WHACK_MOLE_COUNT 0) d1 = (ms, d2)" by fastforce
    let ?r = "(blank_issued Whack now)\<lparr>is_moles := Some ms, is_gridSize := Some 3\<rparr>"
    obtain ok s1 where s: "storeIssued now nonce ?r st = (ok, s1)" by (rule prod.exhaust)
    with assms n p Whack have "s1 = st1" "(c = None) = (\<not> ok)"
      by (auto simp: issueRung_def Let_def split: if_splits)
    with s show ?thesis by (intro that [of nonce ?r ok]) (simp_all add: blank_issued_def)
  qed
qed

definition recent :: "int \<Rightarrow> int list \<Rightarrow> int list" where
  "recent now ts = filter (\<lambda>t. t > now - LADDER_BUDGET_WINDOW_MS) ts"

lemma issue_clears:
  assumes "run_state (issue now school rung st) dice = ((c, st1), dice1)"
  shows "sh_clears (snd st1) \<in> {sh_clears (snd st), recent now (sh_clears (snd st))}"
proof -
  obtain ok sta where a: "ladderAvailable now st = (ok, sta)" by (rule prod.exhaust)
  have ca: "sh_clears (snd sta) \<in> {sh_clears (snd st), recent now (sh_clears (snd st))}"
    using a by (auto simp: ladderAvailable_def budget_left_def Let_def recent_def split: prod.splits if_splits)
  show ?thesis
  proof (cases ok)
    case False
    with a ca assms show ?thesis by (simp add: issue_def)
  next
    case True
    obtain free sh3 where f: "challengesAvailable now (snd (sweepIssued now sta)) = (free, sh3)" by fastforce
    have c3: "sh_clears sh3 = sh_clears (snd sta)" using challengesAvailable_clears [OF f] by simp
    show ?thesis
    proof (cases free)
      case False
      with True a f c3 ca assms show ?thesis by (auto simp: issue_def Let_def)
    next
      case free: True
      let ?st4 = "trimIssued (fst (sweepIssued now sta), sh3)"
      have "\<exists>r. run_state (issueRung now r ?st4) dice = ((c, st1), dice1)"
        using True free a f assms by (auto simp: issue_def Let_def)
      then obtain r where "run_state (issueRung now r ?st4) dice = ((c, st1), dice1)" by blast
      then obtain nonce rec ok' where "storeIssued now nonce rec ?st4 = (ok', st1)"
        by (rule issueRung_store)
      from storeIssued_clears [OF this] c3 ca show ?thesis by simp
    qed
  qed
qed

lemma recent_recent: "s \<le> t \<Longrightarrow> recent t (recent s ts) = recent t ts"
  by (auto simp: recent_def intro!: filter_cong)

lemma clearLadder_result:
  assumes "clearLadder now msg st = (v, st1)"
  shows "if v_cleared v
    then length (recent now (sh_clears (snd st))) < LADDER_BUDGET
         \<and> sh_clears (snd st1) = recent now (sh_clears (snd st)) @ [now]
    else sh_clears (snd st1) = recent now (sh_clears (snd st))"
proof (cases "length (recent now (sh_clears (snd st))) < LADDER_BUDGET")
  case True
  with assms show ?thesis
    by (auto simp: clearLadder_def tryRecord_def budget_left_def Let_def recent_def)
next
  case False
  with assms show ?thesis
    by (auto simp: clearLadder_def tryRecord_def budget_left_def Let_def recent_def over_def)
qed

lemma grade_shape:
  assumes "grade now r a st = (v, st1)"
  shows "(\<exists>msg. clearLadder now msg st = (v, st1)) \<or> (\<not> v_cleared v \<and> (st1 = st \<or> st1 = exhaust st
    \<or> (\<exists>f. st1 = ((fst st)\<lparr>ld_dimsumFails := f\<rparr>, snd st))))"
proof (cases a)
  case (DimSumAnswer n choice)
  with assms show ?thesis
    by (cases "Some choice = is_dimsumAnswer r"; cases "DIMSUM_MAX_FAILS \<le> ld_dimsumFails (fst st) + 1")
      (auto simp: verdict_def Let_def)
next
  case (MathAnswer n answers)
  have "grade now r (MathAnswer n answers) st = (if math_right
      (case is_mathAnswers r of None \<Rightarrow> [] | Some xs \<Rightarrow> xs) (case answers of None \<Rightarrow> [] | Some xs \<Rightarrow> xs)
    then clearLadder now MathCorrect st else (verdict (Some Whack) MathWrong, st))"
    by (simp only: grade.simps Let_def)
  with assms MathAnswer show ?thesis by (metis (mono_tags) Pair_inject ladder_verdict.select_convs(1) verdict_def)
next
  case (WhackAnswer n hits)
  let ?good = "count_hits (case is_gridSize r of None \<Rightarrow> 3 | Some g \<Rightarrow> g)
    (case is_moles r of None \<Rightarrow> [] | Some ms \<Rightarrow> ms) {} (case hits of None \<Rightarrow> [] | Some hs \<Rightarrow> hs)"
  from WhackAnswer assms show ?thesis
    by (cases "now - is_issuedAt r < int WHACK_DURATION_MS"; cases "WHACK_REQUIRED_HITS \<le> ?good")
      (auto simp: verdict_def over_def Let_def)
qed

lemma grade_result:
  assumes "grade now r a st = (v, st1)"
  shows "if v_cleared v
    then length (recent now (sh_clears (snd st))) < LADDER_BUDGET
         \<and> sh_clears (snd st1) = recent now (sh_clears (snd st)) @ [now]
    else sh_clears (snd st1) \<in> {sh_clears (snd st), recent now (sh_clears (snd st))}"
  using grade_shape [OF assms]
proof
  assume "\<exists>msg. clearLadder now msg st = (v, st1)"
  then obtain msg where "clearLadder now msg st = (v, st1)" ..
  from clearLadder_result [OF this] show ?thesis by (cases "v_cleared v") simp_all
qed auto

lemma verify_cases:
  assumes "verify now school a st = (v, st1)"
  obtains (climb_over) "v = over ClimbOver" "st1 = clearIssued (sweepIssued now st)"
      "ld_exhausted (fst st)"
  | (gone) "v = verdict (Some (firstRung school)) ChallengeExpired" "st1 = sweepIssued now st"
      "map_of (ld_issued (fst (sweepIssued now st))) (an_nonce a) = None"
  | (mismatch) r where "v = verdict (Some (is_rung r)) KindMismatch"
      "st1 = clearIssued (sweepIssued now st)" "is_rung r \<noteq> an_kind a"
      "map_of (ld_issued (fst (sweepIssued now st))) (an_nonce a) = Some r"
  | (graded) r where "grade now r a (clearIssued (sweepIssued now st)) = (v, st1)"
      "\<not> ld_exhausted (fst st)" "is_rung r = an_kind a"
      "map_of (ld_issued (fst (sweepIssued now st))) (an_nonce a) = Some r"
proof (cases "ld_exhausted (fst st)")
  case True
  with assms show ?thesis by (intro climb_over) (simp_all add: verify_def Let_def)
next
  case alive: False
  show ?thesis
  proof (cases "map_of (ld_issued (fst (sweepIssued now st))) (an_nonce a)")
    case None
    with alive assms show ?thesis by (intro gone) (simp_all add: verify_def Let_def)
  next
    case (Some r)
    show ?thesis
    proof (cases "is_rung r = an_kind a")
      case True
      with alive Some assms show ?thesis by (intro graded [of r]) (simp_all add: verify_def Let_def)
    next
      case False
      with alive Some assms show ?thesis by (intro mismatch [of r]) (simp_all add: verify_def Let_def)
    qed
  qed
qed

lemma verify_result:
  assumes "verify now school a st = (v, st1)"
  shows "if v_cleared v
    then length (recent now (sh_clears (snd st))) < LADDER_BUDGET
         \<and> sh_clears (snd st1) = recent now (sh_clears (snd st)) @ [now]
    else sh_clears (snd st1) \<in> {sh_clears (snd st), recent now (sh_clears (snd st))}"
  using assms
proof (cases rule: verify_cases)
  case (graded r)
  from grade_result [OF graded(1)] show ?thesis unfolding clearIssued_clears sweepIssued_clears .
qed (simp_all add: over_def verdict_def)

lemma ladder_step_clears:
  assumes "ladder_step now ev w = (cleared, w')"
  shows "if cleared
    then length (recent now (sh_clears (w_shared w))) < LADDER_BUDGET
         \<and> sh_clears (w_shared w') = recent now (sh_clears (w_shared w)) @ [now]
    else sh_clears (w_shared w') \<in> {sh_clears (w_shared w), recent now (sh_clears (w_shared w))}"
proof (cases ev)
  case (Issue p school rung dice)
  obtain c st1 d1 where i: "run_state (issue now school rung (w_peers w p, w_shared w)) dice = ((c, st1), d1)"
    by (metis surj_pair)
  from issue_clears [OF i] assms Issue i show ?thesis by (auto simp: put_peer_def)
next
  case (Verify p school answer)
  obtain v st1 where v: "verify now school answer (w_peers w p, w_shared w) = (v, st1)" by (metis surj_pair)
  from verify_result [OF v] assms Verify v show ?thesis by (auto simp: put_peer_def)
next
  case (NewLockout p)
  with assms show ?thesis by (auto simp: put_peer_def)
qed

definition window_bounded :: "int list \<Rightarrow> bool" where
  "window_bounded H \<longleftrightarrow>
     (\<forall>s. length (filter (\<lambda>t. s - LADDER_BUDGET_WINDOW_MS < t \<and> t \<le> s) H) \<le> LADDER_BUDGET)"

text \<open>
  The history of the clears against the list that the budget keeps: inside the current window they are
  the same.
\<close>

definition budget_inv :: "int \<Rightarrow> int list \<Rightarrow> int list \<Rightarrow> bool" where
  "budget_inv now H kept \<longleftrightarrow>
     list_all (\<lambda>t. t \<le> now) H \<and> (\<forall>s \<ge> now. recent s H = recent s kept) \<and> window_bounded H"

lemma budget_inv_step:
  assumes inv: "budget_inv t0 H kept" and t: "t0 \<le> now"
  shows "budget_inv now H kept" "budget_inv now H (recent now kept)"
    and "length (recent now kept) < LADDER_BUDGET \<Longrightarrow> budget_inv now (H @ [now]) (recent now kept @ [now])"
proof -
  have le: "list_all (\<lambda>t. t \<le> now) H" using inv t by (auto simp: budget_inv_def list_all_iff)
  have same: "recent s H = recent s kept" if "now \<le> s" for s using inv t that by (auto simp: budget_inv_def)
  have b: "window_bounded H" using inv by (simp add: budget_inv_def)
  show i: "budget_inv now H kept" "budget_inv now H (recent now kept)"
    using le same b by (auto simp: budget_inv_def recent_recent)
  assume room: "length (recent now kept) < LADDER_BUDGET"
  have "length (filter (\<lambda>t. s - LADDER_BUDGET_WINDOW_MS < t \<and> t \<le> s) (H @ [now])) \<le> LADDER_BUDGET" for s
  proof (cases "s < now")
    case True
    with b show ?thesis by (simp add: window_bounded_def)
  next
    case False
    have "length (filter (\<lambda>t. s - LADDER_BUDGET_WINDOW_MS < t \<and> t \<le> s) H) \<le> length (recent s H)"
      unfolding recent_def filter_filter [symmetric]
      by (rule length_filter_le)
    also have "\<dots> \<le> length (recent now kept)"
    proof -
      have "recent s H = recent s (recent now kept)" using same [of s] False by (simp add: recent_recent)
      then show ?thesis by (simp add: recent_def [of s])
    qed
    finally show ?thesis using room by simp
  qed
  moreover have "recent s (H @ [now]) = recent s (recent now kept @ [now])" if "now \<le> s" for s
    using same [OF that] recent_recent [OF that, of kept] by (simp add: recent_def)
  ultimately show "budget_inv now (H @ [now]) (recent now kept @ [now])"
    using le by (simp add: budget_inv_def window_bounded_def)
qed

lemma ladder_run_budget:
  assumes "budget_inv t0 H (sh_clears (w_shared w))" "sorted (t0 # map fst evs)"
    and "ladder_run evs (H, w) = (H', w')"
  shows "window_bounded H'"
  using assms
proof (induction evs arbitrary: t0 H w)
  case Nil
  then show ?case by (simp add: budget_inv_def)
next
  case (Cons e evs)
  obtain now ev where e: "e = (now, ev)" by fastforce
  obtain cleared w1 where st: "ladder_step now ev w = (cleared, w1)" by (rule prod.exhaust)
  note bs = budget_inv_step [OF Cons.prems(1), of now]
  have le: "t0 \<le> now" using Cons.prems(2) e by simp
  have "budget_inv now (if cleared then H @ [now] else H) (sh_clears (w_shared w1))"
    using ladder_step_clears [OF st] bs le by (auto split: if_splits)
  from Cons.IH [OF this] Cons.prems(2,3) e st show ?case by (cases cleared) simp_all
qed

text \<open>
  C6. The shortcut is budgeted for the account, not for the peer. However many peers climb and in
  whatever order they ask, answer and are locked out again, in no hour are more than three waits
  cleared, as long as the clock does not run backwards.
\<close>

theorem ladder_budget_holds:
  assumes "sorted (map fst evs)" "ladder_run evs ([], world_start) = (cleared_at, w)"
  shows "length (filter (\<lambda>t. s - LADDER_BUDGET_WINDOW_MS < t \<and> t \<le> s) cleared_at) \<le> LADDER_BUDGET"
proof -
  let ?t0 = "case evs of [] \<Rightarrow> 0 | e # _ \<Rightarrow> fst e"
  have "budget_inv ?t0 [] (sh_clears (w_shared world_start))"
    by (simp add: budget_inv_def world_start_def shared_start_def window_bounded_def)
  moreover have "sorted (?t0 # map fst evs)" using assms(1) by (cases evs) auto
  ultimately show ?thesis
    using ladder_run_budget [OF _ _ assms(2)] by (auto simp: window_bounded_def)
qed

theorem ladder_budget_holds_witness:
  "length (filter (\<lambda>t. 10 - LADDER_BUDGET_WINDOW_MS < t \<and> t \<le> 10)
     (fst (ladder_run [(0, Issue 0 False None []), (5, NewLockout 1), (5, Verify 0 False (DimSumAnswer ''a'' ''x''))]
       ([], world_start)))) \<le> LADDER_BUDGET"
  by (rule ladder_budget_holds [OF _ prod.collapse [symmetric]]) simp

section \<open>The memory of the challenges\<close>

definition tokens :: "ladder \<Rightarrow> nat set" where
  "tokens ld = is_reservation ` snd ` set (ld_issued ld)"

text \<open>
  The accounting, seen from one peer: \<open>others\<close> are the tokens of the others. Every reservation has an
  owner, no token has two, and both stores are within their caps.
\<close>

definition accounted :: "nat set \<Rightarrow> ladder \<times> ladder_shared \<Rightarrow> bool" where
  "accounted others st \<longleftrightarrow>
     (let (ld, sh) = st in
      distinct (map fst (ld_issued ld)) \<and> distinct (map (is_reservation \<circ> snd) (ld_issued ld))
      \<and> length (ld_issued ld) \<le> MAX_LADDER_CHALLENGES_PER_PEER
      \<and> length (sh_reservations sh) \<le> MAX_LADDER_CHALLENGES_GLOBAL
      \<and> distinct (map fst (sh_reservations sh))
      \<and> fst ` set (sh_reservations sh) \<subseteq> tokens ld \<union> others
      \<and> tokens ld \<inter> others = {} \<and> tokens ld \<union> others \<subseteq> {..<sh_nextToken sh})"

lemma accountedD:
  assumes "accounted others (ld, sh)"
  shows "distinct (map fst (ld_issued ld))" "distinct (map (is_reservation \<circ> snd) (ld_issued ld))"
    "length (ld_issued ld) \<le> MAX_LADDER_CHALLENGES_PER_PEER"
    "length (sh_reservations sh) \<le> MAX_LADDER_CHALLENGES_GLOBAL" "distinct (map fst (sh_reservations sh))"
    "fst ` set (sh_reservations sh) \<subseteq> tokens ld \<union> others" "tokens ld \<inter> others = {}"
    "tokens ld \<union> others \<subseteq> {..<sh_nextToken sh}"
  using assms by (simp_all add: accounted_def)

lemma delete_eq_filter: "AList.delete k xs = filter (\<lambda>e. fst e \<noteq> k) xs"
  by (induction xs) (auto split: prod.splits)

lemma update_append: "n \<notin> fst ` set xs \<Longrightarrow> AList.update n v xs = xs @ [(n, v)]"
  by (induction xs) auto

lemma distinct_map_other:
  "distinct (map f xs) \<Longrightarrow> x \<in> set xs \<Longrightarrow> y \<in> set xs \<Longrightarrow> f x = f y \<longleftrightarrow> x = y"
  by (auto simp: distinct_map inj_on_def)

lemma deleteIssued_some:
  assumes "accounted others (ld, sh)" "map_of (ld_issued ld) n = Some r"
  shows "deleteIssued n (ld, sh)
      = (ld\<lparr>ld_issued := filter (\<lambda>e. fst e \<noteq> n) (ld_issued ld)\<rparr>,
         sh\<lparr>sh_reservations := filter (\<lambda>e. fst e \<noteq> is_reservation r) (sh_reservations sh)\<rparr>)"
    and "tokens (ld\<lparr>ld_issued := filter (\<lambda>e. fst e \<noteq> n) (ld_issued ld)\<rparr>) = tokens ld - {is_reservation r}"
proof -
  note d = accountedD [OF assms(1)]
  show "deleteIssued n (ld, sh)
      = (ld\<lparr>ld_issued := filter (\<lambda>e. fst e \<noteq> n) (ld_issued ld)\<rparr>,
         sh\<lparr>sh_reservations := filter (\<lambda>e. fst e \<noteq> is_reservation r) (sh_reservations sh)\<rparr>)"
    using assms(2) by (simp add: deleteIssued_def release_def delete_eq_filter)
  have mem: "(n, r) \<in> set (ld_issued ld)" using assms(2) by (rule map_of_SomeD)
  have "fst e = n \<longleftrightarrow> is_reservation (snd e) = is_reservation r" if "e \<in> set (ld_issued ld)" for e
    using distinct_map_other [OF d(1) that mem] distinct_map_other [OF d(2) that mem] by (cases e) auto
  then show "tokens (ld\<lparr>ld_issued := filter (\<lambda>e. fst e \<noteq> n) (ld_issued ld)\<rparr>) = tokens ld - {is_reservation r}"
    by (auto simp: tokens_def image_iff)
qed

lemma accounted_deleteIssued:
  assumes "accounted others st"
  shows "accounted others (deleteIssued n st)"
proof -
  obtain ld sh where st: "st = (ld, sh)" by (rule prod.exhaust)
  show ?thesis
  proof (cases "map_of (ld_issued ld) n")
    case None
    with st assms show ?thesis by (simp add: deleteIssued_def)
  next
    case (Some r)
    note d = accountedD [OF assms [unfolded st]] and del = deleteIssued_some [OF assms [unfolded st] Some]
    have "length (filter P xs) \<le> k" if "length xs \<le> k" for P k and xs :: "'x list"
      using length_filter_le [of P xs] that by (rule le_trans)
    note len = this
    from d show ?thesis
      unfolding st del(1) accounted_def
      by (auto simp: del(2) distinct_map_filter intro!: len)
  qed
qed

lemma accounted_fold_delete: "accounted others st \<Longrightarrow> accounted others (foldl (\<lambda>st n. deleteIssued n st) st ns)"
  by (induction ns arbitrary: st) (simp_all add: accounted_deleteIssued)

lemma accounted_clearIssued: "accounted others st \<Longrightarrow> accounted others (clearIssued st)"
  by (simp add: clearIssued_def accounted_fold_delete)

lemma accounted_sweepIssued:
  assumes "accounted others st"
  shows "accounted others (sweepIssued now st)"
proof -
  have "accounted others (foldl (\<lambda>st (n, r). if is_expiresAt r \<le> now
      \<or> \<not> hasReservation (is_reservation r) (snd st) then deleteIssued n st else st) s es)"
    if "accounted others s" for es s
    using that
  proof (induction es arbitrary: s)
    case (Cons e es)
    then show ?case by (cases e) (simp add: accounted_deleteIssued)
  qed simp
  with assms show ?thesis by (simp add: sweepIssued_def)
qed

lemma accounted_trimIssued:
  "accounted others st \<Longrightarrow> accounted others (trimIssued st)
     \<and> length (ld_issued (fst (trimIssued st))) < MAX_LADDER_CHALLENGES_PER_PEER"
proof (induction st rule: trimIssued.induct)
  case (1 st)
  show ?case
  proof (cases "length (ld_issued (fst st)) \<ge> MAX_LADDER_CHALLENGES_PER_PEER")
    case True
    then obtain e es where e: "ld_issued (fst st) = e # es"
      by (cases "ld_issued (fst st)") (simp_all add: MAX_LADDER_CHALLENGES_PER_PEER_def)
    from 1(1) [OF True e accounted_deleteIssued [OF 1(2)]] True e show ?thesis
      by (simp add: trimIssued.simps [of st])
  next
    case False
    with 1(2) show ?thesis by (simp add: trimIssued.simps [of st])
  qed
qed

lemma accounted_other_clears:
  "accounted others (ld, sh) \<Longrightarrow> accounted others (ld\<lparr>ld_dimsumFails := f\<rparr>, sh\<lparr>sh_clears := c\<rparr>)"
  "accounted others (ld, sh) \<Longrightarrow> accounted others (ld\<lparr>ld_dimsumFails := f\<rparr>, sh)"
  "accounted others (ld, sh) \<Longrightarrow> accounted others (ld\<lparr>ld_exhausted := x\<rparr>, sh)"
  "accounted others (ld, sh) \<Longrightarrow> accounted others (ld, sh\<lparr>sh_clears := c\<rparr>)"
  by (simp_all add: accounted_def tokens_def)

lemma accounted_sweepReservations:
  "accounted others (ld, sh) \<Longrightarrow> accounted others (ld, sweepReservations now sh)"
proof -
  assume a: "accounted others (ld, sh)"
  have "length (filter P xs) \<le> k" if "length xs \<le> k" for P k and xs :: "'x list"
    using length_filter_le [of P xs] that by (rule le_trans)
  with accountedD [OF a] show ?thesis
    by (auto simp: accounted_def sweepReservations_def distinct_map_filter)
qed

lemma accounted_storeIssued:
  assumes "accounted others st" "length (ld_issued (fst st)) < MAX_LADDER_CHALLENGES_PER_PEER"
    and "storeIssued now n r st = (ok, st')"
  shows "accounted others st'"
proof -
  let ?st1 = "if map_of (ld_issued (fst st)) n \<noteq> None then deleteIssued n st else st"
  obtain ld sh where st1: "?st1 = (ld, sh)" by (rule prod.exhaust)
  have a1: "accounted others (ld, sh)"
    using assms(1) st1 accounted_deleteIssued [OF assms(1), of n] by (auto split: if_splits)
  obtain ld0 sh0 where st: "st = (ld0, sh0)" by (rule prod.exhaust)
  have fresh: "map_of (ld_issued ld) n = None \<and> length (ld_issued ld) < MAX_LADDER_CHALLENGES_PER_PEER"
  proof (cases "map_of (ld_issued ld0) n")
    case None
    with st1 st assms(2) show ?thesis by simp
  next
    case (Some r0)
    with st1 st deleteIssued_some(1) [OF assms(1) [unfolded st] Some]
    have "ld_issued ld = filter (\<lambda>e. fst e \<noteq> n) (ld_issued ld0)" by auto
    moreover have "length (filter (\<lambda>e. fst e \<noteq> n) (ld_issued ld0)) \<le> length (ld_issued ld0)"
      by (rule length_filter_le)
    moreover have "n \<notin> fst ` set (filter (\<lambda>e. fst e \<noteq> n) (ld_issued ld0))" by auto
    ultimately show ?thesis
      using assms(2) unfolding st fst_conv map_of_eq_None_iff by (metis le_less_trans)
  qed
  let ?sh = "sweepReservations now sh"
  note a2 = accounted_sweepReservations [OF a1, of now] and d = accountedD [OF accounted_sweepReservations [OF a1, of now]]
  show ?thesis
  proof (cases "length (sh_reservations ?sh) < MAX_LADDER_CHALLENGES_GLOBAL")
    case False
    with assms(3) st1 have "st' = (ld, ?sh)"
      by (simp add: storeIssued_def tryReserve_def challengesAvailable_def Let_def)
    with a2 show ?thesis by simp
  next
    case True
    let ?t = "sh_nextToken ?sh"
    from True assms(3) st1 have st': "st' = (ld\<lparr>ld_issued := AList.update n (r\<lparr>is_reservation := ?t\<rparr>) (ld_issued ld)\<rparr>,
        ?sh\<lparr>sh_reservations := sh_reservations ?sh @ [(?t, is_expiresAt r)], sh_nextToken := Suc ?t\<rparr>)"
      by (simp add: storeIssued_def tryReserve_def challengesAvailable_def Let_def)
    let ?r = "r\<lparr>is_reservation := ?t\<rparr>"
    have new: "n \<notin> fst ` set (ld_issued ld)" "length (ld_issued ld) < MAX_LADDER_CHALLENGES_PER_PEER"
      using fresh by (simp_all add: map_of_eq_None_iff)
    have up: "AList.update n ?r (ld_issued ld) = ld_issued ld @ [(n, ?r)]"
      by (rule update_append [OF new(1)])
    have tok: "tokens (ld\<lparr>ld_issued := ld_issued ld @ [(n, ?r)]\<rparr>) = insert ?t (tokens ld)"
      by (auto simp: tokens_def)
    have lt: "?t \<notin> tokens ld" "?t \<notin> others" "?t \<notin> fst ` set (sh_reservations ?sh)" using d(6,8) by auto
    have lower: "is_reservation x < ?t" if "(i, x) \<in> set (ld_issued ld)" for i x
      using d(8) that by (force simp: tokens_def)
    show ?thesis
      unfolding st' up accounted_def
      using d new True lt tok lower by (auto simp: tokens_def less_Suc_eq)
  qed
qed

lemma resetLadder_accounted:
  assumes "accounted others st"
  shows "accounted others (resetLadder st)"
proof -
  obtain ld2 sh2 where c: "clearIssued st = (ld2, sh2)" by (rule prod.exhaust)
  from accounted_clearIssued [OF assms] c have "accounted others (ld2, sh2)" by simp
  then have "accounted others (ld2\<lparr>ld_dimsumFails := 0\<rparr>, sh2)" by (rule accounted_other_clears)
  then have "accounted others (ld2\<lparr>ld_dimsumFails := 0\<rparr>\<lparr>ld_exhausted := False\<rparr>, sh2)"
    by (rule accounted_other_clears)
  with c show ?thesis by (simp add: resetLadder_def)
qed

lemma clearLadder_accounted:
  assumes "accounted others st" "clearLadder now msg st = (v, st1)"
  shows "accounted others st1"
proof -
  obtain ld sh where st: "st = (ld, sh)" by (rule prod.exhaust)
  obtain ok sh1 where t: "tryRecord now sh = (ok, sh1)" by (rule prod.exhaust)
  have "\<exists>c. sh1 = sh\<lparr>sh_clears := c\<rparr>"
    using t by (auto simp: tryRecord_def budget_left_def Let_def split: if_splits)
  then have a: "accounted others (ld, sh1)" using assms(1) st by (auto intro: accounted_other_clears)
  have x: "accounted others (clearIssued (ld\<lparr>ld_exhausted := True\<rparr>, sh1))"
    by (intro accounted_clearIssued accounted_other_clears a)
  note resetLadder_accounted [OF a]
  with x show ?thesis using assms(2) st t by (auto simp: clearLadder_def exhaust_def split: if_splits)
qed

lemma verify_accounted:
  assumes "accounted others st" "verify now school a st = (v, st1)"
  shows "accounted others st1"
  using assms(2)
proof (cases rule: verify_cases)
  case (graded r)
  let ?st = "clearIssued (sweepIssued now st)"
  have a: "accounted others ?st" by (intro accounted_clearIssued accounted_sweepIssued assms(1))
  then have fails: "accounted others ((fst ?st)\<lparr>ld_dimsumFails := f\<rparr>, snd ?st)" for f
    by (simp add: accounted_other_clears)
  have ex: "accounted others (exhaust ?st)"
    unfolding exhaust_def using a by (intro accounted_clearIssued accounted_other_clears) simp
  have "(\<exists>msg. clearLadder now msg ?st = (v, st1)) \<or> st1 = ?st \<or> st1 = exhaust ?st
      \<or> (\<exists>f. st1 = ((fst ?st)\<lparr>ld_dimsumFails := f\<rparr>, snd ?st))"
    using grade_shape [OF graded(1)] by blast
  then show ?thesis using a fails ex clearLadder_accounted [OF a] by metis
qed (use assms(1) in \<open>simp_all add: accounted_clearIssued accounted_sweepIssued\<close>)

lemma issue_accounted:
  assumes "accounted others st" "run_state (issue now school rung st) dice = ((c, st1), dice1)"
  shows "accounted others st1"
proof -
  obtain ok sta where av: "ladderAvailable now st = (ok, sta)" by (rule prod.exhaust)
  have "\<exists>c. sta = (fst st, (snd st)\<lparr>sh_clears := c\<rparr>)"
    using av by (auto simp: ladderAvailable_def budget_left_def Let_def split: prod.splits if_splits)
      (metis ladder_shared.surjective ladder_shared.update_convs(1))
  then have a: "accounted others sta" using assms(1) by (cases st) (auto intro: accounted_other_clears)
  show ?thesis
  proof (cases ok)
    case False
    with av a assms(2) show ?thesis by (simp add: issue_def)
  next
    case True
    obtain ld2 sh2 where s2: "sweepIssued now sta = (ld2, sh2)" by (rule prod.exhaust)
    from accounted_sweepIssued [OF a, of now] s2
    have a3: "accounted others (ld2, sweepReservations now sh2)" by (simp add: accounted_sweepReservations)
    let ?free = "length (sh_reservations (sweepReservations now sh2)) < MAX_LADDER_CHALLENGES_GLOBAL"
    show ?thesis
    proof (cases ?free)
      case False
      with True av s2 a3 assms(2) show ?thesis by (simp add: issue_def challengesAvailable_def Let_def)
    next
      case free: True
      let ?st4 = "trimIssued (ld2, sweepReservations now sh2)"
      have "\<exists>r. run_state (issueRung now r ?st4) dice = ((c, st1), dice1)"
        using True free av s2 assms(2) by (auto simp: issue_def challengesAvailable_def Let_def)
      then obtain r where "run_state (issueRung now r ?st4) dice = ((c, st1), dice1)" by blast
      then obtain nonce rec ok' where "storeIssued now nonce rec ?st4 = (ok', st1)"
        by (rule issueRung_store)
      with accounted_storeIssued accounted_trimIssued [OF a3] show ?thesis by blast
    qed
  qed
qed

definition world_accounted :: "ladder_world \<Rightarrow> bool" where
  "world_accounted w \<longleftrightarrow> (\<forall>p. accounted (\<Union>q \<in> - {p}. tokens (w_peers w q)) (w_peers w p, w_shared w))"

lemma move_others:
  "S \<subseteq> L \<union> (T \<union> R) \<Longrightarrow> L \<inter> (T \<union> R) = {} \<Longrightarrow> L \<union> (T \<union> R) \<subseteq> U \<Longrightarrow> T \<inter> R = {} \<Longrightarrow>
   S \<subseteq> T \<union> (L \<union> R) \<and> T \<inter> (L \<union> R) = {} \<and> T \<union> (L \<union> R) \<subseteq> U"
  by blast

text \<open>A peer's step keeps the accounting of everybody when it keeps its own and mints upwards.\<close>

lemma world_accounted_put:
  assumes w: "world_accounted w"
    and a: "accounted (\<Union>q \<in> - {p}. tokens (w_peers w q)) st"
  shows "world_accounted (put_peer p st w)"
proof -
  obtain ld sh where st: "st = (ld, sh)" by (rule prod.exhaust)
  note d = accountedD [OF a [unfolded st]]
  let ?w = "put_peer p st w"
  have peers: "w_peers ?w q = (if q = p then ld else w_peers w q)" "w_shared ?w = sh" for q
    by (simp_all add: put_peer_def st)
  show ?thesis
    unfolding world_accounted_def
  proof
    fix x
    show "accounted (\<Union>q \<in> - {x}. tokens (w_peers ?w q)) (w_peers ?w x, w_shared ?w)"
    proof (cases "x = p")
      case True
      then have "(\<Union>q \<in> - {x}. tokens (w_peers ?w q)) = (\<Union>q \<in> - {p}. tokens (w_peers w q))"
        by (auto simp: peers)
      with True a st show ?thesis by (simp add: peers [unfolded st])
    next
      case False
      have "accounted (\<Union>q \<in> - {x}. tokens (w_peers w q)) (w_peers w x, w_shared w)"
        using w by (simp add: world_accounted_def)
      note e = accountedD [OF this]
      have u: "tokens (w_peers w x) \<subseteq> (\<Union>q \<in> - {p}. tokens (w_peers w q))" using False by blast
      let ?T = "tokens (w_peers w x)" and ?R = "\<Union>q \<in> - {x, p}. tokens (w_peers w q)"
      have others: "(\<Union>q \<in> - {x}. tokens (w_peers ?w q)) = tokens ld \<union> ?R"
        using False by (auto simp: peers split: if_splits)
      have split: "(\<Union>q \<in> - {p}. tokens (w_peers w q)) = ?T \<union> ?R" using False by auto
      have disj: "?T \<inter> ?R = {}" using e(7) by blast
      have "fst ` set (sh_reservations sh) \<subseteq> ?T \<union> (tokens ld \<union> ?R)"
        "?T \<inter> (tokens ld \<union> ?R) = {}" "?T \<union> (tokens ld \<union> ?R) \<subseteq> {..<sh_nextToken sh}"
        using move_others [OF d(6-8) [unfolded split] disj] by blast+
      then show ?thesis
        using False d(4,5) e(1-3) unfolding others accounted_def by (simp add: peers)
    qed
  qed
qed

lemma ladder_step_accounted:
  assumes "world_accounted w1" "ladder_step now ev w1 = (b, w2)"
  shows "world_accounted w2"
proof -
  have acc: "accounted (\<Union>r \<in> - {q}. tokens (w_peers w1 r)) (w_peers w1 q, w_shared w1)" for q
    using assms(1) by (simp add: world_accounted_def)
  show ?thesis
  proof (cases ev)
    case (Issue q school rung dice)
    obtain c st1 d1 where i: "run_state (issue now school rung (w_peers w1 q, w_shared w1)) dice = ((c, st1), d1)"
      by (metis surj_pair)
    from assms(2) Issue i have "w2 = put_peer q st1 w1" by simp
    then show ?thesis using world_accounted_put [OF assms(1) issue_accounted [OF acc i]] by simp
  next
    case (Verify q school answer)
    obtain v st1 where i: "verify now school answer (w_peers w1 q, w_shared w1) = (v, st1)" by (metis surj_pair)
    from assms(2) Verify i have "w2 = put_peer q st1 w1" by simp
    then show ?thesis using world_accounted_put [OF assms(1) verify_accounted [OF acc i]] by simp
  next
    case (NewLockout q)
    with assms(2) have "w2 = put_peer q (resetLadder (w_peers w1 q, w_shared w1)) w1" by simp
    then show ?thesis using world_accounted_put [OF assms(1) resetLadder_accounted [OF acc]] by simp
  qed
qed

lemma ladder_run_accounted:
  "world_accounted w \<Longrightarrow> ladder_run evs (H, w) = (H', w') \<Longrightarrow> world_accounted w'"
proof (induction evs arbitrary: H w)
  case (Cons e evs)
  obtain now ev where e: "e = (now, ev)" by fastforce
  obtain b w1 where st: "ladder_step now ev w = (b, w1)" by (rule prod.exhaust)
  from Cons.IH [OF ladder_step_accounted [OF Cons.prems(1) st]] Cons.prems(2) e st show ?case by simp
qed simp

text \<open>
  C28. The challenge store cannot leak or grow. Over any sequence of requests, answers and new lockouts
  by any number of peers, whatever the clock and the dice do, no peer holds more than 8 live
  challenges and all together hold at most 256 reservations; every reservation is owned by exactly one
  live challenge record, so none outlives the records.
\<close>

theorem challenges_are_accounted:
  assumes "ladder_run evs ([], world_start) = (cleared_at, w)"
  shows "length (ld_issued (w_peers w p)) \<le> 8 \<and> length (sh_reservations (w_shared w)) \<le> 256
    \<and> (\<forall>t \<in> fst ` set (sh_reservations (w_shared w)). \<exists>!q. t \<in> tokens (w_peers w q))"
proof -
  have "world_accounted world_start"
    by (simp add: world_accounted_def world_start_def shared_start_def ladder_start_def accounted_def tokens_def)
  from ladder_run_accounted [OF this assms] have w: "world_accounted w" .
  note d = accountedD [OF w [unfolded world_accounted_def, rule_format]]
  have "\<exists>!q. t \<in> tokens (w_peers w q)" if t: "t \<in> fst ` set (sh_reservations (w_shared w))" for t
  proof -
    obtain q where "t \<in> tokens (w_peers w q)" using d(6) [of 0] t by blast
    moreover have "q' = q" if "t \<in> tokens (w_peers w q')" "t \<in> tokens (w_peers w q)" for q q'
      using d(7) [of q] that by blast
    ultimately show ?thesis by blast
  qed
  then show ?thesis
    using d(3) [of p] d(4)
    by (simp add: MAX_LADDER_CHALLENGES_PER_PEER_def MAX_LADDER_CHALLENGES_GLOBAL_def)
qed

theorem challenges_are_accounted_witness:
  "length (sh_reservations (w_shared (snd (ladder_run
     [(0, Issue 0 True (Some Dimsum) [1, 2]), (5, NewLockout 0)] ([], world_start))))) \<le> 256"
  using challenges_are_accounted [OF prod.collapse [symmetric]] by blast

section \<open>Grading\<close>

lemma deleteIssued_issued:
  "ld_issued (fst (deleteIssued n st)) = filter (\<lambda>e. fst e \<noteq> n) (ld_issued (fst st))"
proof -
  obtain ld sh where st: "st = (ld, sh)" by (rule prod.exhaust)
  show ?thesis
  proof (cases "map_of (ld_issued ld) n")
    case None
    then have "filter (\<lambda>e. fst e \<noteq> n) (ld_issued ld) = ld_issued ld"
      by (auto simp: map_of_eq_None_iff filter_id_conv)
    with None show ?thesis by (simp add: st deleteIssued_def)
  next
    case (Some r)
    then show ?thesis by (simp add: st deleteIssued_def delete_eq_filter)
  qed
qed

lemma fold_delete_issued:
  "ld_issued (fst (foldl (\<lambda>st n. deleteIssued n st) st ns))
     = filter (\<lambda>e. fst e \<notin> set ns) (ld_issued (fst st))"
  by (induction ns arbitrary: st) (auto simp: deleteIssued_issued intro!: filter_cong)

lemma clearIssued_empty [simp]: "ld_issued (fst (clearIssued st)) = []"
  by (simp add: clearIssued_def fold_delete_issued filter_empty_conv)

definition dead_at :: "int \<Rightarrow> ladder_shared \<Rightarrow> issued \<Rightarrow> bool" where
  "dead_at now sh r \<longleftrightarrow> is_expiresAt r \<le> now \<or> \<not> hasReservation (is_reservation r) sh"

lemma sweep_fold_lookup:
  "accounted others st \<Longrightarrow> set es \<subseteq> set (ld_issued (fst st)) \<Longrightarrow> distinct (map fst es) \<Longrightarrow>
   map_of (ld_issued (fst (foldl (\<lambda>st (n, r). if is_expiresAt r \<le> now
       \<or> \<not> hasReservation (is_reservation r) (snd st) then deleteIssued n st else st) st es))) n
   = (case map_of (ld_issued (fst st)) n of
        None \<Rightarrow> None
      | Some r \<Rightarrow> if (n, r) \<in> set es \<and> dead_at now (snd st) r then None else Some r)"
proof (induction es arbitrary: st)
  case Nil
  then show ?case by (simp split: option.split)
next
  case (Cons e es)
  obtain k r where e: "e = (k, r)" by fastforce
  obtain ld sh where st: "st = (ld, sh)" by (rule prod.exhaust)
  note d = accountedD [OF Cons.prems(1) [unfolded st]]
  have mem: "(k, r) \<in> set (ld_issued ld)" using Cons.prems(2) e st by auto
  then have lk: "map_of (ld_issued ld) k = Some r" using d(1) by (simp add: map_of_eq_Some_iff)
  show ?case
  proof (cases "dead_at now sh r")
    case False
    with Cons.IH [OF Cons.prems(1)] Cons.prems(2,3) e st lk show ?thesis
      by (auto simp: dead_at_def split: option.splits)
  next
    case True
    note del = deleteIssued_some(1) [OF Cons.prems(1) [unfolded st] lk]
    have acc: "accounted others (deleteIssued k st)" by (rule accounted_deleteIssued [OF Cons.prems(1)])
    have sub: "set es \<subseteq> set (ld_issued (fst (deleteIssued k st)))"
      using Cons.prems(2,3) e st by (force simp: deleteIssued_issued)
    have same: "dead_at now (snd (deleteIssued k st)) r' = dead_at now sh r'"
      if "(n', r') \<in> set (ld_issued ld)" "n' \<noteq> k" for n' r'
    proof -
      have "is_reservation r' \<noteq> is_reservation r"
        using distinct_map_other [OF d(2) that(1) mem] that(2) by auto
      then show ?thesis
        by (simp add: dead_at_def hasReservation_def st del map_of_filter_in delete_eq_filter [symmetric]
            AList.delete_conv')
    qed
    have "map_of (ld_issued (fst (deleteIssued k st))) n = (if n = k then None else map_of (ld_issued ld) n)"
      by (simp add: deleteIssued_issued st delete_eq_filter [symmetric] AList.delete_conv')
    with Cons.IH [OF acc sub] Cons.prems(3) e st True lk same [OF map_of_SomeD] show ?thesis
      by (auto simp: dead_at_def split: option.splits)
  qed
qed

lemma sweep_lookup:
  assumes "accounted others (ld, sh)"
  shows "map_of (ld_issued (fst (sweepIssued now (ld, sh)))) n
    = (case map_of (ld_issued ld) n of
         None \<Rightarrow> None | Some r \<Rightarrow> if dead_at now sh r then None else Some r)"
  unfolding sweepIssued_def
  using sweep_fold_lookup [OF assms, of "ld_issued ld" now n] accountedD(1) [OF assms]
  by (auto split: option.splits dest: map_of_SomeD)

fun answer_right :: "int \<Rightarrow> issued \<Rightarrow> ladder_answer \<Rightarrow> bool" where
  "answer_right now r (DimSumAnswer _ choice) \<longleftrightarrow> is_dimsumAnswer r = Some choice"
| "answer_right now r (MathAnswer _ answers) \<longleftrightarrow>
     map jsint (case is_mathAnswers r of None \<Rightarrow> [] | Some xs \<Rightarrow> xs)
       = (case answers of None \<Rightarrow> [] | Some xs \<Rightarrow> xs)"
| "answer_right now r (WhackAnswer _ hits) \<longleftrightarrow>
     now \<ge> is_issuedAt r + 15000
     \<and> count_hits (case is_gridSize r of None \<Rightarrow> 3 | Some g \<Rightarrow> g)
         (case is_moles r of None \<Rightarrow> [] | Some ms \<Rightarrow> ms) {} (case hits of None \<Rightarrow> [] | Some hs \<Rightarrow> hs) \<ge> 8"

lemma math_right_eq: "math_right xs gs \<longleftrightarrow> map jsint xs = gs"
proof -
  have "list_all2 (\<lambda>v g. g = jsint v) xs gs \<longleftrightarrow> map jsint xs = gs"
    by (induction xs arbitrary: gs) (auto simp: list_all2_Cons1)
  then show ?thesis by (auto simp: math_right_def)
qed

lemma clearLadder_cleared:
  "v_cleared (fst (clearLadder now msg st)) \<longleftrightarrow> length (recent now (sh_clears (snd st))) < LADDER_BUDGET"
  by (auto simp: clearLadder_def tryRecord_def budget_left_def recent_def over_def Let_def split: prod.split)

lemma grade_cleared:
  assumes "is_rung r = an_kind a"
  shows "v_cleared (fst (grade now r a st)) \<longleftrightarrow>
    answer_right now r a \<and> length (recent now (sh_clears (snd st))) < LADDER_BUDGET"
proof (cases a)
  case (DimSumAnswer n choice)
  then show ?thesis
    by (cases "Some choice = is_dimsumAnswer r") (auto simp: clearLadder_cleared verdict_def Let_def)
next
  case (MathAnswer n answers)
  then show ?thesis by (simp add: math_right_eq clearLadder_cleared verdict_def Let_def)
next
  case (WhackAnswer n hits)
  then show ?thesis
    by (simp add: clearLadder_cleared verdict_def over_def Let_def WHACK_DURATION_MS_def
        WHACK_REQUIRED_HITS_def not_less add.commute)
qed

lemma grade_spent:
  assumes "ld_issued (fst st) = []"
  shows "ld_issued (fst (snd (grade now r a st))) = []"
proof -
  obtain v st1 where g: "grade now r a st = (v, st1)" by (rule prod.exhaust)
  have ex: "ld_issued (fst (exhaust s)) = []" for s by (simp add: exhaust_def)
  moreover have "ld_issued (fst (resetLadder s)) = []" for s
    using clearIssued_empty [of s] by (cases "clearIssued s") (simp add: resetLadder_def del: clearIssued_empty)
  ultimately have "ld_issued (fst (snd (clearLadder now msg st))) = []" for msg
    by (simp add: clearLadder_def split: prod.split)
  note clear = this
  from grade_shape [OF g] show ?thesis
  proof
    assume "\<exists>msg. clearLadder now msg st = (v, st1)"
    then obtain msg where "clearLadder now msg st = (v, st1)" ..
    with clear [of msg] g show ?thesis by simp
  qed (use g assms ex [of st] in auto)
qed

text \<open>
  C27. What clears a wait. At any point of any run, an answer clears the wait of its peer exactly when
  the climb is not over, the challenge it names is still held, has not expired and has not lost its
  reservation, the answer is of the challenge's kind and right (for the moles: not before the round has
  lasted its 15 seconds), and the account has a clear left in the hour. An answer to a live challenge
  spends every challenge of the peer, right or wrong.
\<close>

theorem verify_clears_exactly:
  assumes "ladder_run evs ([], world_start) = (cleared_at, w)"
  shows "(v_cleared (fst (verify now school a (w_peers w p, w_shared w))) \<longleftrightarrow>
      \<not> ld_exhausted (w_peers w p)
      \<and> (\<exists>r. map_of (ld_issued (w_peers w p)) (an_nonce a) = Some r \<and> now < is_expiresAt r
           \<and> hasReservation (is_reservation r) (w_shared w) \<and> is_rung r = an_kind a \<and> answer_right now r a)
      \<and> length (recent now (sh_clears (w_shared w))) < LADDER_BUDGET)
    \<and> (\<forall>r. map_of (ld_issued (w_peers w p)) (an_nonce a) = Some r \<and> now < is_expiresAt r
         \<and> hasReservation (is_reservation r) (w_shared w) \<longrightarrow>
         ld_issued (fst (snd (verify now school a (w_peers w p, w_shared w)))) = [])"
proof -
  have "world_accounted world_start"
    by (simp add: world_accounted_def world_start_def shared_start_def ladder_start_def accounted_def tokens_def)
  from ladder_run_accounted [OF this assms]
  have acc: "accounted (\<Union>q \<in> - {p}. tokens (w_peers w q)) (w_peers w p, w_shared w)"
    by (simp add: world_accounted_def)
  let ?st = "(w_peers w p, w_shared w)"
  obtain v st1 where v: "verify now school a ?st = (v, st1)" by (rule prod.exhaust)
  note lk = sweep_lookup [OF acc, of now "an_nonce a"]
  show ?thesis
    using v
  proof (cases rule: verify_cases)
    case climb_over
    with v show ?thesis by (simp add: over_def)
  next
    case gone
    with v lk show ?thesis by (auto simp: verdict_def dead_at_def split: option.splits if_splits)
  next
    case (mismatch r)
    with v lk show ?thesis by (auto simp: verdict_def dead_at_def split: option.splits if_splits)
  next
    case (graded r)
    from graded(4) lk have live: "map_of (ld_issued (w_peers w p)) (an_nonce a) = Some r" "now < is_expiresAt r"
      "hasReservation (is_reservation r) (w_shared w)"
      by (auto simp: dead_at_def split: option.splits if_splits)
    from grade_cleared [OF graded(3), of now "clearIssued (sweepIssued now ?st)"] graded(1)
    have "v_cleared v \<longleftrightarrow> answer_right now r a \<and> length (recent now (sh_clears (w_shared w))) < LADDER_BUDGET"
      by simp
    moreover have "ld_issued (fst st1) = []"
      using grade_spent [of "clearIssued (sweepIssued now ?st)" now r a] graded(1) by simp
    ultimately show ?thesis using v live graded(2,3) by auto
  qed
qed

theorem verify_clears_exactly_witness:
  "\<not> v_cleared (fst (verify 5 False (DimSumAnswer ''x'' ''Egg tart'')
       (w_peers (snd (ladder_run [] ([], world_start))) 0, w_shared (snd (ladder_run [] ([], world_start))))))"
  using verify_clears_exactly [of "[]" "[]" world_start 5 False "DimSumAnswer ''x'' ''Egg tart''" 0]
  by (simp add: world_start_def ladder_start_def)

section \<open>Fair rounds\<close>

lemma roll_bound: "0 < m \<Longrightarrow> run_state (roll m) dice = (x, dice') \<Longrightarrow> x < m"
  by (auto simp: roll_def split: list.splits)

lemma without_props:
  assumes "i < length xs"
  shows "mset xs = add_mset (xs ! i) (mset (without i xs))" "length xs = Suc (length (without i xs))"
proof -
  have "xs = take i xs @ xs ! i # drop (Suc i) xs" using assms by (rule id_take_nth_drop)
  then have "mset xs = mset (take i xs @ xs ! i # drop (Suc i) xs)" by simp
  then show "mset xs = add_mset (xs ! i) (mset (without i xs))" by (simp add: without_def)
  show "length xs = Suc (length (without i xs))" using assms by (simp add: without_def)
qed

lemma drawDistractors_props:
  "run_state (drawDistractors n pool) dice = (ds, dice') \<Longrightarrow>
   length ds = min n (length pool) \<and> mset ds \<subseteq># image_mset d_en (mset pool)"
proof (induction n arbitrary: pool dice ds dice')
  case (Suc n)
  show ?case
  proof (cases "pool = []")
    case True
    with Suc.prems show ?thesis by simp
  next
    case False
    obtain i d1 where i: "run_state (roll (length pool)) dice = (i, d1)" by (rule prod.exhaust)
    obtain rest d2 where r: "run_state (drawDistractors n (without i pool)) d1 = (rest, d2)" by (rule prod.exhaust)
    have lt: "i < length pool" using roll_bound [OF _ i] False by simp
    from Suc.prems False i r have "ds = d_en (pool ! i) # rest" by simp
    with Suc.IH [OF r] without_props [OF lt] False show ?thesis by (simp add: Suc_le_length_iff)
  qed
qed simp

lemma mset_swap_at: "i < length xs \<Longrightarrow> j < length xs \<Longrightarrow> mset (swap_at i j xs) = mset xs"
  by (simp add: swap_at_def mset_swap)

lemma shuffleFrom_mset:
  "run_state (shuffleFrom i xs) dice = (ys, dice') \<Longrightarrow> i < length xs \<or> i = 0 \<Longrightarrow> mset ys = mset xs"
proof (induction i arbitrary: xs dice)
  case (Suc i)
  obtain j d1 where j: "run_state (roll (Suc i + 1)) dice = (j, d1)" by (rule prod.exhaust)
  have "j < Suc i + 1" by (rule roll_bound [OF _ j]) simp
  with Suc.prems(2) have lt: "j < length xs" "Suc i < length xs" by auto
  from Suc.prems(1) j have "run_state (shuffleFrom i (swap_at (Suc i) j xs)) d1 = (ys, dice')" by simp
  from Suc.IH [OF this] lt have "mset ys = mset (swap_at (Suc i) j xs)" by (simp add: swap_at_def)
  with mset_swap_at [OF lt(2,1)] show ?case by simp
qed simp

text \<open>
  C32. A dim-sum question is fair whatever the dice: it has four choices, all different, all names of
  dishes, and the right one is among them exactly once.
\<close>

theorem dimsum_round_fair:
  assumes "run_state dimsumRound dice = ((pick, choices), dice')"
  shows "pick \<in> set DIM_SUM_NAMES \<and> length choices = 4 \<and> distinct choices
    \<and> d_en pick \<in> set choices \<and> set choices \<subseteq> d_en ` set DIM_SUM_NAMES"
proof -
  obtain p d1 where p: "run_state (roll (length DIM_SUM_NAMES)) dice = (p, d1)" by (rule prod.exhaust)
  have lt: "p < length DIM_SUM_NAMES" by (rule roll_bound [OF _ p]) (simp add: DIM_SUM_NAMES_def)
  let ?pick = "DIM_SUM_NAMES ! p"
  let ?pool = "filter (\<lambda>d. d_id d \<noteq> d_id ?pick) DIM_SUM_NAMES"
  obtain ds d2 where ds: "run_state (drawDistractors 3 ?pool) d1 = (ds, d2)" by (rule prod.exhaust)
  obtain cs d3 where cs: "run_state (shuffle (d_en ?pick # ds)) d2 = (cs, d3)" by (rule prod.exhaust)
  from assms p ds cs have r: "pick = ?pick" "choices = cs" by (auto simp: dimsumRound_def Let_def)
  have mem: "?pick \<in> set DIM_SUM_NAMES" using lt by simp
  have names: "distinct (map d_en DIM_SUM_NAMES)" "distinct (map d_id DIM_SUM_NAMES)"
    "length DIM_SUM_NAMES = 9" by (simp_all add: DIM_SUM_NAMES_def)
  have pool_en: "d_en ?pick \<notin> d_en ` set ?pool"
  proof
    assume "d_en ?pick \<in> d_en ` set ?pool"
    then obtain x where x: "x \<in> set DIM_SUM_NAMES" "d_id x \<noteq> d_id ?pick" "d_en x = d_en ?pick" by auto
    from distinct_map_other [OF names(1) x(1) mem] x(2,3) show False by simp
  qed
  have "length (filter (\<lambda>d. d_id d \<noteq> i) xs) + 1 \<ge> length xs" if "distinct (map d_id xs)" for i and xs :: "dim_sum_name list"
    using that
  proof (induction xs)
    case (Cons x xs)
    then have "d_id x = i \<Longrightarrow> filter (\<lambda>d. d_id d \<noteq> i) xs = xs"
      by (auto simp: filter_id_conv image_iff)
    with Cons show ?case by auto
  qed simp
  from this [OF names(2)] names(3) have "length ?pool \<ge> 8" by simp
  with drawDistractors_props [OF ds] have d: "length ds = 3" "mset ds \<subseteq># image_mset d_en (mset ?pool)" by auto
  have "distinct (map d_en ?pool)" using names(1) by (rule distinct_map_filter)
  then have once: "count (mset (map d_en ?pool)) a \<le> 1" for a
    by (simp only: distinct_count_atmost_1 split: if_splits) simp
  have "count (mset ds) a = (if a \<in> set ds then 1 else 0)" for a
  proof -
    have "count (mset ds) a \<le> 1"
      using mset_subset_eq_count [OF d(2), of a] once [of a] by simp
    moreover have "a \<in> set ds \<longleftrightarrow> 0 < count (mset ds) a" by simp
    ultimately show ?thesis by (cases "count (mset ds) a") (auto simp: count_eq_zero_iff)
  qed
  then have "distinct ds" by (simp add: distinct_count_atmost_1)
  have sub: "set ds \<subseteq> d_en ` set ?pool" using set_mset_mono [OF d(2)] by simp
  have m: "mset cs = mset (d_en ?pick # ds)"
    using cs unfolding shuffle_def by (rule shuffleFrom_mset) (simp add: d(1))
  have "distinct (d_en ?pick # ds)" using \<open>distinct ds\<close> sub pool_en by auto
  then have "distinct cs" using m by (metis mset_eq_imp_distinct_iff)
  moreover have "set cs = insert (d_en ?pick) (set ds)" "length cs = 4"
    using mset_eq_setD [OF m] mset_eq_length [OF m] d(1) by simp_all
  ultimately show ?thesis using mem sub r by auto
qed

theorem dimsum_round_fair_witness:
  "distinct (snd (fst (run_state dimsumRound [4, 7, 2, 2, 9, 1])))"
  using dimsum_round_fair [of "[4, 7, 2, 2, 9, 1]" "fst (fst (run_state dimsumRound [4, 7, 2, 2, 9, 1]))"
      "snd (fst (run_state dimsumRound [4, 7, 2, 2, 9, 1]))" "snd (run_state dimsumRound [4, 7, 2, 2, 9, 1])"]
  by simp

end
