(* ===== verification/Message_Decision.thy ===== *)
theory Message_Decision
  imports Prelude
begin

text \<open>
  May a message be typed into another agent's pane? (src/core/agents/agent-message-decide.ts.) The
  outcomes of a delivery, which of them are worth a retry, and the decision over the facts that the
  caller collected, in the order in which the source promises to make it.

  \<open>typeof x === 'number'\<close> is an optional number; numbers may be any JavaScript number. Optional flags
  keep their three values.
\<close>

section \<open>Outcomes\<close>

datatype not_permitted_reason =
    SwitchOff | CrossProject | SelfSend | UnsupportedEdition | UnaddressableNodeId
  | AmbiguousTargetNodeId | UnprovenTargetOwner

datatype receipt_signal = NewTurn | SignalWorking

datatype trace_kind = BoardLog | MemoryRing

datatype message_outcome =
    Delivered string trace_kind receipt_signal
  | Queued string nat int
  | Stalled string trace_kind int
  | DeliveredToReplacedTarget string trace_kind string string
  | Expired string int
  | RateLimited jsnum
  | QueueFull nat
  | TargetBusy string
  | TargetNotIdleUnknown string
  | TargetStatusUnverified string
  | TargetStatusStale
  | TargetHookScriptStale string "jsnum option"
  | TargetPaneUnreadable
  | TargetNotAgentPane string
  | TargetNotPasteAware
  | TargetGone
  | NotPermitted not_permitted_reason

datatype outcome_kind =
    K_delivered | K_queued | K_stalled | K_deliveredToReplacedTarget | K_expired | K_rateLimited
  | K_queueFull | K_targetBusy | K_targetNotIdleUnknown | K_targetStatusUnverified
  | K_targetStatusStale | K_targetHookScriptStale | K_targetPaneUnreadable | K_targetNotAgentPane
  | K_targetNotPasteAware | K_targetGone | K_notPermitted

fun kind_of :: "message_outcome \<Rightarrow> outcome_kind" where
  "kind_of (Delivered _ _ _) = K_delivered"
| "kind_of (Queued _ _ _) = K_queued"
| "kind_of (Stalled _ _ _) = K_stalled"
| "kind_of (DeliveredToReplacedTarget _ _ _ _) = K_deliveredToReplacedTarget"
| "kind_of (Expired _ _) = K_expired"
| "kind_of (RateLimited _) = K_rateLimited"
| "kind_of (QueueFull _) = K_queueFull"
| "kind_of (TargetBusy _) = K_targetBusy"
| "kind_of (TargetNotIdleUnknown _) = K_targetNotIdleUnknown"
| "kind_of (TargetStatusUnverified _) = K_targetStatusUnverified"
| "kind_of TargetStatusStale = K_targetStatusStale"
| "kind_of (TargetHookScriptStale _ _) = K_targetHookScriptStale"
| "kind_of TargetPaneUnreadable = K_targetPaneUnreadable"
| "kind_of (TargetNotAgentPane _) = K_targetNotAgentPane"
| "kind_of TargetNotPasteAware = K_targetNotPasteAware"
| "kind_of TargetGone = K_targetGone"
| "kind_of (NotPermitted _) = K_notPermitted"

fun RETRYABLE :: "outcome_kind \<Rightarrow> bool" where
  "RETRYABLE K_delivered = False"
| "RETRYABLE K_queued = False"
| "RETRYABLE K_stalled = False"
| "RETRYABLE K_deliveredToReplacedTarget = False"
| "RETRYABLE K_expired = True"
| "RETRYABLE K_rateLimited = True"
| "RETRYABLE K_queueFull = True"
| "RETRYABLE K_targetBusy = True"
| "RETRYABLE K_targetNotIdleUnknown = True"
| "RETRYABLE K_targetStatusUnverified = False"
| "RETRYABLE K_targetStatusStale = True"
| "RETRYABLE K_targetHookScriptStale = False"
| "RETRYABLE K_targetPaneUnreadable = True"
| "RETRYABLE K_targetNotAgentPane = False"
| "RETRYABLE K_targetNotPasteAware = False"
| "RETRYABLE K_targetGone = False"
| "RETRYABLE K_notPermitted = False"

definition DECISION_ORDER :: "outcome_kind list" where
  "DECISION_ORDER =
     [K_notPermitted, K_rateLimited, K_targetGone, K_targetHookScriptStale, K_targetStatusUnverified,
      K_targetStatusStale, K_targetNotIdleUnknown, K_targetBusy, K_targetPaneUnreadable,
      K_targetNotAgentPane, K_targetNotPasteAware]"

definition FIRST_PAID_DECISION :: outcome_kind where
  "FIRST_PAID_DECISION = K_targetNotAgentPane"

section \<open>Facts\<close>

datatype agent_state = Working | Waiting | Blocked | Done

fun state_name :: "agent_state \<Rightarrow> string" where
  "state_name Working = ''working''"
| "state_name Waiting = ''waiting''"
| "state_name Blocked = ''blocked''"
| "state_name Done = ''done''"

text \<open>The part of a status mirror entry that the decision reads.\<close>

record mirror_entry =
  me_state :: "agent_state option"
  me_restored :: "bool option"
  me_idleInferred :: "bool option"
  me_stateVerified :: "bool option"
  me_clientRevision :: "jsnum option"

datatype pane_verdict = AgentPane | NotAgentPane | PaneUnknown

record delivery_facts =
  df_sourceNodeId :: "string option"
  df_targetNodeId :: "string option"
  df_notPermitted :: "not_permitted_reason option"
  df_retryAfterMs :: "jsnum option"
  df_targetLive :: bool
  df_pane :: pane_verdict
  df_paneObserved :: "string option"
  df_target :: "mirror_entry option"
  df_tokenFilePresent :: bool
  df_targetIsRemote :: "bool option"
  df_pasteAware :: "bool option"

definition MIN_TOKEN_AWARE_REVISION :: nat where
  "MIN_TOKEN_AWARE_REVISION = 3"

definition hookScriptStaleNote :: "bool option \<Rightarrow> string" where
  "hookScriptStaleNote targetIsRemote =
     (if targetIsRemote = Some True
      then ''the target runs a hook script that predates per-node identity; reconnect the SSH project '' @
           ''from the desktop that owns it (RemoteHooks.setup() is the only writer of a remote script)''
      else ''the target runs a hook script that predates per-node identity; restart the nodeterm app on '' @
           ''that host (the boot install rewrites the script unconditionally)'')"

definition NO_TOKEN_FILE_NOTE :: string where
  "NO_TOKEN_FILE_NOTE =
     ''the target has no per-node identity on this host: relaunch the node from the desktop, or open '' @
     ''its project so its token is materialised, then try again''"

section \<open>The gates\<close>

definition idleRefusal :: "mirror_entry option \<Rightarrow> message_outcome option" where
  "idleRefusal target =
     (case target of
        None \<Rightarrow> Some (TargetNotIdleUnknown ''no status has ever been posted for this node'')
      | Some e \<Rightarrow>
          if me_restored e = Some True
          then Some (TargetNotIdleUnknown
                 ''the last known status was restored from disk at startup, not observed this run'')
          else
            case me_state e of
              None \<Rightarrow> Some (TargetNotIdleUnknown ''the node is between sessions (no current state)'')
            | Some s \<Rightarrow>
                if s \<noteq> Done then Some (TargetBusy (state_name s))
                else if me_idleInferred e = Some True
                then Some (TargetNotIdleUnknown
                       (''the last `done` was inferred from the CLI going idle at its prompt, which a node '' @
                        ''waiting on an approval also does''))
                else None)"

definition current_script :: "jsnum option \<Rightarrow> bool" where
  "current_script revision =
     (case revision of
        None \<Rightarrow> False
      | Some r \<Rightarrow> \<not> js_less r (jsnat MIN_TOKEN_AWARE_REVISION) \<and> r \<noteq> NaN)"

definition identityRefusal :: "delivery_facts \<Rightarrow> message_outcome option" where
  "identityRefusal f =
     (if (case df_target f of None \<Rightarrow> False | Some e \<Rightarrow> me_stateVerified e = Some True) then None
      else
        let stale = (case df_target f of
               None \<Rightarrow> None
             | Some e \<Rightarrow> if me_restored e \<noteq> Some True \<and> \<not> current_script (me_clientRevision e)
                         then Some (TargetHookScriptStale (hookScriptStaleNote (df_targetIsRemote f))
                                      (me_clientRevision e))
                         else None)
        in case stale of
             Some r \<Rightarrow> Some r
           | None \<Rightarrow> if \<not> df_tokenFilePresent f then Some (TargetStatusUnverified NO_TOKEN_FILE_NOTE)
                     else Some TargetStatusStale)"

definition self_send :: "delivery_facts \<Rightarrow> bool" where
  "self_send f \<longleftrightarrow>
     (case (df_sourceNodeId f, df_targetNodeId f) of
        (Some s, Some t) \<Rightarrow> s \<noteq> [] \<and> t \<noteq> [] \<and> s = t
      | _ \<Rightarrow> False)"

definition decidePreProbe :: "delivery_facts \<Rightarrow> message_outcome option" where
  "decidePreProbe f =
     (case df_notPermitted f of
        Some reason \<Rightarrow> Some (NotPermitted reason)
      | None \<Rightarrow>
          if self_send f then Some (NotPermitted SelfSend)
          else if (case df_retryAfterMs f of None \<Rightarrow> False | Some ms \<Rightarrow> js_less (Fin 0) ms)
          then Some (RateLimited (the (df_retryAfterMs f)))
          else if \<not> df_targetLive f then Some TargetGone
          else
            case identityRefusal f of
              Some r \<Rightarrow> Some r
            | None \<Rightarrow> idleRefusal (df_target f))"

text \<open>\<open>None\<close> is the one answer that is not a refusal, \<open>proceed\<close>.\<close>

definition decideDelivery :: "delivery_facts \<Rightarrow> message_outcome option" where
  "decideDelivery f =
     (case decidePreProbe f of
        Some r \<Rightarrow> Some r
      | None \<Rightarrow>
          if df_pane f = PaneUnknown then Some TargetPaneUnreadable
          else if df_pane f \<noteq> AgentPane
          then Some (TargetNotAgentPane
                 (case df_paneObserved f of None \<Rightarrow> ''not-agent'' | Some w \<Rightarrow> w))
          else if df_pasteAware f = Some False then Some TargetNotPasteAware
          else None)"

section \<open>The promised order\<close>

text \<open>
  The reference: for every kind, alone, the condition that refuses, without regard to the others.
\<close>

definition unverified :: "delivery_facts \<Rightarrow> bool" where
  "unverified f \<longleftrightarrow> Option.bind (df_target f) me_stateVerified \<noteq> Some True"

fun blocked_by :: "outcome_kind \<Rightarrow> delivery_facts \<Rightarrow> bool" where
  "blocked_by K_notPermitted f = (df_notPermitted f \<noteq> None \<or> self_send f)"
| "blocked_by K_rateLimited f = (\<exists>ms \<in> set_option (df_retryAfterMs f). js_less (Fin 0) ms)"
| "blocked_by K_targetGone f = (\<not> df_targetLive f)"
| "blocked_by K_targetHookScriptStale f =
     (unverified f \<and> (\<exists>e \<in> set_option (df_target f). me_restored e \<noteq> Some True
        \<and> \<not> current_script (me_clientRevision e)))"
| "blocked_by K_targetStatusUnverified f = (unverified f \<and> \<not> df_tokenFilePresent f)"
| "blocked_by K_targetStatusStale f = unverified f"
| "blocked_by K_targetNotIdleUnknown f =
     (case df_target f of
        None \<Rightarrow> True
      | Some e \<Rightarrow> me_restored e = Some True \<or> me_state e = None
                  \<or> me_state e = Some Done \<and> me_idleInferred e = Some True)"
| "blocked_by K_targetBusy f =
     (\<exists>e \<in> set_option (df_target f). me_state e \<in> {Some Working, Some Waiting, Some Blocked})"
| "blocked_by K_targetPaneUnreadable f = (df_pane f = PaneUnknown)"
| "blocked_by K_targetNotAgentPane f = (df_pane f \<noteq> AgentPane)"
| "blocked_by K_targetNotPasteAware f = (df_pasteAware f = Some False)"
| "blocked_by _ f = False"

lemmas decision_simps = decideDelivery_def decidePreProbe_def identityRefusal_def idleRefusal_def
  DECISION_ORDER_def unverified_def

lemma decide_kinds:
  "map_option kind_of (decideDelivery f) = List.find (\<lambda>k. blocked_by k f) DECISION_ORDER"
proof (cases "blocked_by K_notPermitted f \<or> blocked_by K_rateLimited f \<or> blocked_by K_targetGone f")
  case True
  show ?thesis
  proof (cases "blocked_by K_notPermitted f")
    case True
    then show ?thesis
      by (cases "df_notPermitted f") (simp_all add: decideDelivery_def decidePreProbe_def DECISION_ORDER_def)
  next
    case np: False
    then have "decidePreProbe f = (if blocked_by K_rateLimited f then Some (RateLimited (the (df_retryAfterMs f)))
        else if \<not> df_targetLive f then Some TargetGone
        else case identityRefusal f of Some r \<Rightarrow> Some r | None \<Rightarrow> idleRefusal (df_target f))"
      by (cases "df_retryAfterMs f") (simp_all add: decidePreProbe_def)
    with True np show ?thesis
      by (cases "blocked_by K_rateLimited f") (simp_all add: decideDelivery_def DECISION_ORDER_def del: blocked_by.simps(1,2))
  qed
next
  case False
  then have pre: "decidePreProbe f = (case identityRefusal f of Some r \<Rightarrow> Some r | None \<Rightarrow> idleRefusal (df_target f))"
    by (cases "df_retryAfterMs f") (simp_all add: decidePreProbe_def)
  have order: "List.find (\<lambda>k. blocked_by k f) DECISION_ORDER
      = List.find (\<lambda>k. blocked_by k f)
          [K_targetHookScriptStale, K_targetStatusUnverified, K_targetStatusStale, K_targetNotIdleUnknown,
           K_targetBusy, K_targetPaneUnreadable, K_targetNotAgentPane, K_targetNotPasteAware]"
    using False by (simp add: DECISION_ORDER_def del: blocked_by.simps)
  show ?thesis
  proof (cases "df_target f")
    case None
    then show ?thesis
      by (simp add: order decideDelivery_def pre identityRefusal_def unverified_def)
  next
    case (Some e)
    show ?thesis
    proof (cases "me_stateVerified e = Some True")
      case False
      with Some show ?thesis
        by (simp add: order decideDelivery_def pre identityRefusal_def unverified_def Let_def)
    next
      case True
      with Some have ident: "identityRefusal f = None" "\<not> unverified f"
        by (simp_all add: identityRefusal_def unverified_def)
      show ?thesis
      proof (cases "idleRefusal (df_target f)")
        case refused: (Some r)
        have "(if blocked_by K_targetNotIdleUnknown f then kind_of r = K_targetNotIdleUnknown
            else kind_of r = K_targetBusy \<and> blocked_by K_targetBusy f)"
          using refused Some
          by (cases "me_state e"; cases "me_restored e = Some True"; cases "me_idleInferred e = Some True")
            (auto simp: idleRefusal_def split: if_splits, (metis agent_state.exhaust)+)
        with refused ident show ?thesis
          by (cases "blocked_by K_targetNotIdleUnknown f")
            (simp_all add: order decideDelivery_def pre del: blocked_by.simps(7,8))
      next
        case None
        with Some have "\<not> blocked_by K_targetNotIdleUnknown f" "\<not> blocked_by K_targetBusy f"
          by (auto simp: idleRefusal_def split: if_splits option.splits)
        with None ident show ?thesis
          by (cases "df_pane f")
            (simp_all add: order decideDelivery_def pre del: blocked_by.simps(7,8))
      qed
    qed
  qed
qed

lemma decision_order_none:
  "decideDelivery f = None \<longleftrightarrow> \<not> (\<exists>k \<in> set DECISION_ORDER. blocked_by k f)"
proof -
  have "List.find P xs = None \<longleftrightarrow> \<not> (\<exists>k \<in> set xs. P k)" for P and xs :: "outcome_kind list"
    by (induction xs) auto
  then show ?thesis using decide_kinds [of f] by (metis option.map_disc_iff)
qed

text \<open>
  C29. The decision is its documented order. Whatever facts hold together, the refusal that is reported
  is the first kind of \<open>DECISION_ORDER\<close> whose own condition holds, each condition taken alone; a message
  is let through exactly when none holds.
\<close>

theorem decision_is_its_order:
  "map_option kind_of (decideDelivery f) = List.find (\<lambda>k. blocked_by k f) DECISION_ORDER
   \<and> (decideDelivery f = None \<longleftrightarrow> \<not> list_ex (\<lambda>k. blocked_by k f) DECISION_ORDER)"
  using decide_kinds [of f] decision_order_none [of f] by (simp add: list_ex_iff)

text \<open>
  C8. Nothing is typed on a guess. A message is let through only into a pane that was read as an agent's,
  of a live target other than the sender, whose last status is a verified \<open>done\<close> that was observed in
  this run and not inferred; and every refusal that comes before the pane is looked at is the same
  whatever the pane would have shown.
\<close>

theorem delivery_fails_closed:
  "(decideDelivery f = None \<longrightarrow>
      df_pane f = AgentPane \<and> df_targetLive f \<and> df_notPermitted f = None \<and> \<not> self_send f
      \<and> (\<exists>e. df_target f = Some e \<and> me_state e = Some Done \<and> me_stateVerified e = Some True
           \<and> me_restored e \<noteq> Some True \<and> me_idleInferred e \<noteq> Some True))
   \<and> (decidePreProbe f \<noteq> None \<longrightarrow>
        decideDelivery (f\<lparr>df_pane := p, df_paneObserved := w, df_pasteAware := a\<rparr>) = decideDelivery f)"
proof (intro conjI impI)
  assume "decideDelivery f = None"
  then have all: "\<not> blocked_by k f" if "k \<in> set DECISION_ORDER" for k
    using decision_order_none that by blast
  show "df_pane f = AgentPane" using all [of K_targetNotAgentPane] by (simp add: DECISION_ORDER_def)
  show "df_targetLive f" using all [of K_targetGone] by (simp add: DECISION_ORDER_def)
  show "df_notPermitted f = None" "\<not> self_send f"
    using all [of K_notPermitted] by (simp_all add: DECISION_ORDER_def)
  have "\<not> unverified f" using all [of K_targetStatusStale] by (simp add: DECISION_ORDER_def)
  then obtain e where e: "df_target f = Some e" "me_stateVerified e = Some True"
    by (cases "df_target f") (auto simp: unverified_def)
  with all [of K_targetNotIdleUnknown] all [of K_targetBusy]
  show "\<exists>e. df_target f = Some e \<and> me_state e = Some Done \<and> me_stateVerified e = Some True
      \<and> me_restored e \<noteq> Some True \<and> me_idleInferred e \<noteq> Some True"
    by (cases "me_state e") (auto simp: DECISION_ORDER_def intro: agent_state.exhaust)
next
  assume pre: "decidePreProbe f \<noteq> None"
  let ?f = "f\<lparr>df_pane := p, df_paneObserved := w, df_pasteAware := a\<rparr>"
  have free: "df_notPermitted ?f = df_notPermitted f" "df_retryAfterMs ?f = df_retryAfterMs f"
    "df_targetLive ?f = df_targetLive f" "df_target ?f = df_target f"
    "df_sourceNodeId ?f = df_sourceNodeId f" "df_targetNodeId ?f = df_targetNodeId f"
    "df_tokenFilePresent ?f = df_tokenFilePresent f" "df_targetIsRemote ?f = df_targetIsRemote f"
    by simp_all
  then have "self_send ?f = self_send f" "identityRefusal ?f = identityRefusal f"
    by (simp_all only: self_send_def identityRefusal_def)
  with free have "decidePreProbe ?f = decidePreProbe f" by (simp only: decidePreProbe_def)
  with pre show "decideDelivery (f\<lparr>df_pane := p, df_paneObserved := w, df_pasteAware := a\<rparr>) = decideDelivery f"
    by (auto simp: decideDelivery_def split: option.split)
qed


definition ready_facts :: delivery_facts where
  "ready_facts =
     \<lparr>df_sourceNodeId = Some ''a'', df_targetNodeId = Some ''b'', df_notPermitted = None,
      df_retryAfterMs = None, df_targetLive = True, df_pane = AgentPane, df_paneObserved = None,
      df_target = Some \<lparr>me_state = Some Done, me_restored = None, me_idleInferred = None,
                        me_stateVerified = Some True, me_clientRevision = None\<rparr>,
      df_tokenFilePresent = True, df_targetIsRemote = None, df_pasteAware = None\<rparr>"

definition gone_facts :: delivery_facts where
  "gone_facts = ready_facts\<lparr>df_targetLive := False\<rparr>"

lemma ready_facts_decided: "decideDelivery ready_facts = None" "decidePreProbe gone_facts \<noteq> None"
  by code_simp+

theorem delivery_fails_closed_witness:
  "df_pane ready_facts = AgentPane \<and> df_targetLive ready_facts \<and>
   decideDelivery (gone_facts\<lparr>df_pane := NotAgentPane, df_paneObserved := Some ''zsh'', df_pasteAware := None\<rparr>)
     = decideDelivery gone_facts"
  using delivery_fails_closed [of ready_facts] ready_facts_decided
    delivery_fails_closed [where f = gone_facts and p = NotAgentPane and w = "Some ''zsh''" and a = None]
  by blast

end
