(* ===== verification/Delivery_Queue.thy ===== *)
theory Delivery_Queue
  imports Message_Decision "HOL-Library.Multiset"
begin

text \<open>
  The queue of messages for agents that are busy (src/core/agents/delivery-queue.ts): one bounded list
  per target, flushed when the target goes idle, every entry under a timer.

  The methods are asynchronous, so each is cut at its \<open>await\<close>: what runs before it and what runs after
  it are two operations, and any other operation may run between them. What a suspended method
  remembers is part of the state (\<open>dq_enqueuing\<close>, \<open>dq_flushing\<close>, \<open>dq_expiring\<close>). Arrays have identity in
  the source and the code depends on it, so the lists live in a heap of references and the map of
  queues holds references. What the queue tells the outside is the log.
\<close>

section \<open>State\<close>

definition DELIVERY_QUEUE_TTL_MS :: int where "DELIVERY_QUEUE_TTL_MS = 5 * 60000"
definition DELIVERY_QUEUE_CAPACITY :: nat where "DELIVERY_QUEUE_CAPACITY = 16"

record delivery_request =
  rq_sourceNodeId :: string
  rq_targetNodeId :: string
  rq_sourceTitle :: string
  rq_body :: string

record queue_entry =
  qe_id :: nat
  qe_req :: delivery_request
  qe_enqueuedAt :: int
  qe_ttlMs :: int
  qe_queuedTraceId :: string

datatype dq_event =
    TracedQueued queue_entry
  | WakeRequested string
  | FlushReported queue_entry message_outcome
  | ExpiryReported queue_entry int

record delivery_queue =
  dq_capacity :: nat
  dq_ttlMs :: int
  dq_heap :: "nat \<Rightarrow> queue_entry list"
  dq_nextRef :: nat
  dq_queues :: "string \<rightharpoonup> nat"
  dq_timers :: "string \<times> queue_entry \<rightharpoonup> int"
  dq_nextEntry :: nat
  dq_enqueuing :: "(delivery_request \<times> nat \<times> int \<times> bool) list"
  dq_flushing :: "(string \<times> queue_entry) list"
  dq_expiring :: "(queue_entry \<times> int) list"
  dq_log :: "dq_event list"

definition queue_start :: "nat \<Rightarrow> int \<Rightarrow> delivery_queue" where
  "queue_start capacity ttl =
     \<lparr>dq_capacity = capacity, dq_ttlMs = ttl, dq_heap = (\<lambda>_. []), dq_nextRef = 0,
      dq_queues = Map.empty, dq_timers = Map.empty, dq_nextEntry = 0, dq_enqueuing = [],
      dq_flushing = [], dq_expiring = [], dq_log = []\<rparr>"

definition REQUEUE_ON :: "outcome_kind \<Rightarrow> bool" where
  "REQUEUE_ON k \<longleftrightarrow> RETRYABLE k \<and> k \<noteq> K_queueFull \<and> k \<noteq> K_expired"

text \<open>The list of a target, empty when it has none.\<close>

definition queue_of :: "delivery_queue \<Rightarrow> string \<Rightarrow> queue_entry list" where
  "queue_of s n = (case dq_queues s n of None \<Rightarrow> [] | Some r \<Rightarrow> dq_heap s r)"

definition depth :: "delivery_queue \<Rightarrow> string \<Rightarrow> nat" where
  "depth s n = length (queue_of s n)"

section \<open>Operations\<close>

text \<open>\<open>this.queues.get(n) ?? []\<close>: the reference of a target's list, or that of a new one.\<close>

definition list_for :: "string \<Rightarrow> delivery_queue \<Rightarrow> nat \<times> delivery_queue" where
  "list_for n s =
     (case dq_queues s n of
        Some r \<Rightarrow> (r, s)
      | None \<Rightarrow> (dq_nextRef s, s\<lparr>dq_heap := (dq_heap s)(dq_nextRef s := []),
                                dq_nextRef := Suc (dq_nextRef s)\<rparr>))"

text \<open>\<open>enqueue\<close> up to its await; the outcome is there when the message is refused.\<close>

definition enqueueStart ::
  "delivery_request \<Rightarrow> bool \<Rightarrow> int \<Rightarrow> delivery_queue \<Rightarrow> message_outcome option \<times> delivery_queue" where
  "enqueueStart req hibernated now s =
     (let (r, s1) = list_for (rq_targetNodeId req) s in
      if length (dq_heap s1 r) \<ge> dq_capacity s1 then (Some (QueueFull (dq_capacity s1)), s1)
      else (None, s1\<lparr>dq_enqueuing := dq_enqueuing s1 @ [(req, r, now, hibernated)]\<rparr>))"

definition remove_at :: "nat \<Rightarrow> 'a list \<Rightarrow> 'a list" where
  "remove_at i xs = take i xs @ drop (Suc i) xs"

text \<open>\<open>enqueue\<close> after the trace was written.\<close>

definition enqueueFinish :: "nat \<Rightarrow> string \<Rightarrow> delivery_queue \<Rightarrow> message_outcome \<times> delivery_queue" where
  "enqueueFinish i traceId s =
     (let (req, r, now, hibernated) = dq_enqueuing s ! i;
          n = rq_targetNodeId req;
          e = \<lparr>qe_id = dq_nextEntry s, qe_req = req, qe_enqueuedAt = now, qe_ttlMs = dq_ttlMs s,
               qe_queuedTraceId = traceId\<rparr>;
          list = dq_heap s r @ [e]
      in (Queued traceId (length list) (dq_ttlMs s),
          s\<lparr>dq_enqueuing := remove_at i (dq_enqueuing s), dq_nextEntry := Suc (dq_nextEntry s),
            dq_timers := (dq_timers s)((n, e) \<mapsto> dq_ttlMs s), dq_heap := (dq_heap s)(r := list),
            dq_queues := (dq_queues s)(n \<mapsto> r),
            dq_log := dq_log s @ TracedQueued e # (if hibernated then [WakeRequested n] else [])\<rparr>))"

text \<open>One turn of the loop of \<open>onTargetIdle\<close>, up to its await.\<close>

definition flushNext :: "string \<Rightarrow> delivery_queue \<Rightarrow> delivery_queue" where
  "flushNext n s =
     (case dq_queues s n of
        None \<Rightarrow> s
      | Some r \<Rightarrow>
          (case dq_heap s r of
             [] \<Rightarrow> s
           | e # es \<Rightarrow> s\<lparr>dq_heap := (dq_heap s)(r := es), dq_timers := (dq_timers s)((n, e) := None),
                         dq_flushing := dq_flushing s @ [(n, e)]\<rparr>))"

definition requeueFront :: "string \<Rightarrow> queue_entry \<Rightarrow> int \<Rightarrow> delivery_queue \<Rightarrow> delivery_queue" where
  "requeueFront n e now s =
     (let remaining = max 0 (qe_ttlMs e - (now - qe_enqueuedAt e)); (r, s1) = list_for n s
      in s1\<lparr>dq_timers := (dq_timers s1)((n, e) \<mapsto> remaining),
            dq_heap := (dq_heap s1)(r := e # dq_heap s1 r), dq_queues := (dq_queues s1)(n \<mapsto> r)\<rparr>)"

text \<open>\<open>if (this.queues.get(n)?.length === 0) this.queues.delete(n)\<close>\<close>

definition dropEmpty :: "string \<Rightarrow> delivery_queue \<Rightarrow> delivery_queue" where
  "dropEmpty n s =
     (case dq_queues s n of
        None \<Rightarrow> s
      | Some r \<Rightarrow> if dq_heap s r = [] then s\<lparr>dq_queues := (dq_queues s)(n := None)\<rparr> else s)"

text \<open>\<open>onTargetIdle\<close> after a delivery has ended, up to the next await or its return.\<close>

definition flushReturn :: "nat \<Rightarrow> message_outcome \<Rightarrow> int \<Rightarrow> delivery_queue \<Rightarrow> delivery_queue" where
  "flushReturn i outcome now s =
     (let (n, e) = dq_flushing s ! i; s1 = s\<lparr>dq_flushing := remove_at i (dq_flushing s)\<rparr> in
      if REQUEUE_ON (kind_of outcome) then requeueFront n e now s1
      else let s2 = dropEmpty n s1
           in flushNext n (s2\<lparr>dq_log := dq_log s2 @ [FlushReported e outcome]\<rparr>))"

text \<open>\<open>expire\<close>, run by a timer, up to its await.\<close>

definition expireStart :: "string \<Rightarrow> queue_entry \<Rightarrow> int \<Rightarrow> delivery_queue \<Rightarrow> delivery_queue" where
  "expireStart n e now s =
     (case dq_queues s n of
        None \<Rightarrow> s
      | Some r \<Rightarrow>
          if e \<notin> set (dq_heap s r) then s
          else
            let s1 = dropEmpty n (s\<lparr>dq_heap := (dq_heap s)(r := remove1 e (dq_heap s r))\<rparr>)
            in s1\<lparr>dq_timers := (dq_timers s1)((n, e) := None),
                  dq_expiring := dq_expiring s1 @ [(e, now - qe_enqueuedAt e)]\<rparr>)"

definition expireFinish :: "nat \<Rightarrow> delivery_queue \<Rightarrow> delivery_queue" where
  "expireFinish i s =
     (let (e, queuedForMs) = dq_expiring s ! i
      in s\<lparr>dq_expiring := remove_at i (dq_expiring s), dq_log := dq_log s @ [ExpiryReported e queuedForMs]\<rparr>)"

definition resetForTests :: "delivery_queue \<Rightarrow> delivery_queue" where
  "resetForTests s =
     s\<lparr>dq_timers := (\<lambda>(n, e). if (\<exists>m \<in> dom (dq_queues s). e \<in> set (queue_of s m)) then None
                             else dq_timers s (n, e)),
       dq_queues := Map.empty\<rparr>"

section \<open>Interleavings\<close>

text \<open>
  The discipline: no operation makes a new list for a target while an enqueue for it waits for its
  trace. Nothing else is asked for, and nothing in the source ensures it.
\<close>

definition quiet :: "delivery_queue \<Rightarrow> string \<Rightarrow> bool" where
  "quiet s n \<longleftrightarrow> dq_queues s n \<noteq> None \<or> list_all (\<lambda>(req, _). rq_targetNodeId req \<noteq> n) (dq_enqueuing s)"

inductive dq_step :: "bool \<Rightarrow> delivery_queue \<Rightarrow> delivery_queue \<Rightarrow> bool" for discipline where
  start: "(discipline \<Longrightarrow> quiet s (rq_targetNodeId req)) \<Longrightarrow>
    dq_step discipline s (snd (enqueueStart req hibernated now s))"
| finish: "i < length (dq_enqueuing s) \<Longrightarrow> dq_step discipline s (snd (enqueueFinish i traceId s))"
| idle: "dq_step discipline s (flushNext n s)"
| return: "i < length (dq_flushing s) \<Longrightarrow>
    (discipline \<Longrightarrow> REQUEUE_ON (kind_of outcome) \<Longrightarrow> quiet s (fst (dq_flushing s ! i))) \<Longrightarrow>
    dq_step discipline s (flushReturn i outcome now s)"
| fire: "dq_timers s (n, e) \<noteq> None \<Longrightarrow>
    dq_step discipline s (expireStart n e now (s\<lparr>dq_timers := (dq_timers s)((n, e) := None)\<rparr>))"
| expired: "i < length (dq_expiring s) \<Longrightarrow> dq_step discipline s (expireFinish i s)"

definition accepted :: "delivery_queue \<Rightarrow> queue_entry set" where
  "accepted s = {e. TracedQueued e \<in> set (dq_log s)}"

definition target_of :: "queue_entry \<Rightarrow> string" where
  "target_of e = rq_targetNodeId (qe_req e)"

fun reported :: "queue_entry \<Rightarrow> dq_event \<Rightarrow> bool" where
  "reported e (FlushReported x _) = (x = e)"
| "reported e (ExpiryReported x _) = (x = e)"
| "reported e _ = False"

text \<open>In how many places an entry is: waiting, being delivered, being expired, reported.\<close>

definition places :: "delivery_queue \<Rightarrow> queue_entry \<Rightarrow> nat" where
  "places s e =
     count_list (queue_of s (target_of e)) e
     + count_list (map snd (dq_flushing s)) e
     + count_list (map fst (dq_expiring s)) e
     + length (filter (reported e) (dq_log s))"

section \<open>Lists and the references that hold them\<close>

text \<open>
  A target is bound to a reference by the map of queues or by an enqueue that waits. While bindings
  are one to one, writing through a reference changes one queue only.
\<close>

definition bound_to :: "delivery_queue \<Rightarrow> string \<Rightarrow> nat \<Rightarrow> bool" where
  "bound_to s n r \<longleftrightarrow>
     dq_queues s n = Some r \<or> (\<exists>p \<in> set (dq_enqueuing s). rq_targetNodeId (fst p) = n \<and> fst (snd p) = r)"

definition links_ok :: "delivery_queue \<Rightarrow> bool" where
  "links_ok s \<longleftrightarrow>
     (\<forall>n r m q. bound_to s n r \<longrightarrow> bound_to s m q \<longrightarrow> (n = m \<longleftrightarrow> r = q)) \<and>
     (\<forall>n r. bound_to s n r \<longrightarrow> r < dq_nextRef s \<and> (dq_queues s n = None \<longrightarrow> dq_heap s r = []))"

lemma links_okI:
  assumes "\<And>n r m q. bound_to s n r \<Longrightarrow> bound_to s m q \<Longrightarrow> n = m \<longleftrightarrow> r = q"
    and "\<And>n r. bound_to s n r \<Longrightarrow> r < dq_nextRef s"
    and "\<And>n r. bound_to s n r \<Longrightarrow> dq_queues s n = None \<Longrightarrow> dq_heap s r = []"
  shows "links_ok s"
  using assms unfolding links_ok_def by blast

lemma links_ok_inj: "links_ok s \<Longrightarrow> bound_to s n r \<Longrightarrow> bound_to s m q \<Longrightarrow> n = m \<longleftrightarrow> r = q"
  and links_ok_lt: "links_ok s \<Longrightarrow> bound_to s n r \<Longrightarrow> r < dq_nextRef s"
  and links_ok_fresh: "links_ok s \<Longrightarrow> bound_to s n r \<Longrightarrow> dq_queues s n = None \<Longrightarrow> dq_heap s r = []"
  unfolding links_ok_def by blast+

lemma bound_to_queue [intro]: "dq_queues s n = Some r \<Longrightarrow> bound_to s n r"
  by (simp add: bound_to_def)

lemma links_start: "links_ok (queue_start c ttl)" and queue_of_start: "queue_of (queue_start c ttl) n = []"
  by (auto simp: links_ok_def bound_to_def queue_start_def queue_of_def)

lemma same_links:
  assumes "dq_queues t = dq_queues s" "dq_heap t = dq_heap s" "dq_nextRef t = dq_nextRef s"
    "dq_enqueuing t = dq_enqueuing s"
  shows "links_ok t = links_ok s" and "queue_of t = queue_of s"
proof -
  have "bound_to t = bound_to s" by (intro ext) (simp add: bound_to_def assms)
  then show "links_ok t = links_ok s" by (simp add: links_ok_def assms)
  show "queue_of t = queue_of s" by (intro ext) (simp add: queue_of_def assms split: option.split)
qed

text \<open>A step that only forgets bindings, or fills a list already bound, keeps them one to one.\<close>

lemma links_mono:
  assumes "links_ok s" "\<And>n r. bound_to t n r \<Longrightarrow> bound_to s n r" "dq_nextRef t = dq_nextRef s"
    "\<And>n r. bound_to t n r \<Longrightarrow> dq_queues t n = None \<Longrightarrow> dq_heap t r = []"
  shows "links_ok t"
  using assms by (intro links_okI) (auto dest: links_ok_inj links_ok_lt)

text \<open>Writing a list through a bound reference, with the reference entered in the map.\<close>

lemma put_list:
  assumes ok: "links_ok s" and b: "bound_to s n r"
    and t: "dq_queues t = (dq_queues s)(n \<mapsto> r)" "dq_heap t = (dq_heap s)(r := xs)"
      "dq_nextRef t = dq_nextRef s" "set (dq_enqueuing t) \<subseteq> set (dq_enqueuing s)"
  shows "links_ok t" and "queue_of t = (queue_of s)(n := xs)"
proof -
  have sub: "bound_to s m q" if "bound_to t m q" for m q
    using that b t by (cases "m = n") (auto simp: bound_to_def)
  show "links_ok t"
  proof (rule links_mono [OF ok sub t(3)])
    fix m q assume "bound_to t m q" and none: "dq_queues t m = None"
    then have "bound_to s m q" by (blast intro: sub)
    moreover from none t(1) have "m \<noteq> n" "dq_queues s m = None" by (auto split: if_splits)
    ultimately show "dq_heap t q = []"
      using links_ok_inj [OF ok b] links_ok_fresh [OF ok] t(2) by (metis fun_upd_other)
  qed
  show "queue_of t = (queue_of s)(n := xs)"
  proof
    fix m
    show "queue_of t m = ((queue_of s)(n := xs)) m"
      using links_ok_inj [OF ok b] t
      by (cases "m = n") (auto simp: queue_of_def split: option.splits)
  qed
qed

lemma put_list_same:
  assumes "links_ok s" "dq_queues s n = Some r"
    "dq_queues t = dq_queues s" "dq_heap t = (dq_heap s)(r := xs)"
    "dq_nextRef t = dq_nextRef s" "dq_enqueuing t = dq_enqueuing s"
  shows "links_ok t" and "queue_of t = (queue_of s)(n := xs)"
  using put_list [OF assms(1) bound_to_queue [OF assms(2)], of t xs] assms by (simp_all add: map_upd_triv)

lemma list_for_cases:
  assumes "list_for n s = (r, s1)"
  obtains (old) "dq_queues s n = Some r" "s1 = s"
    | (new) "dq_queues s n = None" "r = dq_nextRef s"
        "s1 = s\<lparr>dq_heap := (dq_heap s)(dq_nextRef s := []), dq_nextRef := Suc (dq_nextRef s)\<rparr>"
  using assms by (cases "dq_queues s n") (auto simp: list_for_def)

text \<open>Asking for the list of a target: with the discipline the reference may be bound to it.\<close>

lemma list_for_bound:
  assumes ok: "links_ok s" and quiet: "quiet s n" and l: "list_for n s = (r, s1)"
    and t: "dq_queues t = dq_queues s1" "dq_heap t = dq_heap s1" "dq_nextRef t = dq_nextRef s1"
      "set (dq_enqueuing t) = insert p (set (dq_enqueuing s1))" "rq_targetNodeId (fst p) = n" "fst (snd p) = r"
  shows "links_ok t" and "queue_of t = queue_of s" and "dq_heap t r = queue_of s n"
proof -
  from l have "links_ok t \<and> queue_of t = queue_of s \<and> dq_heap t r = queue_of s n"
  proof (cases rule: list_for_cases)
    case old
    then have "bound_to t m q \<longleftrightarrow> bound_to s m q" for m q
      using t by (auto simp: bound_to_def)
    then have "links_ok t"
      using old t ok by (auto intro!: links_mono [OF ok] dest: links_ok_fresh)
    moreover have "queue_of t = queue_of s"
      using old t by (simp add: queue_of_def fun_eq_iff split: option.split)
    ultimately show ?thesis using old t by (simp add: queue_of_def)
  next
    case new
    then have free: "\<not> bound_to s n q" for q
      using quiet by (auto simp: bound_to_def quiet_def list_all_iff)
    have bt: "bound_to t m q \<longleftrightarrow> bound_to s m q \<or> m = n \<and> q = r" for m q
      using new t by (auto simp: bound_to_def)
    have lt: "q < r" if "bound_to s m q" for m q
      using links_ok_lt [OF ok that] new by simp
    have "links_ok t"
    proof (rule links_okI)
      show "m = m' \<longleftrightarrow> q = q'" if "bound_to t m q" "bound_to t m' q'" for m q m' q'
        using that bt free lt links_ok_inj [OF ok] by (metis less_irrefl)
      show "q < dq_nextRef t" if "bound_to t m q" for m q
        using that bt lt new t by (auto intro: less_SucI)
      show "dq_heap t q = []" if "bound_to t m q" "dq_queues t m = None" for m q
        using that bt lt new t links_ok_fresh [OF ok] by (auto split: if_splits)
    qed
    moreover have "queue_of t = queue_of s"
      using new t lt by (fastforce simp: queue_of_def fun_eq_iff split: option.split)
    ultimately show ?thesis using new t by (simp add: queue_of_def)
  qed
  then show "links_ok t" "queue_of t = queue_of s" "dq_heap t r = queue_of s n" by simp_all
qed


section \<open>What each operation does to the queues\<close>

lemma list_for_links:
  assumes ok: "links_ok s" and l: "list_for n s = (r, s1)"
  shows "links_ok s1" and "queue_of s1 = queue_of s"
proof -
  from l have "links_ok s1 \<and> queue_of s1 = queue_of s"
  proof (cases rule: list_for_cases)
    case old
    then show ?thesis using ok by simp
  next
    case new
    note s1 = new(3)
    have b: "bound_to s1 m q = bound_to s m q" for m q
      using s1 by (simp add: bound_to_def)
    have "links_ok s1"
      using s1 b links_ok_lt [OF ok] links_ok_fresh [OF ok] links_ok_inj [OF ok]
      by (intro links_okI) (auto intro: less_SucI)
    moreover have "queue_of s1 = queue_of s"
      using s1 links_ok_lt [OF ok bound_to_queue] by (fastforce simp: queue_of_def fun_eq_iff split: option.split)
    ultimately show ?thesis by simp
  qed
  then show "links_ok s1" "queue_of s1 = queue_of s" by simp_all
qed

text \<open>Everything but the lists, the map and the waiting enqueues.\<close>

definition same_rest :: "delivery_queue \<Rightarrow> delivery_queue \<Rightarrow> bool" where
  "same_rest t s \<longleftrightarrow> dq_timers t = dq_timers s \<and> dq_flushing t = dq_flushing s \<and>
     dq_expiring t = dq_expiring s \<and> dq_log t = dq_log s \<and> dq_nextEntry t = dq_nextEntry s"

lemma list_for_rest: "list_for n s = (r, s1) \<Longrightarrow> same_rest s1 s \<and> dq_enqueuing s1 = dq_enqueuing s"
  by (auto simp: list_for_def same_rest_def split: option.splits)

lemma enqueueStart_effect:
  fixes hib :: bool and now :: int
  assumes "links_ok s" "quiet s (rq_targetNodeId req)"
  defines "t \<equiv> snd (enqueueStart req hib now s)"
  shows "links_ok t" and "queue_of t = queue_of s" and "same_rest t s"
proof -
  obtain r s1 where l: "list_for (rq_targetNodeId req) s = (r, s1)" by (rule prod.exhaust)
  let ?p = "(req, r, now, hib)"
  have t: "t = (if length (dq_heap s1 r) \<ge> dq_capacity s1 then s1
      else s1\<lparr>dq_enqueuing := dq_enqueuing s1 @ [?p]\<rparr>)"
    by (simp add: t_def enqueueStart_def l)
  show "same_rest t s" using list_for_rest [OF l] by (simp add: t same_rest_def)
  show "links_ok t" "queue_of t = queue_of s"
    using list_for_links [OF assms(1) l]
      list_for_bound(1,2) [OF assms(1,2) l, of "s1\<lparr>dq_enqueuing := dq_enqueuing s1 @ [?p]\<rparr>" ?p]
    by (simp_all add: t)
qed

lemma bound_list: "links_ok s \<Longrightarrow> bound_to s n r \<Longrightarrow> dq_heap s r = queue_of s n"
  by (auto simp: queue_of_def dest: links_ok_fresh links_ok_inj [OF _ _ bound_to_queue] split: option.split)

lemma set_remove_at: "set (remove_at i xs) \<subseteq> set xs"
  by (auto simp: remove_at_def dest: in_set_takeD in_set_dropD)

lemma remove_at_mset: "i < length xs \<Longrightarrow> mset xs = add_mset (xs ! i) (mset (remove_at i xs))"
  by (subst id_take_nth_drop [of i xs]) (simp_all add: remove_at_def)

lemma enqueueFinish_effect:
  fixes traceId :: string
  assumes ok: "links_ok s" and i: "i < length (dq_enqueuing s)"
  defines "t \<equiv> snd (enqueueFinish i traceId s)"
  obtains n e ws where "links_ok t" "queue_of t = (queue_of s)(n := queue_of s n @ [e])" "target_of e = n"
    "qe_id e = dq_nextEntry s" "dq_nextEntry t = Suc (dq_nextEntry s)"
    "dq_timers t = (dq_timers s)((n, e) \<mapsto> dq_ttlMs s)" "dq_flushing t = dq_flushing s"
    "dq_expiring t = dq_expiring s" "dq_log t = dq_log s @ TracedQueued e # ws"
    "ws = [] \<or> ws = [WakeRequested n]"
proof -
  obtain req r now hib where p: "dq_enqueuing s ! i = (req, r, now, hib)" by (metis surj_pair)
  let ?n = "rq_targetNodeId req"
  let ?e = "\<lparr>qe_id = dq_nextEntry s, qe_req = req, qe_enqueuedAt = now, qe_ttlMs = dq_ttlMs s,
    qe_queuedTraceId = traceId\<rparr>"
  have b: "bound_to s ?n r"
    using nth_mem [OF i] by (force simp: bound_to_def p)
  have t: "t = s\<lparr>dq_enqueuing := remove_at i (dq_enqueuing s), dq_nextEntry := Suc (dq_nextEntry s),
      dq_timers := (dq_timers s)((?n, ?e) \<mapsto> dq_ttlMs s), dq_heap := (dq_heap s)(r := dq_heap s r @ [?e]),
      dq_queues := (dq_queues s)(?n \<mapsto> r),
      dq_log := dq_log s @ TracedQueued ?e # (if hib then [WakeRequested ?n] else [])\<rparr>"
    by (simp add: t_def enqueueFinish_def p Let_def)
  have "links_ok t" "queue_of t = (queue_of s)(?n := dq_heap s r @ [?e])"
    by (rule put_list [OF ok b]; simp add: t set_remove_at)+
  then show ?thesis
    by (intro that [of ?n ?e "if hib then [WakeRequested ?n] else []"])
      (simp_all add: bound_list [OF ok b], simp_all add: t target_of_def)
qed

lemma flushNext_effect:
  assumes "links_ok s"
  obtains (idle) "flushNext n s = s"
    | (take) e es where "queue_of s n = e # es" "links_ok (flushNext n s)"
        "queue_of (flushNext n s) = (queue_of s)(n := es)"
        "dq_timers (flushNext n s) = (dq_timers s)((n, e) := None)"
        "dq_flushing (flushNext n s) = dq_flushing s @ [(n, e)]"
        "dq_expiring (flushNext n s) = dq_expiring s" "dq_log (flushNext n s) = dq_log s"
        "dq_nextEntry (flushNext n s) = dq_nextEntry s"
proof (cases "queue_of s n")
  case Nil
  then show ?thesis by (intro idle) (simp add: flushNext_def queue_of_def split: option.splits list.split)
next
  case (Cons e es)
  then obtain r where r: "dq_queues s n = Some r" "dq_heap s r = e # es"
    by (auto simp: queue_of_def split: option.splits)
  then have t: "flushNext n s = s\<lparr>dq_heap := (dq_heap s)(r := es), dq_timers := (dq_timers s)((n, e) := None),
      dq_flushing := dq_flushing s @ [(n, e)]\<rparr>"
    by (simp add: flushNext_def)
  show ?thesis
    by (rule take [OF Cons]) (use put_list_same [OF assms r(1), of "flushNext n s" es] in \<open>simp_all add: t\<close>)
qed

lemma requeueFront_effect:
  fixes e :: queue_entry and now :: int
  assumes ok: "links_ok s" and q: "quiet s n"
  defines "t \<equiv> requeueFront n e now s"
  shows "links_ok t" and "queue_of t = (queue_of s)(n := e # queue_of s n)"
    and "\<exists>ms. dq_timers t = (dq_timers s)((n, e) \<mapsto> ms)"
    and "dq_flushing t = dq_flushing s" "dq_expiring t = dq_expiring s" "dq_log t = dq_log s"
      "dq_nextEntry t = dq_nextEntry s"
proof -
  obtain r s1 where l: "list_for n s = (r, s1)" by (rule prod.exhaust)
  define req :: delivery_request where
    "req = \<lparr>rq_sourceNodeId = [], rq_targetNodeId = n, rq_sourceTitle = [], rq_body = []\<rparr>"
  define u where "u = s1\<lparr>dq_enqueuing := dq_enqueuing s1 @ [(req, r, 0, False)]\<rparr>"
  have t: "t = s1\<lparr>dq_timers := (dq_timers s1)((n, e) \<mapsto> max 0 (qe_ttlMs e - (now - qe_enqueuedAt e))),
      dq_heap := (dq_heap s1)(r := e # dq_heap s1 r), dq_queues := (dq_queues s1)(n \<mapsto> r)\<rparr>"
    by (simp add: t_def requeueFront_def l Let_def)
  have u: "links_ok u" "queue_of u = queue_of s" "dq_heap u r = queue_of s n"
    using list_for_bound [OF ok q l, of u "(req, r, 0, False)"] by (simp_all add: u_def req_def)
  have b: "bound_to u n r" by (auto simp: bound_to_def u_def req_def)
  show "links_ok t" "queue_of t = (queue_of s)(n := e # queue_of s n)"
    using put_list [OF u(1) b, of t "e # dq_heap u r"] u by (auto simp: t u_def)
  show "\<exists>ms. dq_timers t = (dq_timers s)((n, e) \<mapsto> ms)" "dq_flushing t = dq_flushing s"
    "dq_expiring t = dq_expiring s" "dq_log t = dq_log s" "dq_nextEntry t = dq_nextEntry s"
    using list_for_rest [OF l] by (auto simp: t same_rest_def)
qed

lemma dropEmpty_effect:
  assumes ok: "links_ok s"
  shows "links_ok (dropEmpty n s)" and "queue_of (dropEmpty n s) = queue_of s"
    and "same_rest (dropEmpty n s) s" and "dq_enqueuing (dropEmpty n s) = dq_enqueuing s"
proof -
  consider "dropEmpty n s = s"
    | r where "dq_queues s n = Some r" "dq_heap s r = []"
        "dropEmpty n s = s\<lparr>dq_queues := (dq_queues s)(n := None)\<rparr>"
    by (cases "dq_queues s n"; cases "dq_heap s (the (dq_queues s n))") (simp_all add: dropEmpty_def)
  then have "links_ok (dropEmpty n s) \<and> queue_of (dropEmpty n s) = queue_of s \<and>
      same_rest (dropEmpty n s) s \<and> dq_enqueuing (dropEmpty n s) = dq_enqueuing s"
  proof cases
    case 1
    then show ?thesis using ok by (simp add: same_rest_def)
  next
    case (2 r)
    let ?t = "s\<lparr>dq_queues := (dq_queues s)(n := None)\<rparr>"
    have sub: "bound_to s m q" if "bound_to ?t m q" for m q
      using that by (auto simp: bound_to_def split: if_splits)
    have "links_ok ?t"
    proof (rule links_mono [OF ok sub])
      show "dq_heap ?t q = []" if "bound_to ?t m q" "dq_queues ?t m = None" for m q
      proof (cases "m = n")
        case True
        then show ?thesis
          using sub [OF that(1)] 2(1,2) links_ok_inj [OF ok _ bound_to_queue, of n q n r] by simp
      next
        case False
        then show ?thesis using sub [OF that(1)] that(2) links_ok_fresh [OF ok, of m q] by simp
      qed
    qed simp_all
    moreover have "queue_of ?t = queue_of s"
      using 2(1,2) by (simp add: queue_of_def fun_eq_iff split: option.split)
    ultimately show ?thesis using 2(3) by (simp add: same_rest_def)
  qed
  then show "links_ok (dropEmpty n s)" "queue_of (dropEmpty n s) = queue_of s"
    "same_rest (dropEmpty n s) s" "dq_enqueuing (dropEmpty n s) = dq_enqueuing s" by simp_all
qed

lemma expireStart_effect:
  assumes ok: "links_ok s"
  obtains (stale) "e \<notin> set (queue_of s n)" "expireStart n e now s = s"
    | (lapse) "e \<in> set (queue_of s n)" "links_ok (expireStart n e now s)"
        "queue_of (expireStart n e now s) = (queue_of s)(n := remove1 e (queue_of s n))"
        "dq_timers (expireStart n e now s) = (dq_timers s)((n, e) := None)"
        "dq_flushing (expireStart n e now s) = dq_flushing s"
        "dq_expiring (expireStart n e now s) = dq_expiring s @ [(e, now - qe_enqueuedAt e)]"
        "dq_log (expireStart n e now s) = dq_log s"
        "dq_nextEntry (expireStart n e now s) = dq_nextEntry s"
proof (cases "e \<in> set (queue_of s n)")
  case False
  then show ?thesis by (intro stale) (simp_all add: expireStart_def queue_of_def split: option.split)
next
  case True
  then obtain r where r: "dq_queues s n = Some r" "e \<in> set (dq_heap s r)" "queue_of s n = dq_heap s r"
    by (cases "dq_queues s n") (simp_all add: queue_of_def)
  let ?u = "s\<lparr>dq_heap := (dq_heap s)(r := remove1 e (dq_heap s r))\<rparr>"
  let ?v = "dropEmpty n ?u"
  have t: "expireStart n e now s = ?v\<lparr>dq_timers := (dq_timers ?v)((n, e) := None),
      dq_expiring := dq_expiring ?v @ [(e, now - qe_enqueuedAt e)]\<rparr>"
    using r by (simp add: expireStart_def Let_def)
  have u: "links_ok ?u" "queue_of ?u = (queue_of s)(n := remove1 e (queue_of s n))"
    using put_list_same [OF ok r(1), of ?u "remove1 e (dq_heap s r)"] r(3) by simp_all
  note v = dropEmpty_effect [OF u(1), of n]
  have "links_ok (expireStart n e now s) = links_ok ?v" "queue_of (expireStart n e now s) = queue_of ?v"
    by (rule same_links; simp add: t)+
  then show ?thesis
    by (intro lapse [OF True]) (use u v in \<open>simp_all add: t same_rest_def\<close>)
qed


section \<open>Every accepted message is in one place\<close>

definition placed :: "delivery_queue \<Rightarrow> bool" where
  "placed s \<longleftrightarrow>
     (\<forall>n e. e \<in> set (queue_of s n) \<longrightarrow> target_of e = n \<and> dq_timers s (n, e) \<noteq> None) \<and>
     (\<forall>p \<in> set (dq_flushing s). target_of (snd p) = fst p) \<and>
     (\<forall>e \<in> accepted s. qe_id e < dq_nextEntry s) \<and>
     (\<forall>e. places s e = of_bool (e \<in> accepted s))"

lemma placedI:
  assumes "\<And>n e. e \<in> set (queue_of s n) \<Longrightarrow> target_of e = n \<and> dq_timers s (n, e) \<noteq> None"
    and "\<And>p. p \<in> set (dq_flushing s) \<Longrightarrow> target_of (snd p) = fst p"
    and "\<And>e. e \<in> accepted s \<Longrightarrow> qe_id e < dq_nextEntry s"
    and "\<And>e. places s e = of_bool (e \<in> accepted s)"
  shows "placed s"
  using assms unfolding placed_def by blast

lemma placed_waiting: "placed s \<Longrightarrow> e \<in> set (queue_of s n) \<Longrightarrow> target_of e = n"
  and placed_timer: "placed s \<Longrightarrow> e \<in> set (queue_of s n) \<Longrightarrow> dq_timers s (n, e) \<noteq> None"
  and placed_flushing: "placed s \<Longrightarrow> p \<in> set (dq_flushing s) \<Longrightarrow> target_of (snd p) = fst p"
  and placed_id: "placed s \<Longrightarrow> e \<in> accepted s \<Longrightarrow> qe_id e < dq_nextEntry s"
  and placed_places: "placed s \<Longrightarrow> places s e = of_bool (e \<in> accepted s)"
  unfolding placed_def by blast+

lemma places_pos: "placed s \<Longrightarrow> 0 < places s e \<Longrightarrow> e \<in> accepted s \<and> places s e = 1"
  by (simp add: placed_places split: if_splits)

lemma placed_once:
  assumes "placed s" "e \<in> set (queue_of s n)"
  shows "count_list (queue_of s n) e = 1"
proof -
  have "count_list (queue_of s n) e \<le> places s e" "0 < count_list (queue_of s n) e"
    using assms placed_waiting [OF assms] by (simp_all add: places_def count_list_0_iff flip: neq0_conv)
  then show ?thesis using places_pos [OF assms(1), of e] by linarith
qed

lemma count_remove_at:
  "i < length xs \<Longrightarrow> count_list xs x = count_list (remove_at i xs) x + of_bool (xs ! i = x)"
  by (subst id_take_nth_drop [of i xs]) (simp_all add: remove_at_def)

lemma count_map_remove_at:
  "i < length xs \<Longrightarrow>
     count_list (map f xs) x = count_list (map f (remove_at i xs)) x + of_bool (f (xs ! i) = x)"
  by (subst id_take_nth_drop [of i xs]) (simp_all add: remove_at_def)

lemma count_remove1: "count_list (remove1 e xs) x = count_list xs x - of_bool (x = e)"
  by (induction xs) auto

lemma same_placed:
  assumes "placed s" "queue_of t = queue_of s" "same_rest t s"
  shows "placed t"
  using assms unfolding placed_def accepted_def places_def same_rest_def by simp

lemma placed_start: "placed (queue_start c ttl)"
  by (simp add: placed_def places_def accepted_def queue_of_start) (simp add: queue_start_def)

lemma placed_enqueueFinish:
  assumes ok: "links_ok s" "placed s" and i: "i < length (dq_enqueuing s)"
  shows "placed (snd (enqueueFinish i traceId s))"
  using ok(1) i
proof (rule enqueueFinish_effect)
  let ?t = "snd (enqueueFinish i traceId s)"
  fix n e ws
  assume q: "queue_of ?t = (queue_of s)(n := queue_of s n @ [e])" and e: "target_of e = n"
    and id: "qe_id e = dq_nextEntry s" "dq_nextEntry ?t = Suc (dq_nextEntry s)"
    and tm: "dq_timers ?t = (dq_timers s)((n, e) \<mapsto> dq_ttlMs s)"
    and F: "dq_flushing ?t = dq_flushing s" and X: "dq_expiring ?t = dq_expiring s"
    and L: "dq_log ?t = dq_log s @ TracedQueued e # ws" and ws: "ws = [] \<or> ws = [WakeRequested n]"
  have acc: "accepted ?t = insert e (accepted s)"
    using ws by (auto simp: accepted_def L)
  have new: "e \<notin> accepted s" using placed_id [OF ok(2)] id by fastforce
  have pl: "places ?t x = places s x + of_bool (x = e)" for x
    using ws e by (auto simp: places_def q F X L)
  show "placed ?t"
  proof (rule placedI)
    show "target_of x = m \<and> dq_timers ?t (m, x) \<noteq> None" if "x \<in> set (queue_of ?t m)" for m x
      using that e placed_waiting [OF ok(2)] placed_timer [OF ok(2)] by (auto simp: q tm split: if_splits)
    show "target_of (snd p) = fst p" if "p \<in> set (dq_flushing ?t)" for p
      using that placed_flushing [OF ok(2)] by (simp add: F)
    show "qe_id x < dq_nextEntry ?t" if "x \<in> accepted ?t" for x
      using that placed_id [OF ok(2)] id by (auto simp: acc intro: less_SucI)
    show "places ?t x = of_bool (x \<in> accepted ?t)" for x
      using new placed_places [OF ok(2)] by (auto simp: pl acc)
  qed
qed

lemma placed_flushNext:
  assumes ok: "links_ok s" "placed s"
  shows "placed (flushNext n s)"
  using ok(1)
proof (cases rule: flushNext_effect [where n = n])
  case idle
  then show ?thesis using ok(2) by simp
next
  case (take e es)
  have e: "e \<in> set (queue_of s n)" by (simp add: take)
  have acc: "accepted (flushNext n s) = accepted s" by (simp add: accepted_def take)
  have es: "e \<notin> set es"
    using placed_once [OF ok(2) e] by (simp add: take(1) count_list_0_iff)
  show ?thesis
  proof (rule placedI)
    show "target_of x = m \<and> dq_timers (flushNext n s) (m, x) \<noteq> None" if "x \<in> set (queue_of (flushNext n s) m)" for m x
      using that es placed_waiting [OF ok(2)] placed_timer [OF ok(2)]
      by (cases "m = n") (auto simp: take(1,3,4))
    show "target_of (snd p) = fst p" if "p \<in> set (dq_flushing (flushNext n s))" for p
      using that placed_flushing [OF ok(2)] placed_waiting [OF ok(2) e] by (auto simp: take)
    show "qe_id x < dq_nextEntry (flushNext n s)" if "x \<in> accepted (flushNext n s)" for x
      using that placed_id [OF ok(2)] by (simp add: acc take)
    show "places (flushNext n s) x = of_bool (x \<in> accepted (flushNext n s))" for x
    proof -
      have "places (flushNext n s) x = places s x"
        using placed_waiting [OF ok(2) e] by (cases "target_of x = n") (simp_all add: places_def take, blast)
      then show ?thesis using placed_places [OF ok(2)] by (simp add: acc)
    qed
  qed
qed


lemma placed_flushReturn:
  assumes ok: "links_ok s" "placed s" and i: "i < length (dq_flushing s)"
    and q: "REQUEUE_ON (kind_of outcome) \<Longrightarrow> quiet s (fst (dq_flushing s ! i))"
  shows "links_ok (flushReturn i outcome now s) \<and> placed (flushReturn i outcome now s)"
proof -
  obtain n e where ne: "dq_flushing s ! i = (n, e)" by (rule prod.exhaust)
  let ?s1 = "s\<lparr>dq_flushing := remove_at i (dq_flushing s)\<rparr>"
  have l1: "links_ok ?s1" "queue_of ?s1 = queue_of s"
    using same_links [of ?s1 s] ok(1) by simp_all
  have te: "target_of e = n"
    using placed_flushing [OF ok(2) nth_mem [OF i]] by (simp add: ne)
  have pl1: "places s x = places ?s1 x + of_bool (x = e)" for x
    using count_map_remove_at [OF i, of snd x] by (auto simp: places_def l1 ne)
  have ea: "e \<in> accepted s" "places ?s1 e = 0"
    using pl1 [of e] placed_places [OF ok(2), of e] by (cases "e \<in> accepted s"; simp)+
  have fl1: "target_of (snd p) = fst p" if "p \<in> set (dq_flushing ?s1)" for p
    using that placed_flushing [OF ok(2)] set_remove_at by fastforce
  show ?thesis
  proof (cases "REQUEUE_ON (kind_of outcome)")
    case True
    let ?t = "requeueFront n e now ?s1"
    have qn: "quiet ?s1 n" using q [OF True] by (simp add: quiet_def ne)
    note t = requeueFront_effect [OF l1(1) qn, of e now]
    obtain ms where ms: "dq_timers ?t = (dq_timers ?s1)((n, e) \<mapsto> ms)" using t(3) by blast
    have "placed ?t"
    proof (rule placedI)
      show "target_of x = m \<and> dq_timers ?t (m, x) \<noteq> None" if "x \<in> set (queue_of ?t m)" for m x
        using that te placed_waiting [OF ok(2)] placed_timer [OF ok(2)]
        by (auto simp: t(2) l1 ms split: if_splits)
      show "target_of (snd p) = fst p" if "p \<in> set (dq_flushing ?t)" for p
        using that fl1 by (simp add: t)
      show "qe_id x < dq_nextEntry ?t" if "x \<in> accepted ?t" for x
        using that placed_id [OF ok(2)] by (simp add: t accepted_def)
      have "places ?t x = places s x" for x
        using te by (cases "x = e") (simp_all add: pl1, simp_all add: places_def t l1)
      then show "places ?t x = of_bool (x \<in> accepted ?t)" for x
        using placed_places [OF ok(2)] by (simp add: t accepted_def)
    qed
    then show ?thesis using True t(1) by (simp add: flushReturn_def ne)
  next
    case False
    let ?s2 = "dropEmpty n ?s1"
    let ?u = "?s2\<lparr>dq_log := dq_log ?s2 @ [FlushReported e outcome]\<rparr>"
    note d = dropEmpty_effect [OF l1(1), of n]
    have u: "links_ok ?u" "queue_of ?u = queue_of s"
      using same_links [of ?u ?s2] d(1,2) l1 by simp_all
    have acc: "accepted ?u = accepted s"
      using d(3) by (auto simp: accepted_def same_rest_def)
    have "placed ?u"
    proof (rule placedI)
      show "target_of x = m \<and> dq_timers ?u (m, x) \<noteq> None" if "x \<in> set (queue_of ?u m)" for m x
        using that placed_waiting [OF ok(2)] placed_timer [OF ok(2)] d(3)
        by (auto simp: u same_rest_def)
      show "target_of (snd p) = fst p" if "p \<in> set (dq_flushing ?u)" for p
        using that fl1 d(3) by (simp add: same_rest_def)
      show "qe_id x < dq_nextEntry ?u" if "x \<in> accepted ?u" for x
        using that placed_id [OF ok(2)] d(3) by (simp add: acc same_rest_def)
      have "places ?u x = places s x" for x
        unfolding pl1 unfolding places_def u(2) l1(2) using d(3) by (simp add: same_rest_def eq_commute)
      then show "places ?u x = of_bool (x \<in> accepted ?u)" for x
        using placed_places [OF ok(2)] by (simp add: acc)
    qed
    moreover have "links_ok (flushNext n ?u)"
      using u(1) by (rule flushNext_effect [where n = n]) (simp_all add: u)
    ultimately show ?thesis
      using False placed_flushNext [OF u(1)] by (simp add: flushReturn_def ne Let_def)
  qed
qed

lemma placed_fire:
  assumes ok: "links_ok s" "placed s"
  defines "u \<equiv> \<lambda>n e. s\<lparr>dq_timers := (dq_timers s)((n, e) := None)\<rparr>"
  shows "links_ok (expireStart n e now (u n e)) \<and> placed (expireStart n e now (u n e))"
proof -
  let ?u = "u n e"
  have u: "links_ok ?u" "queue_of ?u = queue_of s"
    using same_links [of ?u s] ok(1) by (simp_all add: u_def)
  from u(1) show ?thesis
  proof (cases rule: expireStart_effect [where n = n and e = e and now = now])
    case stale
    have "placed ?u"
    proof (rule placedI)
      show "target_of x = m \<and> dq_timers ?u (m, x) \<noteq> None" if "x \<in> set (queue_of ?u m)" for m x
        using that stale(1) placed_waiting [OF ok(2)] placed_timer [OF ok(2)]
        unfolding u by (auto simp: u_def)
      show "target_of (snd p) = fst p" if "p \<in> set (dq_flushing ?u)" for p
        using that placed_flushing [OF ok(2)] by (simp add: u_def)
      show "qe_id x < dq_nextEntry ?u" if "x \<in> accepted ?u" for x
        using that placed_id [OF ok(2)] by (simp add: u_def accepted_def)
      show "places ?u x = of_bool (x \<in> accepted ?u)" for x
        using placed_places [OF ok(2), of x] u(2) by (simp add: u_def accepted_def places_def)
    qed
    then show ?thesis using stale(2) u(1) by simp
  next
    case lapse
    let ?t = "expireStart n e now ?u"
    have e: "e \<in> set (queue_of s n)" using lapse(1) u(2) by simp
    note te = placed_waiting [OF ok(2) e]
    have gone: "e \<notin> set (remove1 e (queue_of s n))"
      using placed_once [OF ok(2) e] by (simp add: count_list_0_iff [symmetric] count_remove1)
    have t: "queue_of ?t = (queue_of s)(n := remove1 e (queue_of s n))"
      "dq_timers ?t = (dq_timers s)((n, e) := None)" "dq_flushing ?t = dq_flushing s"
      "dq_expiring ?t = dq_expiring s @ [(e, now - qe_enqueuedAt e)]" "dq_log ?t = dq_log s"
      "dq_nextEntry ?t = dq_nextEntry s"
      by (simp_all add: lapse u) (simp_all add: u_def)
    have acc: "accepted ?t = accepted s" by (simp add: accepted_def t)
    have "placed ?t"
    proof (rule placedI)
      show "target_of x = m \<and> dq_timers ?t (m, x) \<noteq> None" if "x \<in> set (queue_of ?t m)" for m x
      proof -
        have x: "x \<in> set (queue_of s m)" "(m, x) \<noteq> (n, e)"
          using that gone set_remove1_subset [of e "queue_of s n"] by (auto simp: t split: if_splits)
        then show ?thesis
          using placed_waiting [OF ok(2) x(1)] placed_timer [OF ok(2) x(1)] by (auto simp: t)
      qed
      show "target_of (snd p) = fst p" if "p \<in> set (dq_flushing ?t)" for p
        using that placed_flushing [OF ok(2)] by (simp add: t)
      show "qe_id x < dq_nextEntry ?t" if "x \<in> accepted ?t" for x
        using that placed_id [OF ok(2)] by (simp add: acc t)
      have "places ?t x = places s x" for x
        using te placed_once [OF ok(2) e]
        by (cases "x = e") (simp_all add: places_def t count_remove1)
      then show "places ?t x = of_bool (x \<in> accepted ?t)" for x
        using placed_places [OF ok(2)] by (simp add: acc)
    qed
    then show ?thesis using lapse(2) by simp
  qed
qed

lemma placed_expireFinish:
  assumes ok: "links_ok s" "placed s" and i: "i < length (dq_expiring s)"
  shows "links_ok (expireFinish i s) \<and> placed (expireFinish i s)"
proof -
  obtain e ms where em: "dq_expiring s ! i = (e, ms)" by (rule prod.exhaust)
  let ?t = "s\<lparr>dq_expiring := remove_at i (dq_expiring s), dq_log := dq_log s @ [ExpiryReported e ms]\<rparr>"
  have t: "links_ok ?t" "queue_of ?t = queue_of s" using same_links [of ?t s] ok(1) by simp_all
  have acc: "accepted ?t = accepted s" by (auto simp: accepted_def)
  have pl: "places ?t x = places s x" for x
    using count_map_remove_at [OF i, of fst x] by (simp add: places_def t em)
  have "placed ?t"
  proof (rule placedI)
    show "target_of x = m \<and> dq_timers ?t (m, x) \<noteq> None" if "x \<in> set (queue_of ?t m)" for m x
      using that placed_waiting [OF ok(2)] placed_timer [OF ok(2)] by (simp add: t)
    show "target_of (snd p) = fst p" if "p \<in> set (dq_flushing ?t)" for p
      using that placed_flushing [OF ok(2)] by simp
    show "qe_id x < dq_nextEntry ?t" if "x \<in> accepted ?t" for x
      using that placed_id [OF ok(2)] by (simp add: acc)
    show "places ?t x = of_bool (x \<in> accepted ?t)" for x
      using placed_places [OF ok(2)] by (simp only: acc pl)
  qed
  then show ?thesis using t(1) by (simp add: expireFinish_def em)
qed

lemma dq_step_ok:
  assumes "dq_step True s t" "links_ok s" "placed s"
  shows "links_ok t \<and> placed t"
  using assms
proof cases
  case (start req hib now)
  then show ?thesis using enqueueStart_effect [of s req hib now] same_placed assms by blast
next
  case (finish i traceId)
  have "links_ok t" using assms(2) finish by (metis enqueueFinish_effect)
  then show ?thesis using finish placed_enqueueFinish assms by blast
next
  case (idle n)
  have "links_ok (flushNext n s)" using assms(2) by (rule flushNext_effect [where n = n]) (simp_all add: assms)
  then show ?thesis using idle placed_flushNext assms by blast
next
  case return
  then show ?thesis using placed_flushReturn assms by blast
next
  case (fire n e now)
  then show ?thesis using placed_fire [OF assms(2,3)] by simp
next
  case expired
  then show ?thesis using placed_expireFinish assms by blast
qed

lemma dq_reachable_ok: "(dq_step True)\<^sup>*\<^sup>* (queue_start c ttl) s \<Longrightarrow> links_ok s \<and> placed s"
  by (induction rule: rtranclp_induct) (simp_all add: links_start placed_start dq_step_ok)


text \<open>
  C7. Never a silent drop. Under the discipline that no operation makes a new list for a target while
  an enqueue for it still waits for its trace, every message the queue has accepted is, at every
  moment, in exactly one place: waiting in the list of its target, being delivered, being expired, or
  reported to its sender, once. A message that waits has its timer armed, and the timer, whenever it
  fires, moves that very message to its expiry.
\<close>

theorem accepted_never_dropped:
  assumes "(dq_step True)\<^sup>*\<^sup>* (queue_start capacity ttl) s" "e \<in> accepted s"
  shows "places s e = 1 \<and>
    (e \<in> set (queue_of s (target_of e)) \<longrightarrow>
       dq_timers s (target_of e, e) \<noteq> None \<and>
       (e, now - qe_enqueuedAt e) \<in> set (dq_expiring (expireStart (target_of e) e now s)))"
proof -
  have ok: "links_ok s" "placed s" using dq_reachable_ok [OF assms(1)] by simp_all
  have "(e, now - qe_enqueuedAt e) \<in> set (dq_expiring (expireStart (target_of e) e now s))"
    if "e \<in> set (queue_of s (target_of e))"
    by (rule expireStart_effect [OF ok(1), of e "target_of e" now]) (use that in simp_all)
  then show ?thesis
    using ok(2) assms(2) by (simp add: placed_places placed_timer)
qed

definition sample_request :: delivery_request where
  "sample_request = \<lparr>rq_sourceNodeId = ''a'', rq_targetNodeId = ''b'', rq_sourceTitle = ''A'', rq_body = ''hi''\<rparr>"

definition sample_entry :: queue_entry where
  "sample_entry = \<lparr>qe_id = 0, qe_req = sample_request, qe_enqueuedAt = 10, qe_ttlMs = 300, qe_queuedTraceId = ''t''\<rparr>"

definition one_waiting :: delivery_queue where
  "one_waiting = snd (enqueueFinish 0 ''t'' (snd (enqueueStart sample_request True 10 (queue_start 16 300))))"

lemmas queue_ops = enqueueStart_def enqueueFinish_def list_for_def queue_start_def remove_at_def Let_def

lemma one_waiting_reachable: "(dq_step True)\<^sup>*\<^sup>* (queue_start 16 300) one_waiting"
proof -
  let ?s = "snd (enqueueStart sample_request True 10 (queue_start 16 300))"
  have "dq_step True (queue_start 16 300) ?s"
    by (rule dq_step.start) (simp add: quiet_def queue_start_def)
  moreover have "dq_step True ?s one_waiting"
    unfolding one_waiting_def by (rule dq_step.finish) (simp add: queue_ops)
  ultimately show ?thesis by simp
qed

lemma one_waiting_accepted: "sample_entry \<in> accepted one_waiting" "sample_entry \<in> set (queue_of one_waiting ''b'')"
  "target_of sample_entry = ''b''"
  by (simp_all add: accepted_def one_waiting_def sample_entry_def sample_request_def queue_ops queue_of_def target_of_def)

theorem accepted_never_dropped_witness:
  "places one_waiting sample_entry = 1 \<and> dq_timers one_waiting (''b'', sample_entry) \<noteq> None \<and>
   (sample_entry, 300) \<in> set (dq_expiring (expireStart ''b'' sample_entry 310 one_waiting))"
  using accepted_never_dropped [OF one_waiting_reachable one_waiting_accepted(1), of 310] one_waiting_accepted
  by (simp add: sample_entry_def)

text \<open>Two messages for one target, the second asked for before the trace of the first is there.\<close>

definition two_at_once :: "delivery_request \<Rightarrow> string \<Rightarrow> nat \<Rightarrow> int \<Rightarrow> int \<Rightarrow> delivery_queue \<times> message_outcome \<times> message_outcome" where
  "two_at_once req body capacity ttl now =
     (let (_, s1) = enqueueStart req False now (queue_start capacity ttl);
          (_, s2) = enqueueStart (req\<lparr>rq_body := body\<rparr>) False now s1;
          (o1, s3) = enqueueFinish 0 ''first'' s2;
          (o2, s4) = enqueueFinish 0 ''second'' s3
      in (s4, o1, o2))"

lemma two_at_once_reachable:
  "(dq_step False)\<^sup>*\<^sup>* (queue_start (Suc c) ttl) (fst (two_at_once req body (Suc c) ttl now))"
proof -
  let ?s1 = "snd (enqueueStart req False now (queue_start (Suc c) ttl))"
  let ?s2 = "snd (enqueueStart (req\<lparr>rq_body := body\<rparr>) False now ?s1)"
  let ?s3 = "snd (enqueueFinish 0 ''first'' ?s2)"
  have "dq_step False (queue_start (Suc c) ttl) ?s1" by (rule dq_step.start) simp
  moreover have "dq_step False ?s1 ?s2" by (rule dq_step.start) simp
  moreover have "dq_step False ?s2 ?s3" by (rule dq_step.finish) (simp add: queue_ops)
  moreover have "dq_step False ?s3 (snd (enqueueFinish 0 ''second'' ?s3))"
    by (rule dq_step.finish) (simp add: queue_ops)
  ultimately show ?thesis
    by (simp add: two_at_once_def case_prod_beta' Let_def)
qed

text \<open>
  C30. What the discipline is for. Two messages to a target with no list, the second asked for before
  the trace of the first is written, are both answered \<open>queued\<close>; but each \<open>enqueue\<close> has made a list of
  its own, and the second to finish replaces the first. The first message is then in no place at all,
  and its timer, when it fires, finds nothing and reports nothing.
\<close>

theorem overlapping_enqueues_lose_one:
  "case two_at_once req body (Suc c) ttl now of (s, o1, o2) \<Rightarrow>
     (dq_step False)\<^sup>*\<^sup>* (queue_start (Suc c) ttl) s \<and>
     o1 = Queued ''first'' 1 ttl \<and> o2 = Queued ''second'' 1 ttl \<and>
     (let e = \<lparr>qe_id = 0, qe_req = req, qe_enqueuedAt = now, qe_ttlMs = ttl, qe_queuedTraceId = ''first''\<rparr>
      in e \<in> accepted s \<and> places s e = 0 \<and> dq_timers s (target_of e, e) = Some ttl \<and>
         expireStart (target_of e) e fired s = s)"
  using two_at_once_reachable [of c ttl req body now]
  by (simp add: two_at_once_def queue_ops accepted_def places_def target_of_def queue_of_def expireStart_def)

end
