(* ===== verification/Spec2Isabelle.thy ===== *)
theory Spec2Isabelle
  imports Canvas_Convergence Canvas_Cast Unlock_Ladder Delivery_Queue
begin

text \<open>
  Verification library of the shared canvas of this repository.
\<close>

end
